(* ===== verification/Prelude.thy ===== *)
theory Prelude
  imports Main "HOL-Library.Word" "HOL-Library.DAList" "HOL-Library.Multiset"
    "HOL-Library.Monad_Syntax"
begin

text \<open>
  The vocabulary every component shares.

  \<^item> Go byte sequences (\<open>string\<close> and \<open>[]byte\<close>) are lists of 8-bit words.
  \<^item> A Go \<open>map[K]V\<close> is an association list with unique keys (\<open>HOL-Library.DAList\<close>), and a
    \<open>map[K]struct{}\<close> the same with values of type \<open>unit\<close>. The order in which \<open>range\<close> visits a
    map and the results of \<open>rand.Intn\<close> are not determined by the program: they are read from a list
    of naturals, the runtime's choices (\<open>draw\<close>), over which every theorem quantifies.
  \<^item> A panic is the value \<open>None\<close> of an option; loops whose body may panic are \<open>foldM\<close>.
  \<^item> A buffered Go channel is a record of its buffer, its capacity and whether it is closed.
\<close>

named_theorems gomap_simps \<open>lookup, domain and size of the map operations\<close>
named_theorems frame_intros \<open>operations that leave the fields of a frame alone\<close>
named_theorems inv_intros \<open>operations that preserve a component's invariant\<close>

section \<open>Bytes, strings and identifiers\<close>

type_synonym byte = "8 word"
type_synonym gostring = "byte list"
type_synonym peer = gostring
type_synonym topic = gostring
type_synonym protocol = gostring

text \<open>The bytes of an ASCII literal of the source.\<close>

definition str :: "string \<Rightarrow> gostring" where
  "str s = map of_char s"

section \<open>Go maps\<close>

definition mkeys :: "('k, 'v) alist \<Rightarrow> 'k list" where
  "mkeys m = map fst (DAList.impl_of m)"

definition mdom :: "('k, 'v) alist \<Rightarrow> 'k set" where
  "mdom m = set (mkeys m)"

definition mlen :: "('k, 'v) alist \<Rightarrow> nat" where
  "mlen m = length (DAList.impl_of m)"

abbreviation mget :: "('k, 'v) alist \<Rightarrow> 'k \<Rightarrow> 'v option" where
  "mget \<equiv> DAList.lookup"

abbreviation mput :: "'k \<Rightarrow> 'v \<Rightarrow> ('k, 'v) alist \<Rightarrow> ('k, 'v) alist" where
  "mput \<equiv> DAList.update"

abbreviation mdel :: "'k \<Rightarrow> ('k, 'v) alist \<Rightarrow> ('k, 'v) alist" where
  "mdel \<equiv> DAList.delete"

abbreviation mempty :: "('k, 'v) alist" where
  "mempty \<equiv> DAList.empty"

text \<open>The two-result lookup \<open>_, ok := m[k]\<close>.\<close>

definition mhas :: "('k, 'v) alist \<Rightarrow> 'k \<Rightarrow> bool" where
  "mhas m k \<longleftrightarrow> mget m k \<noteq> None"

text \<open>A lookup of a map-valued map: the zero value of a missing inner map is empty.\<close>

definition mget0 :: "('k, ('j, 'v) alist) alist \<Rightarrow> 'k \<Rightarrow> ('j, 'v) alist" where
  "mget0 m k = (case mget m k of None \<Rightarrow> mempty | Some v \<Rightarrow> v)"

lift_definition mmap :: "('v \<Rightarrow> 'w) \<Rightarrow> ('k, 'v) alist \<Rightarrow> ('k, 'w) alist"
  is "\<lambda>f. map (apsnd f)"
  by (simp add: o_def)

text \<open>The elements of a list as a \<open>map[K]struct{}\<close>.\<close>

definition mset_of_list :: "'k list \<Rightarrow> ('k, unit) alist" where
  "mset_of_list ks = fold (\<lambda>k. mput k ()) ks mempty"

lemma impl_of_empty [simp]: "DAList.impl_of mempty = []"
  by transfer simp

lemma impl_of_update [simp]: "DAList.impl_of (mput k v m) = AList.update k v (DAList.impl_of m)"
  by transfer simp

lemma impl_of_delete [simp]: "DAList.impl_of (mdel k m) = AList.delete k (DAList.impl_of m)"
  by transfer simp

lemma impl_of_mmap [simp]: "DAList.impl_of (mmap f m) = map (apsnd f) (DAList.impl_of m)"
  by transfer simp

lemma mdom_dom: "mdom m = dom (mget m)"
  by (simp add: mdom_def mkeys_def DAList.lookup.rep_eq dom_map_of_conv_image_fst)

lemma mem_mdom: "k \<in> mdom m \<longleftrightarrow> mget m k \<noteq> None"
  by (simp add: mdom_dom domIff)

lemma mem_mdomI [intro]: "mget m k = Some v \<Longrightarrow> k \<in> mdom m"
  by (simp add: mem_mdom)

lemma mhas_mdom [gomap_simps, simp]: "mhas m k \<longleftrightarrow> k \<in> mdom m"
  by (simp add: mhas_def mem_mdom)

lemma set_mkeys [simp]: "set (mkeys m) = mdom m"
  by (simp add: mdom_def)

lemma distinct_mkeys [simp]: "distinct (mkeys m)"
  by (simp add: mkeys_def)

lemma finite_mdom [simp]: "finite (mdom m)"
  unfolding mdom_def by (rule finite_set)

lemma length_mkeys [simp]: "length (mkeys m) = mlen m"
  by (simp add: mkeys_def mlen_def)

lemma mlen_card: "mlen m = card (mdom m)"
  by (metis distinct_card distinct_mkeys length_mkeys set_mkeys)

lemma mdom_empty [gomap_simps, simp]: "mdom mempty = {}"
  by (simp add: mdom_dom dom_def)

lemma mdom_update [gomap_simps, simp]: "mdom (mput k v m) = insert k (mdom m)"
  by (auto simp: mem_mdom lookup_update split: if_splits)

lemma mdom_delete [gomap_simps, simp]: "mdom (mdel k m) = mdom m - {k}"
  by (auto simp: mem_mdom split: if_splits)

lemma mget_mmap [gomap_simps, simp]: "mget (mmap f m) k = map_option f (mget m k)"
  by transfer (simp add: map_of_map apsnd_def map_prod_def)

lemma mdom_mmap [gomap_simps, simp]: "mdom (mmap f m) = mdom m"
  by (auto simp: mem_mdom)

lemma mlen_mmap [gomap_simps, simp]: "mlen (mmap f m) = mlen m"
  by (simp add: mlen_card)

lemma mlen_empty [gomap_simps, simp]: "mlen mempty = 0"
  by (simp add: mlen_def)

lemma mlen_0_iff [simp]: "mlen m = 0 \<longleftrightarrow> mdom m = {}"
  by (simp add: mlen_card)

lemma mlen_update: "mlen (mput k v m) = (if k \<in> mdom m then mlen m else Suc (mlen m))"
  by (simp add: mlen_card insert_absorb)

lemma mlen_delete: "mlen (mdel k m) = (if k \<in> mdom m then mlen m - 1 else mlen m)"
  by (simp add: mlen_card)

lemma mget_unit: "mget (m :: ('k, unit) alist) k = (if k \<in> mdom m then Some () else None)"
  by (cases "mget m k") (auto simp: mem_mdom)

lemma mget0_empty [simp]: "mget m k = None \<Longrightarrow> mget0 m k = mempty"
  by (simp add: mget0_def)

lemma mget0_Some [simp]: "mget m k = Some v \<Longrightarrow> mget0 m k = v"
  by (simp add: mget0_def)

lemma mget0_update: "mget0 (mput k v m) j = (if j = k then v else mget0 m j)"
  by (simp add: mget0_def lookup_update)

lemma mget0_delete: "mget0 (mdel k m) j = (if j = k then mempty else mget0 m j)"
  by (simp add: mget0_def)

lemma mdom_fold_mput: "mdom (fold (\<lambda>k. mput k ()) ks m) = set ks \<union> mdom m"
  by (induction ks arbitrary: m) auto

lemma mdom_fold_mdel: "mdom (fold mdel ks m) = mdom m - set ks"
  by (induction ks arbitrary: m) auto

lemma mdom_mset_of_list [gomap_simps, simp]: "mdom (mset_of_list ks) = set ks"
  by (simp add: mset_of_list_def mdom_fold_mput)

section \<open>Addresses of loop variables\<close>

text \<open>
  \<open>for _, x := range xs { ys = append(ys, &T{F: &x}) }\<close> in Go before version 1.22 (\<open>go.mod\<close> says
  1.12): the loop has one variable \<open>x\<close>, every element of \<open>ys\<close> holds its address, and after the loop
  all of them read the last element of \<open>xs\<close>.
\<close>

definition loop_var_ptrs :: "'a list \<Rightarrow> 'a list" where
  "loop_var_ptrs xs = replicate (length xs) (last xs)"

lemma length_loop_var_ptrs [simp]: "length (loop_var_ptrs xs) = length xs"
  by (simp add: loop_var_ptrs_def)

lemma loop_var_ptrs_single [simp]: "loop_var_ptrs [x] = [x]"
  by (simp add: loop_var_ptrs_def)

lemma set_loop_var_ptrs: "set (loop_var_ptrs xs) = (if xs = [] then {} else {last xs})"
  by (auto simp: loop_var_ptrs_def)

section \<open>Panics and loops that may panic\<close>

primrec foldM :: "('a \<Rightarrow> 's \<Rightarrow> 's option) \<Rightarrow> 'a list \<Rightarrow> 's \<Rightarrow> 's option" where
  "foldM f [] s = Some s"
| "foldM f (x # xs) s = do { s' \<leftarrow> f x s; foldM f xs s' }"

lemma foldM_append: "foldM f (xs @ ys) s = do { s' \<leftarrow> foldM f xs s; foldM f ys s' }"
  by (induction xs arbitrary: s) (auto split: Option.bind_splits)

text \<open>Total correctness of a loop: its invariant holds at every turn and no turn panics.\<close>

lemma foldM_total:
  assumes "\<And>x s. x \<in> set xs \<Longrightarrow> I s \<Longrightarrow> \<exists>s'. f x s = Some s' \<and> I s'" and "I s"
  shows "\<exists>s'. foldM f xs s = Some s' \<and> I s'"
  using assms
proof (induction xs arbitrary: s)
  case (Cons x xs)
  from Cons.prems obtain s1 where s1: "f x s = Some s1" "I s1" by fastforce
  then obtain s2 where "foldM f xs s1 = Some s2" "I s2"
    using Cons.IH [of s1] Cons.prems(1) by auto
  with s1 show ?case by simp
qed simp

text \<open>What each turn relates, the loop relates.\<close>

lemma foldM_rel:
  assumes "foldM f xs s = Some s'"
    and "\<And>x s s'. x \<in> set xs \<Longrightarrow> f x s = Some s' \<Longrightarrow> R s s'"
    and "\<And>s. R s s" and "\<And>s t u. R s t \<Longrightarrow> R t u \<Longrightarrow> R s u"
  shows "R s s'"
  using assms(1,2)
proof (induction xs arbitrary: s)
  case Nil
  then show ?case by (simp add: assms(3))
next
  case (Cons x xs)
  from Cons.prems(1) obtain s1 where s1: "f x s = Some s1" "foldM f xs s1 = Some s'"
    by (auto split: Option.bind_splits)
  have "R s s1" using Cons.prems(2) [OF _ s1(1)] by simp
  moreover have "R s1 s'"
    by (rule Cons.IH [OF s1(2)]) (rule Cons.prems(2), auto)
  ultimately show ?case by (rule assms(4))
qed

section \<open>The runtime's choices\<close>

definition draw :: "nat list \<Rightarrow> nat \<times> nat list" where
  "draw e = (case e of [] \<Rightarrow> (0, []) | n # e' \<Rightarrow> (n, e'))"

definition insert_at :: "nat \<Rightarrow> 'a \<Rightarrow> 'a list \<Rightarrow> 'a list" where
  "insert_at i x xs = take i xs @ x # drop i xs"

text \<open>The order in which \<open>range\<close> visits the keys of a map: any order, chosen by the runtime.\<close>

primrec any_order :: "'a list \<Rightarrow> nat list \<Rightarrow> 'a list \<times> nat list" where
  "any_order [] e = ([], e)"
| "any_order (x # xs) e =
     (let (ys, e1) = any_order xs e; (n, e2) = draw e1
      in (insert_at (n mod Suc (length ys)) x ys, e2))"

lemma mset_insert_at [simp]: "mset (insert_at i x xs) = add_mset x (mset xs)"
  by (metis add_mset_add_single append_take_drop_id insert_at_def mset.simps(2) mset_append
      union_mset_add_mset_right)

lemma mset_any_order: "mset (fst (any_order xs e)) = mset xs"
proof (induction xs arbitrary: e)
  case (Cons x xs)
  show ?case using Cons.IH [of e] by (simp add: Let_def case_prod_unfold)
qed simp

lemma set_any_order [simp]: "set (fst (any_order xs e)) = set xs"
  using mset_any_order [of xs e] by (metis set_mset_mset)

lemma length_any_order [simp]: "length (fst (any_order xs e)) = length xs"
  using mset_any_order [of xs e] by (metis size_mset)

lemma distinct_any_order [simp]: "distinct (fst (any_order xs e)) \<longleftrightarrow> distinct xs"
  using mset_any_order [of xs e] by (metis mset_eq_imp_distinct_iff)

text \<open>Every order is the choice of some run.\<close>

lemma any_order_complete:
  assumes "mset ys = mset xs"
  shows "\<exists>e. any_order xs (e @ rest) = (ys, rest)"
  using assms
proof (induction xs arbitrary: ys rest)
  case Nil
  then show ?case by (auto intro: exI [of _ "[]"])
next
  case (Cons x xs)
  then have "x \<in> set ys" by (metis list.set_intros(1) set_mset_mset)
  then obtain as bs where ys: "ys = as @ x # bs" by (meson split_list)
  with Cons.prems have "mset (as @ bs) = mset xs" by simp
  then obtain e where e: "any_order xs (e @ length as # rest) = (as @ bs, length as # rest)"
    using Cons.IH by blast
  have "any_order (x # xs) ((e @ [length as]) @ rest) = (ys, rest)"
    using e by (simp add: Let_def draw_def insert_at_def ys)
  then show ?case by blast
qed

section \<open>Channels\<close>

record 'a chan =
  ch_buf :: "'a list"
  ch_cap :: nat
  ch_closed :: bool

definition make_chan :: "nat \<Rightarrow> 'a chan" where
  "make_chan n = \<lparr>ch_buf = [], ch_cap = n, ch_closed = False\<rparr>"

text \<open>
  \<open>select { case ch <- x: ... default: ... }\<close>: a send on a closed channel panics, a full channel
  takes the default branch.
\<close>

datatype 'a sent = Sent "'a chan" | Full

definition chan_send :: "'a \<Rightarrow> 'a chan \<Rightarrow> 'a sent option" where
  "chan_send x c =
     (if ch_closed c then None
      else if length (ch_buf c) < ch_cap c then Some (Sent (c\<lparr>ch_buf := ch_buf c @ [x]\<rparr>))
      else Some Full)"

definition chan_close :: "'a chan \<Rightarrow> 'a chan option" where
  "chan_close c = (if ch_closed c then None else Some (c\<lparr>ch_closed := True\<rparr>))"

definition chan_room :: "'a chan \<Rightarrow> bool" where
  "chan_room c \<longleftrightarrow> length (ch_buf c) < ch_cap c"

definition chan_ok :: "'a chan \<Rightarrow> bool" where
  "chan_ok c \<longleftrightarrow> \<not> ch_closed c \<and> length (ch_buf c) \<le> ch_cap c"

lemma chan_send_open:
  "\<not> ch_closed c \<Longrightarrow>
     chan_send x c = Some (if chan_room c then Sent (c\<lparr>ch_buf := ch_buf c @ [x]\<rparr>) else Full)"
  by (simp add: chan_send_def chan_room_def)

lemma chan_send_Sent: "chan_send x c = Some (Sent c') \<Longrightarrow> c' = c\<lparr>ch_buf := ch_buf c @ [x]\<rparr>"
  by (auto simp: chan_send_def split: if_splits)

lemma chan_ok_send: "chan_ok c \<Longrightarrow> chan_send x c = Some (Sent c') \<Longrightarrow> chan_ok c'"
  by (auto simp: chan_send_def chan_ok_def split: if_splits)

lemma chan_ok_make [simp]: "chan_ok (make_chan n)"
  by (simp add: chan_ok_def make_chan_def)

end
