(* ===== verification/Wire.thy ===== *)
theory Wire
  imports Prelude
begin

text \<open>
  The messages of \<open>pb/rpc.proto\<close> as the generated Go structs of \<open>pb/rpc.pb.go\<close> declare them, their
  getters, and the constructors of \<open>comm.go\<close> and \<open>pubsub.go\<close> that build them.

  A pointer field (\<open>*string\<close>, \<open>*bool\<close>, \<open>*ControlMessage\<close>) and a \<open>[]byte\<close> field, which the code
  compares with \<open>nil\<close>, are options; a slice of messages or strings is a list, where the nil slice and
  the empty one are the same. \<open>XXX_unrecognized\<close> is the list of its bytes; \<open>XXX_NoUnkeyedLiteral\<close> and
  \<open>XXX_sizecache\<close> hold no data. The elements of a slice of pointers are never nil: they are built by
  \<open>&T{...}\<close> in every place that appends one.
\<close>

section \<open>Message types\<close>

record pb_SubOpts =
  so_Subscribe :: "bool option"
  so_Topicid :: "gostring option"
  so_unrec :: gostring

record pb_Message =
  m_From :: "gostring option"
  m_Data :: "gostring option"
  m_Seqno :: "gostring option"
  m_TopicIDs :: "gostring list"
  m_Signature :: "gostring option"
  m_Key :: "gostring option"
  m_unrec :: gostring

record pb_IHave =
  ih_TopicID :: "gostring option"
  ih_MessageIDs :: "gostring list"
  ih_unrec :: gostring

record pb_IWant =
  iw_MessageIDs :: "gostring list"
  iw_unrec :: gostring

record pb_Graft =
  gr_TopicID :: "gostring option"
  gr_unrec :: gostring

record pb_Prune =
  pr_TopicID :: "gostring option"
  pr_unrec :: gostring

record pb_Control =
  c_Ihave :: "pb_IHave list"
  c_Iwant :: "pb_IWant list"
  c_Graft :: "pb_Graft list"
  c_Prune :: "pb_Prune list"
  c_unrec :: gostring

record pb_RPC =
  r_Subscriptions :: "pb_SubOpts list"
  r_Publish :: "pb_Message list"
  r_Control :: "pb_Control option"
  r_unrec :: gostring

text \<open>The \<open>RPC\<close> of \<open>pubsub.go\<close> embeds the wire message and adds who sent it.\<close>

record RPC = pb_RPC +
  r_from :: peer

section \<open>Getters\<close>

definition bytes_of :: "gostring option \<Rightarrow> gostring" where
  "bytes_of b = (case b of None \<Rightarrow> [] | Some bs \<Rightarrow> bs)"

definition GetSubscribe :: "pb_SubOpts \<Rightarrow> bool" where
  "GetSubscribe m = (case so_Subscribe m of None \<Rightarrow> False | Some b \<Rightarrow> b)"

definition GetTopicid :: "pb_SubOpts \<Rightarrow> gostring" where
  "GetTopicid m = (case so_Topicid m of None \<Rightarrow> [] | Some t \<Rightarrow> t)"

text \<open>\<open>peer.ID(m.GetFrom())\<close> and \<open>string(m.GetSeqno())\<close>: a nil slice is the empty string.\<close>

definition GetFrom :: "pb_Message \<Rightarrow> peer" where
  "GetFrom m = bytes_of (m_From m)"

definition GetSeqno :: "pb_Message \<Rightarrow> gostring" where
  "GetSeqno m = bytes_of (m_Seqno m)"

definition IHave_GetTopicID :: "pb_IHave \<Rightarrow> gostring" where
  "IHave_GetTopicID m = (case ih_TopicID m of None \<Rightarrow> [] | Some t \<Rightarrow> t)"

definition Graft_GetTopicID :: "pb_Graft \<Rightarrow> gostring" where
  "Graft_GetTopicID m = (case gr_TopicID m of None \<Rightarrow> [] | Some t \<Rightarrow> t)"

definition Prune_GetTopicID :: "pb_Prune \<Rightarrow> gostring" where
  "Prune_GetTopicID m = (case pr_TopicID m of None \<Rightarrow> [] | Some t \<Rightarrow> t)"

section \<open>Constructors\<close>

definition mkSubOpts :: "gostring \<Rightarrow> bool \<Rightarrow> pb_SubOpts" where
  "mkSubOpts t b = \<lparr>so_Subscribe = Some b, so_Topicid = Some t, so_unrec = []\<rparr>"

definition mkIHave :: "gostring \<Rightarrow> gostring list \<Rightarrow> pb_IHave" where
  "mkIHave t mids = \<lparr>ih_TopicID = Some t, ih_MessageIDs = mids, ih_unrec = []\<rparr>"

definition mkIWant :: "gostring list \<Rightarrow> pb_IWant" where
  "mkIWant mids = \<lparr>iw_MessageIDs = mids, iw_unrec = []\<rparr>"

definition mkGraft :: "gostring \<Rightarrow> pb_Graft" where
  "mkGraft t = \<lparr>gr_TopicID = Some t, gr_unrec = []\<rparr>"

definition mkPrune :: "gostring \<Rightarrow> pb_Prune" where
  "mkPrune t = \<lparr>pr_TopicID = Some t, pr_unrec = []\<rparr>"

definition emptyControl :: pb_Control where
  "emptyControl = \<lparr>c_Ihave = [], c_Iwant = [], c_Graft = [], c_Prune = [], c_unrec = []\<rparr>"

text \<open>A locally built RPC leaves the unexported \<open>from\<close> field at its zero value.\<close>

definition rpcWithSubs :: "pb_SubOpts list \<Rightarrow> RPC" where
  "rpcWithSubs subs =
     \<lparr>r_Subscriptions = subs, r_Publish = [], r_Control = None, r_unrec = [], r_from = []\<rparr>"

definition rpcWithMessages :: "pb_Message list \<Rightarrow> RPC" where
  "rpcWithMessages msgs =
     \<lparr>r_Subscriptions = [], r_Publish = msgs, r_Control = None, r_unrec = [], r_from = []\<rparr>"

definition rpcWithControl ::
  "pb_Message list \<Rightarrow> pb_IHave list \<Rightarrow> pb_IWant list \<Rightarrow> pb_Graft list \<Rightarrow> pb_Prune list \<Rightarrow> RPC" where
  "rpcWithControl msgs ihave iwant graft prune =
     \<lparr>r_Subscriptions = [], r_Publish = msgs,
      r_Control = Some \<lparr>c_Ihave = ihave, c_Iwant = iwant, c_Graft = graft, c_Prune = prune,
                        c_unrec = []\<rparr>,
      r_unrec = [], r_from = []\<rparr>"

text \<open>
  \<open>copyRPC\<close> copies the struct and the control message it points to, so that the caller may write to
  the copy without changing what other queues hold. On values a copy is the value itself.
\<close>

definition copyRPC :: "RPC \<Rightarrow> RPC" where
  "copyRPC rpc =
     \<lparr>r_Subscriptions = r_Subscriptions rpc, r_Publish = r_Publish rpc,
      r_Control = (case r_Control rpc of None \<Rightarrow> None | Some c \<Rightarrow> Some c),
      r_unrec = r_unrec rpc, r_from = r_from rpc\<rparr>"

lemma copyRPC_id [simp]: "copyRPC rpc = rpc"
  by (cases rpc) (simp add: copyRPC_def split: option.splits)

section \<open>Message identifiers and sequence numbers\<close>

definition msgID :: "pb_Message \<Rightarrow> gostring" where
  "msgID m = GetFrom m @ GetSeqno m"

text \<open>\<open>binary.BigEndian.PutUint64\<close> into a fresh slice of eight bytes.\<close>

definition PutUint64 :: "64 word \<Rightarrow> gostring" where
  "PutUint64 v = map (\<lambda>i. ucast (drop_bit (8 * i) v)) (rev [0..<8])"

lemma length_PutUint64 [simp]: "length (PutUint64 v) = 8"
  by (simp add: PutUint64_def)

lemma PutUint64_byte:
  "i < 8 \<Longrightarrow> PutUint64 v ! i = ucast (drop_bit (8 * (7 - i)) v)"
  by (simp add: PutUint64_def rev_nth)

lemma PutUint64_inj: "PutUint64 v = PutUint64 w \<longleftrightarrow> v = w"
proof
  assume eq: "PutUint64 v = PutUint64 w"
  show "v = w"
  proof (rule bit_word_eqI)
    fix n assume "n < LENGTH(64)"
    then have n: "n div 8 < 8" and split: "8 * (n div 8) + n mod 8 = n" by simp_all
    have "PutUint64 u ! (7 - n div 8) = ucast (drop_bit (8 * (n div 8)) u)" for u
      using n by (simp add: PutUint64_byte)
    with eq have "(ucast (drop_bit (8 * (n div 8)) v) :: byte) = ucast (drop_bit (8 * (n div 8)) w)"
      by metis
    then have "bit (ucast (drop_bit (8 * (n div 8)) v) :: byte) (n mod 8)
             = bit (ucast (drop_bit (8 * (n div 8)) w) :: byte) (n mod 8)"
      by simp
    then show "bit v n = bit w n"
      by (simp add: bit_ucast_iff bit_drop_bit_eq split)
  qed
qed simp

text \<open>
  With sequence numbers of one width (the ones \<open>nextSeqno\<close> makes), the identifier determines both the
  author and the sequence number.
\<close>

lemma msgID_eq_iff:
  assumes "length (GetSeqno m) = length (GetSeqno m')"
  shows "msgID m = msgID m' \<longleftrightarrow> GetFrom m = GetFrom m' \<and> GetSeqno m = GetSeqno m'"
  using assms by (auto simp: msgID_def)

section \<open>Properties\<close>

text \<open>
  Among messages whose sequence numbers have the same length, \<open>msgID\<close> determines the author and the
  sequence number; every \<open>nextSeqno\<close> has eight bytes, so a node never gives two of its messages the same
  identifier before the counter wraps around.
\<close>

lemma msgID_identifies:
  assumes "length (GetSeqno m) = length (GetSeqno m')"
  shows "msgID m = msgID m' \<longleftrightarrow> GetFrom m = GetFrom m' \<and> GetSeqno m = GetSeqno m'"
  by (rule msgID_eq_iff [OF assms])

definition text_msg :: "peer \<Rightarrow> gostring \<Rightarrow> topic list \<Rightarrow> pb_Message" where
  "text_msg frm seqno ts =
     \<lparr>m_From = Some frm, m_Data = Some (str ''hello''), m_Seqno = Some seqno, m_TopicIDs = ts,
      m_Signature = None, m_Key = None, m_unrec = []\<rparr>"

lemma text_msg_sel [simp]:
  "m_From (text_msg frm seqno ts) = Some frm" "m_TopicIDs (text_msg frm seqno ts) = ts"
  "m_Signature (text_msg frm seqno ts) = None" "GetFrom (text_msg frm seqno ts) = frm"
  "GetSeqno (text_msg frm seqno ts) = seqno" "msgID (text_msg frm seqno ts) = frm @ seqno"
  by (simp_all add: text_msg_def GetFrom_def GetSeqno_def bytes_of_def msgID_def)

text \<open>
  The identifier \<open>msgID\<close> returns is not unique: it is the concatenation of author and sequence
  number, so two messages of different authors may have the same identifier.
\<close>

lemma msgID_collides: "\<exists>m m'. msgID m = msgID m' \<and> GetFrom m \<noteq> GetFrom m' \<and> GetSeqno m \<noteq> GetSeqno m'"
proof -
  have "msgID (text_msg [1] [2, 3] []) = msgID (text_msg [1, 2] [3] [])" by simp
  then show ?thesis by (intro exI [of _ "text_msg [1] [2, 3] []"] exI [of _ "text_msg [1, 2] [3] []"]) simp
qed

end
