(* ===== verification/Subscription.thy ===== *)
theory Subscription
  imports Wire
begin

text \<open>
  \<open>subscription.go\<close>: the object behind \<open>Subscribe\<close>. Messages reach its user through a channel of
  capacity 32, membership changes of the topic through an event log that holds at most one pending
  event per peer. \<open>evtLogCh\<close> is a channel of \<open>struct{}\<close> with capacity 1 that is never closed: its
  state is whether it holds its token.
\<close>

section \<open>Data\<close>

datatype EventType = PeerJoin | PeerLeave

record PeerEvent =
  ev_Type :: EventType
  ev_Peer :: peer

record Subscription =
  s_topic :: topic
  s_ch :: "pb_Message chan"
  s_cancelled :: bool
  s_evtLog :: "(peer, EventType) alist"
  s_evtLogCh :: bool

definition newSubscription :: "topic \<Rightarrow> Subscription" where
  "newSubscription t =
     \<lparr>s_topic = t, s_ch = make_chan 32, s_cancelled = False, s_evtLog = mempty, s_evtLogCh = False\<rparr>"

section \<open>Operations\<close>

text \<open>\<open>select { case sub.evtLogCh <- struct{}{}: default: }\<close>: afterwards the token is there.\<close>

definition signal :: "Subscription \<Rightarrow> Subscription" where
  "signal sub = sub\<lparr>s_evtLogCh := True\<rparr>"

definition addToEventLog :: "PeerEvent \<Rightarrow> Subscription \<Rightarrow> Subscription" where
  "addToEventLog evt sub =
     (case mget (s_evtLog sub) (ev_Peer evt) of
        None \<Rightarrow> signal (sub\<lparr>s_evtLog := mput (ev_Peer evt) (ev_Type evt) (s_evtLog sub)\<rparr>)
      | Some e \<Rightarrow>
          if e \<noteq> ev_Type evt then sub\<lparr>s_evtLog := mdel (ev_Peer evt) (s_evtLog sub)\<rparr> else sub)"

text \<open>The mutex only makes the call atomic.\<close>

definition sendNotification :: "PeerEvent \<Rightarrow> Subscription \<Rightarrow> Subscription" where
  "sendNotification evt sub = addToEventLog evt sub"

text \<open>The first key \<open>range\<close> produces is removed and returned.\<close>

definition pullFromEventLog ::
  "Subscription \<Rightarrow> nat list \<Rightarrow> PeerEvent option \<times> Subscription \<times> nat list" where
  "pullFromEventLog sub e =
     (case any_order (mkeys (s_evtLog sub)) e of
        ([], e') \<Rightarrow> (None, sub, e')
      | (k # ks, e') \<Rightarrow>
          (case mget (s_evtLog sub) k of
             None \<Rightarrow> (None, sub, e')
           | Some v \<Rightarrow> (Some \<lparr>ev_Type = v, ev_Peer = k\<rparr>,
                        sub\<lparr>s_evtLog := mdel k (s_evtLog sub)\<rparr>, e')))"

text \<open>
  \<open>NextPeerEvent\<close>, up to the point where it would block: it pulls; if there was nothing, it takes
  the token and tries again; with no token it blocks, the result \<open>None\<close>.
\<close>

function NextPeerEvent :: "Subscription \<Rightarrow> nat list \<Rightarrow> PeerEvent option \<times> Subscription \<times> nat list" where
  "NextPeerEvent sub e =
     (case pullFromEventLog sub e of
        (Some evt, sub', e') \<Rightarrow>
          (Some evt, if mlen (s_evtLog sub') > 0 then signal sub' else sub', e')
      | (None, sub', e') \<Rightarrow>
          if s_evtLogCh sub then NextPeerEvent (sub\<lparr>s_evtLogCh := False\<rparr>) e' else (None, sub, e'))"
  by pat_completeness auto
termination
  by (relation "measure (\<lambda>(sub, e). if s_evtLogCh sub then 1 else 0)") auto

declare NextPeerEvent.simps [simp del]

text \<open>
  \<open>Next\<close>: a buffered message, or the cancellation error once the channel is closed and drained;
  \<open>None\<close> when it would block.
\<close>

datatype next_result = NextMsg pb_Message | NextCancelled

definition Next :: "Subscription \<Rightarrow> (next_result \<times> Subscription) option" where
  "Next sub =
     (case ch_buf (s_ch sub) of
        m # ms \<Rightarrow> Some (NextMsg m, sub\<lparr>s_ch := (s_ch sub)\<lparr>ch_buf := ms\<rparr>\<rparr>)
      | [] \<Rightarrow> if ch_closed (s_ch sub) then Some (NextCancelled, sub) else None)"

text \<open>\<open>sub.close()\<close>: closing a channel twice panics.\<close>

definition close_sub :: "Subscription \<Rightarrow> Subscription option" where
  "close_sub sub = map_option (\<lambda>c. sub\<lparr>s_ch := c\<rparr>) (chan_close (s_ch sub))"

section \<open>What the event log computes\<close>

lemma pull_empty [simp]:
  "mdom (s_evtLog sub) = {} \<Longrightarrow> fst (pullFromEventLog sub e) = None"
  by (cases "any_order (mkeys (s_evtLog sub)) e"; cases "mkeys (s_evtLog sub)")
    (auto simp: pullFromEventLog_def simp flip: set_mkeys)

lemma pull_None:
  assumes "pullFromEventLog sub e = (None, sub', e')"
  shows "mdom (s_evtLog sub) = {} \<and> sub' = sub"
proof -
  obtain ks e1 where o: "any_order (mkeys (s_evtLog sub)) e = (ks, e1)" by force
  then have ks: "set ks = mdom (s_evtLog sub)" using set_any_order [of "mkeys (s_evtLog sub)" e] by simp
  show ?thesis
  proof (cases ks)
    case Nil
    with assms o ks show ?thesis by (simp add: pullFromEventLog_def)
  next
    case (Cons k ks')
    then have "k \<in> mdom (s_evtLog sub)" using ks by auto
    then show ?thesis using assms o Cons by (auto simp: pullFromEventLog_def mem_mdom)
  qed
qed

lemma pull_Some:
  assumes "pullFromEventLog sub e = (Some evt, sub', e')"
  shows "mget (s_evtLog sub) (ev_Peer evt) = Some (ev_Type evt) \<and>
         sub' = sub\<lparr>s_evtLog := mdel (ev_Peer evt) (s_evtLog sub)\<rparr>"
  using assms by (auto simp: pullFromEventLog_def split: prod.splits list.splits option.splits)

lemma pull_total:
  assumes "mdom (s_evtLog sub) \<noteq> {}"
  shows "\<exists>evt sub' e'. pullFromEventLog sub e = (Some evt, sub', e')"
proof -
  obtain r sub' e' where "pullFromEventLog sub e = (r, sub', e')" by (metis prod_cases3)
  with pull_None [of sub e] assms show ?thesis by (cases r) auto
qed

text \<open>
  A pending event is delivered at once, whatever the token; the token is left for the next one.
\<close>

lemma NextPeerEvent_pending:
  assumes "mdom (s_evtLog sub) \<noteq> {}" "NextPeerEvent sub e = (r, sub', e')"
  shows "\<exists>evt. r = Some evt \<and> mget (s_evtLog sub) (ev_Peer evt) = Some (ev_Type evt) \<and>
           s_evtLog sub' = mdel (ev_Peer evt) (s_evtLog sub) \<and>
           (mdom (s_evtLog sub') \<noteq> {} \<longrightarrow> s_evtLogCh sub')"
proof -
  obtain evt sub1 e1 where p: "pullFromEventLog sub e = (Some evt, sub1, e1)"
    using pull_total [OF assms(1)] by blast
  then have "r = Some evt" "sub' = (if mlen (s_evtLog sub1) > 0 then signal sub1 else sub1)"
    using assms(2) by (auto simp: NextPeerEvent.simps [of sub e])
  with pull_Some [OF p] show ?thesis by (auto simp: signal_def simp flip: mlen_0_iff)
qed

lemma NextPeerEvent_blocks:
  assumes "mdom (s_evtLog sub) = {}"
  shows "fst (NextPeerEvent sub e) = None \<and>
         fst (snd (NextPeerEvent sub e)) = sub\<lparr>s_evtLogCh := False\<rparr>"
  using assms
proof (induction sub e rule: NextPeerEvent.induct)
  case (1 sub e)
  obtain r sub1 e1 where "pullFromEventLog sub e = (r, sub1, e1)" by (metis prod_cases3)
  with "1.prems" have p: "pullFromEventLog sub e = (None, sub1, e1)"
    using pull_empty [of sub e] by simp
  show ?case
    using "1.IH" [OF p [symmetric] refl refl] "1.prems" p
    by (cases "s_evtLogCh sub") (simp_all add: NextPeerEvent.simps [of sub e])
qed

lemma Next_fifo:
  "ch_buf (s_ch sub) = m # ms \<Longrightarrow>
     Next sub = Some (NextMsg m, sub\<lparr>s_ch := (s_ch sub)\<lparr>ch_buf := ms\<rparr>\<rparr>)"
  by (simp add: Next_def)

section \<open>The event log as a state machine\<close>

text \<open>
  The log between the pubsub loop, which reports every change of a topic's membership, and the users
  of \<open>NextPeerEvent\<close>. Beside the subscription the state holds the topic's members, the members the
  users have been told about, what was delivered, and how many users are blocked. A blocked user
  wakes up by taking the token.
\<close>

record evsys =
  es_sub :: Subscription
  es_members :: "peer set"
  es_told :: "peer set"
  es_out :: "PeerEvent list"
  es_blocked :: nat

fun tell :: "PeerEvent \<Rightarrow> peer set \<Rightarrow> peer set" where
  "tell evt ps = (case ev_Type evt of PeerJoin \<Rightarrow> insert (ev_Peer evt) ps
                                    | PeerLeave \<Rightarrow> ps - {ev_Peer evt})"

definition es_init :: "topic \<Rightarrow> peer list \<Rightarrow> evsys" where
  "es_init t ps =
     \<lparr>es_sub = (newSubscription t)\<lparr>s_evtLog := fold (\<lambda>p. mput p PeerJoin) ps mempty\<rparr>,
      es_members = set ps, es_told = {}, es_out = [], es_blocked = 0\<rparr>"

inductive ev_step :: "evsys \<Rightarrow> evsys \<Rightarrow> bool" where
  joins: "p \<notin> es_members s \<Longrightarrow>
     ev_step s (s\<lparr>es_sub := sendNotification \<lparr>ev_Type = PeerJoin, ev_Peer = p\<rparr> (es_sub s),
                  es_members := insert p (es_members s)\<rparr>)"
| leaves: "p \<in> es_members s \<Longrightarrow>
     ev_step s (s\<lparr>es_sub := sendNotification \<lparr>ev_Type = PeerLeave, ev_Peer = p\<rparr> (es_sub s),
                  es_members := es_members s - {p}\<rparr>)"
| delivers: "NextPeerEvent (es_sub s) e = (Some evt, sub', e') \<Longrightarrow>
     ev_step s (s\<lparr>es_sub := sub', es_told := tell evt (es_told s), es_out := es_out s @ [evt]\<rparr>)"
| blocks: "NextPeerEvent (es_sub s) e = (None, sub', e') \<Longrightarrow>
     ev_step s (s\<lparr>es_sub := sub', es_blocked := Suc (es_blocked s)\<rparr>)"
| wakes: "s_evtLogCh (es_sub s) \<Longrightarrow> es_blocked s = Suc n \<Longrightarrow>
     NextPeerEvent ((es_sub s)\<lparr>s_evtLogCh := False\<rparr>) e = (Some evt, sub', e') \<Longrightarrow>
     ev_step s (s\<lparr>es_sub := sub', es_told := tell evt (es_told s), es_out := es_out s @ [evt],
                  es_blocked := n\<rparr>)"
| wakes_in_vain: "s_evtLogCh (es_sub s) \<Longrightarrow> es_blocked s = Suc n \<Longrightarrow>
     NextPeerEvent ((es_sub s)\<lparr>s_evtLogCh := False\<rparr>) e = (None, sub', e') \<Longrightarrow>
     ev_step s (s\<lparr>es_sub := sub'\<rparr>)"

inductive ev_reach :: "topic \<Rightarrow> peer list \<Rightarrow> evsys \<Rightarrow> bool" for t ps where
  start: "ev_reach t ps (es_init t ps)"
| more: "ev_reach t ps s \<Longrightarrow> ev_step s s' \<Longrightarrow> ev_reach t ps s'"

text \<open>What the log has to hold about a peer: the difference between the truth and what was told.\<close>

definition pending :: "peer set \<Rightarrow> peer set \<Rightarrow> peer \<Rightarrow> EventType option" where
  "pending members told p =
     (if p \<in> members \<and> p \<notin> told then Some PeerJoin
      else if p \<notin> members \<and> p \<in> told then Some PeerLeave else None)"

text \<open>A delivered sequence is in order when each event changes what its peer's user knows.\<close>

fun in_order :: "peer set \<Rightarrow> PeerEvent list \<Rightarrow> bool" where
  "in_order told [] = True"
| "in_order told (evt # evts) =
     ((ev_Type evt = PeerJoin \<longleftrightarrow> ev_Peer evt \<notin> told) \<and> in_order (tell evt told) evts)"

definition es_inv :: "evsys \<Rightarrow> bool" where
  "es_inv s \<longleftrightarrow>
     (\<forall>p. mget (s_evtLog (es_sub s)) p = pending (es_members s) (es_told s) p) \<and>
     (es_blocked s > 0 \<and> mdom (s_evtLog (es_sub s)) \<noteq> {} \<longrightarrow> s_evtLogCh (es_sub s)) \<and>
     in_order {} (es_out s) \<and> es_told s = fold tell (es_out s) {}"

lemma in_order_snoc:
  "in_order told (evts @ [evt]) \<longleftrightarrow> in_order told evts \<and>
     (ev_Type evt = PeerJoin \<longleftrightarrow> ev_Peer evt \<notin> fold tell evts told)"
  by (induction evts arbitrary: told) auto

lemma pending_tell:
  assumes "pending M T (ev_Peer evt) = Some (ev_Type evt)"
  shows "pending M (tell evt T) p = (if p = ev_Peer evt then None else pending M T p)"
    and "ev_Type evt = PeerJoin \<longleftrightarrow> ev_Peer evt \<notin> T"
  using assms by (auto simp: pending_def split: if_splits)

lemma es_inv_notify:
  assumes "es_inv s"
    and "\<And>q. pending M (es_told s) q =
      (if q = ev_Peer evt then (if pending (es_members s) (es_told s) q = None then Some (ev_Type evt) else None)
       else pending (es_members s) (es_told s) q)"
    and "pending (es_members s) (es_told s) (ev_Peer evt) \<noteq> Some (ev_Type evt)"
  shows "es_inv (s\<lparr>es_sub := sendNotification evt (es_sub s), es_members := M\<rparr>)"
  using assms unfolding es_inv_def sendNotification_def addToEventLog_def signal_def
  by (auto simp: lookup_update split: option.splits)

lemma es_inv_deliver:
  assumes "es_inv s" "NextPeerEvent sub e = (Some evt, sub', e')"
    and "s_evtLog sub = s_evtLog (es_sub s)" "n \<le> es_blocked s"
  shows "es_inv (s\<lparr>es_sub := sub', es_told := tell evt (es_told s), es_out := es_out s @ [evt],
                   es_blocked := n\<rparr>)"
proof -
  have "mdom (s_evtLog sub) \<noteq> {}"
    using assms(2) NextPeerEvent_blocks [of sub e] by auto
  from NextPeerEvent_pending [OF this assms(2)] assms(1,3)
  have p: "pending (es_members s) (es_told s) (ev_Peer evt) = Some (ev_Type evt)"
    and log: "s_evtLog sub' = mdel (ev_Peer evt) (s_evtLog (es_sub s))"
    and tok: "mdom (s_evtLog sub') \<noteq> {} \<longrightarrow> s_evtLogCh sub'"
    by (auto simp: es_inv_def)
  show ?thesis
    using assms(1) pending_tell [OF p] log tok
    by (auto simp: es_inv_def in_order_snoc simp del: tell.simps)
qed

lemma es_inv_block:
  assumes "es_inv s" "NextPeerEvent sub e = (None, sub', e')" "s_evtLog sub = s_evtLog (es_sub s)"
  shows "es_inv (s\<lparr>es_sub := sub', es_blocked := n\<rparr>)"
proof -
  have "mdom (s_evtLog sub) = {}"
    using assms(2) NextPeerEvent_pending [of sub e] by blast
  then have "sub' = sub\<lparr>s_evtLogCh := False\<rparr>" using NextPeerEvent_blocks [of sub e] assms(2) by simp
  with assms(1,3) \<open>mdom (s_evtLog sub) = {}\<close> show ?thesis by (auto simp: es_inv_def)
qed

lemma es_inv_init: "es_inv (es_init t ps)"
proof -
  have "mget (fold (\<lambda>p. mput p PeerJoin) ps m) q = (if q \<in> set ps then Some PeerJoin else mget m q)" for q m
    by (induction ps arbitrary: m) (auto simp: lookup_update)
  then show ?thesis by (simp add: es_inv_def es_init_def pending_def)
qed

lemma es_inv_step:
  assumes "ev_step s s'" "es_inv s" shows "es_inv s'"
  using assms
proof (induction rule: ev_step.induct)
  case (joins p s)
  then show ?case by (intro es_inv_notify) (auto simp: pending_def)
next
  case (leaves p s)
  then show ?case by (intro es_inv_notify) (auto simp: pending_def)
next
  case (delivers s e evt sub' e')
  then show ?case using es_inv_deliver [of s "es_sub s" e evt sub' e' "es_blocked s"] by simp
next
  case (blocks s e sub' e')
  then show ?case by (intro es_inv_block [of s "es_sub s"]) auto
next
  case (wakes s n e evt sub' e')
  then show ?case
    using es_inv_deliver [of s "(es_sub s)\<lparr>s_evtLogCh := False\<rparr>" e evt sub' e' n] by simp
next
  case (wakes_in_vain s n e sub' e')
  have "es_inv (s\<lparr>es_sub := sub', es_blocked := es_blocked s\<rparr>)"
    by (rule es_inv_block [OF wakes_in_vain(4,3)]) simp
  then show ?case by (cases s) simp
qed

lemma es_inv_reach: "ev_reach t ps s \<Longrightarrow> es_inv s"
  by (induction rule: ev_reach.induct) (auto intro: es_inv_init es_inv_step)

section \<open>Properties\<close>

text \<open>
  C19: in every state of the event log, the events delivered for a peer alternate starting with a join;
  the log holds exactly the difference between the topic's members and what was delivered, so nothing is
  lost or reported twice, and when the log is empty the users know exactly the members.
\<close>

theorem event_log_in_order:
  assumes "ev_reach t ps s"
  shows "in_order {} (es_out s) \<and> es_told s = fold tell (es_out s) {} \<and>
    (\<forall>p. mget (s_evtLog (es_sub s)) p = pending (es_members s) (es_told s) p) \<and>
    (mdom (s_evtLog (es_sub s)) = {} \<longrightarrow> es_told s = es_members s)"
proof -
  have inv: "es_inv s" by (rule es_inv_reach [OF assms])
  then have log: "mget (s_evtLog (es_sub s)) p = pending (es_members s) (es_told s) p" for p
    by (simp add: es_inv_def)
  have "es_told s = es_members s" if "mdom (s_evtLog (es_sub s)) = {}"
  proof -
    have "mget (s_evtLog (es_sub s)) p = None" for p using that mem_mdom [of p "s_evtLog (es_sub s)"] by simp
    then have none: "pending (es_members s) (es_told s) p = None" for p using log [of p] by simp
    have "p \<in> es_told s \<longleftrightarrow> p \<in> es_members s" for p
      using none [of p] by (auto simp: pending_def split: if_splits)
    then show ?thesis by blast
  qed
  with inv log show ?thesis by (simp add: es_inv_def)
qed

lemma ev_reach_sample:
  "\<exists>s. ev_reach [65] [] s \<and> es_out s = [] \<and> es_blocked s = 1 \<and>
     mget (s_evtLog (es_sub s)) = [[7] \<mapsto> PeerJoin] \<and> es_members s = {[7]}"
proof -
  let ?s0 = "es_init [65] []"
  have "mdom (s_evtLog (es_sub ?s0)) = {}" by (simp add: es_init_def)
  then obtain sub' e' where n: "NextPeerEvent (es_sub ?s0) [] = (None, sub', e')"
    and sub': "sub' = (es_sub ?s0)\<lparr>s_evtLogCh := False\<rparr>"
    using NextPeerEvent_blocks [of "es_sub ?s0" "[]"] by (cases "NextPeerEvent (es_sub ?s0) []") auto
  let ?s1 = "?s0\<lparr>es_sub := sub', es_blocked := Suc (es_blocked ?s0)\<rparr>"
  have 1: "ev_reach [65] [] ?s1" by (rule ev_reach.more [OF ev_reach.start ev_step.blocks [OF n]])
  have "[7] \<notin> es_members ?s1" by (simp add: es_init_def)
  note 2 = ev_reach.more [OF 1 ev_step.joins [OF this]]
  show ?thesis
    by (rule exI, rule conjI [OF 2])
      (simp add: sub' es_init_def newSubscription_def sendNotification_def addToEventLog_def signal_def
        lookup_update fun_eq_iff)
qed

theorem event_log_in_order_witness: "\<exists>s. ev_reach [65] [] s \<and> es_blocked s = 1 \<and> in_order {} (es_out s)"
  using ev_reach_sample event_log_in_order by blast

text \<open>
  No wake-up is lost: while a user is blocked in \<open>NextPeerEvent\<close> and the log holds an event, the
  token is in the channel, and the user who takes it gets an event at once.
\<close>

lemma event_log_wakes:
  assumes "ev_reach t ps s" "es_blocked s > 0" "mdom (s_evtLog (es_sub s)) \<noteq> {}"
  shows "s_evtLogCh (es_sub s) \<and>
    (\<exists>evt sub' e'. NextPeerEvent ((es_sub s)\<lparr>s_evtLogCh := False\<rparr>) e = (Some evt, sub', e') \<and>
       mget (s_evtLog (es_sub s)) (ev_Peer evt) = Some (ev_Type evt))"
proof -
  obtain r sub' e' where n: "NextPeerEvent ((es_sub s)\<lparr>s_evtLogCh := False\<rparr>) e = (r, sub', e')" by (metis prod_cases3)
  have "mdom (s_evtLog ((es_sub s)\<lparr>s_evtLogCh := False\<rparr>)) \<noteq> {}" using assms(3) by simp
  from NextPeerEvent_pending [OF this n] n show ?thesis
    using es_inv_reach [OF assms(1)] assms(2,3) by (auto simp: es_inv_def)
qed

end
