(* ===== verification/Blacklist.thy ===== *)
theory Blacklist
  imports Prelude
begin

text \<open>
  \<open>blacklist.go\<close>: the interface \<open>Blacklist\<close> as a record of its two methods, the map implementation,
  and the LRU implementation over the methods of \<open>golang-lru\<close>, which is not part of the repository
  and therefore a parameter.
\<close>

record 'b blacklist_methods =
  bl_Add :: "peer \<Rightarrow> 'b \<Rightarrow> 'b"
  bl_Contains :: "'b \<Rightarrow> peer \<Rightarrow> bool"

text \<open>\<open>type MapBlacklist map[peer.ID]struct{}\<close>\<close>

type_synonym MapBlacklist = "(peer, unit) alist"

definition NewMapBlacklist :: MapBlacklist where
  "NewMapBlacklist = mempty"

definition MapBlacklist_Add :: "peer \<Rightarrow> MapBlacklist \<Rightarrow> MapBlacklist" where
  "MapBlacklist_Add p b = mput p () b"

definition MapBlacklist_Contains :: "MapBlacklist \<Rightarrow> peer \<Rightarrow> bool" where
  "MapBlacklist_Contains b p = mhas b p"

definition map_blacklist :: "MapBlacklist blacklist_methods" where
  "map_blacklist = \<lparr>bl_Add = MapBlacklist_Add, bl_Contains = MapBlacklist_Contains\<rparr>"

text \<open>\<open>LRUBlacklist\<close>: the third-party cache stores a nil value under the peer's key.\<close>

definition LRUBlacklist_Add ::
  "(peer \<Rightarrow> 'v option \<Rightarrow> 'c \<Rightarrow> 'c) \<Rightarrow> peer \<Rightarrow> 'c \<Rightarrow> 'c" where
  "LRUBlacklist_Add lru_Add p c = lru_Add p None c"

definition LRUBlacklist_Contains :: "('c \<Rightarrow> peer \<Rightarrow> bool) \<Rightarrow> 'c \<Rightarrow> peer \<Rightarrow> bool" where
  "LRUBlacklist_Contains lru_Contains c p = lru_Contains c p"

definition NewLRUBlacklist :: "(int \<Rightarrow> 'e + 'c) \<Rightarrow> int \<Rightarrow> 'e + 'c" where
  "NewLRUBlacklist lru_New cap = (case lru_New cap of Inl err \<Rightarrow> Inl err | Inr c \<Rightarrow> Inr c)"

text \<open>
  The contract the pubsub loop relies on: a peer that was added is contained, and adding a peer makes
  no other peer contained. A bounded blacklist may forget others.
\<close>

locale blacklist =
  fixes bl :: "'b blacklist_methods"
  assumes contains_added: "bl_Contains bl (bl_Add bl p b) p"
    and contains_only: "bl_Contains bl (bl_Add bl p b) q \<Longrightarrow> q = p \<or> bl_Contains bl b q"
begin

lemma not_contains_add:
  "\<forall>q \<in> P. \<not> bl_Contains bl b q \<Longrightarrow> \<forall>q \<in> P - {p}. \<not> bl_Contains bl (bl_Add bl p b) q"
  using contains_only by blast

end

text \<open>A perfect blacklist forgets nothing.\<close>

locale perfect_blacklist = blacklist +
  assumes contains_mono: "bl_Contains bl b q \<Longrightarrow> bl_Contains bl (bl_Add bl p b) q"
begin

lemma contains_add_iff: "bl_Contains bl (bl_Add bl p b) q \<longleftrightarrow> q = p \<or> bl_Contains bl b q"
  using contains_added contains_only contains_mono by blast

lemma contains_fold: "bl_Contains bl (fold (bl_Add bl) ps b) q \<longleftrightarrow> q \<in> set ps \<or> bl_Contains bl b q"
  by (induction ps arbitrary: b) (auto simp: contains_add_iff)

end

text \<open>A cache that holds what was added last, and nothing that was not added, makes a blacklist.\<close>

lemma LRUBlacklist_contract:
  assumes "\<And>p v c. lru_Contains (lru_Add p v c) p"
    and "\<And>p v c q. lru_Contains (lru_Add p v c) q \<Longrightarrow> q = p \<or> lru_Contains c q"
  shows "blacklist \<lparr>bl_Add = LRUBlacklist_Add lru_Add, bl_Contains = LRUBlacklist_Contains lru_Contains\<rparr>"
  by unfold_locales (use assms in \<open>auto simp: LRUBlacklist_Add_def LRUBlacklist_Contains_def\<close>)

interpretation map_bl: perfect_blacklist map_blacklist
  by unfold_locales
    (auto simp: map_blacklist_def MapBlacklist_Add_def MapBlacklist_Contains_def)

section \<open>Properties\<close>

text \<open>
  The default blacklist is a perfect one: after any sequence of \<open>Add\<close> it contains exactly the peers
  that were added.
\<close>

lemma map_blacklist_perfect:
  "MapBlacklist_Contains (fold MapBlacklist_Add ps NewMapBlacklist) q \<longleftrightarrow> q \<in> set ps"
  using map_bl.contains_fold [of ps NewMapBlacklist q]
  by (simp add: map_blacklist_def NewMapBlacklist_def MapBlacklist_Contains_def)

end
