(* ===== verification/Validation.thy ===== *)
theory Validation
  imports Wire
begin

text \<open>
  \<open>validation.go\<close>, the part that works on the pipeline's own state: registering and removing topic
  validators, selecting the validators of a message and queueing it. A \<open>*topicVal\<close> is an index into
  \<open>v_heap\<close>: a request in the queue keeps the validators it was queued with, and their throttles stay
  shared, when the topic's entry is removed. A throttle channel is its capacity and the number of
  tokens in it. A user validator is a function of its context's deadline, the source and the message.
\<close>

section \<open>Data\<close>

type_synonym Validator = "int option \<Rightarrow> peer \<Rightarrow> pb_Message \<Rightarrow> bool"

record throttle =
  th_cap :: nat
  th_used :: nat

record topicVal =
  tv_topic :: topic
  tv_validate :: Validator
  tv_timeout :: int
  tv_throttle :: throttle
  tv_inline :: bool

record validateReq =
  vr_vals :: "nat list"
  vr_src :: peer
  vr_msg :: pb_Message

text \<open>
  The goroutine \<open>doValidateTopic\<close>: its validators, and once it has passed the throttles, the validators
  whose throttle it holds and whether none was exhausted.
\<close>

record asyncVal =
  as_vals :: "nat list"
  as_src :: peer
  as_msg :: pb_Message
  as_held :: "(nat list \<times> bool) option"

record addValReq =
  av_topic :: topic
  av_validate :: Validator
  av_timeout :: int
  av_throttle :: int
  av_inline :: bool

record validation =
  v_topicVals :: "(topic, nat) alist"
  v_heap :: "topicVal list"
  v_validateQ :: "validateReq chan"
  v_throttle :: throttle
  v_workers :: int

datatype val_error = DuplicateValidator topic | NoValidator topic

definition defaultValidateConcurrency :: nat where "defaultValidateConcurrency = 1024"
definition defaultValidateThrottle :: nat where "defaultValidateThrottle = 8192"

definition newValidation :: "int \<Rightarrow> validation" where
  "newValidation numCPU =
     \<lparr>v_topicVals = mempty, v_heap = [], v_validateQ = make_chan 32,
      v_throttle = \<lparr>th_cap = defaultValidateThrottle, th_used = 0\<rparr>, v_workers = numCPU\<rparr>"

section \<open>Throttles\<close>

text \<open>\<open>select { case throttle <- struct{}{}: ... default: ... }\<close> and \<open><-throttle\<close>.\<close>

definition acquire :: "throttle \<Rightarrow> throttle option" where
  "acquire t = (if th_used t < th_cap t then Some (t\<lparr>th_used := Suc (th_used t)\<rparr>) else None)"

definition release :: "throttle \<Rightarrow> throttle" where
  "release t = t\<lparr>th_used := th_used t - 1\<rparr>"

lemma release_acquire: "acquire t = Some t' \<Longrightarrow> release t' = t"
  by (auto simp: acquire_def release_def split: if_splits)

section \<open>Operations\<close>

text \<open>The value sent on the request's response channel is returned with the new state.\<close>

definition AddValidator :: "addValReq \<Rightarrow> validation \<Rightarrow> val_error option \<times> validation" where
  "AddValidator req v =
     (let topic = av_topic req
      in if mhas (v_topicVals v) topic then (Some (DuplicateValidator topic), v)
         else let val0 = \<lparr>tv_topic = topic, tv_validate = av_validate req, tv_timeout = 0,
                          tv_throttle = \<lparr>th_cap = defaultValidateConcurrency, th_used = 0\<rparr>,
                          tv_inline = av_inline req\<rparr>;
                  val1 = (if av_timeout req > 0 then val0\<lparr>tv_timeout := av_timeout req\<rparr> else val0);
                  val2 = (if av_throttle req > 0
                          then val1\<lparr>tv_throttle := \<lparr>th_cap = nat (av_throttle req), th_used = 0\<rparr>\<rparr>
                          else val1)
              in (None, v\<lparr>v_topicVals := mput topic (length (v_heap v)) (v_topicVals v),
                          v_heap := v_heap v @ [val2]\<rparr>))"

definition RemoveValidator :: "topic \<Rightarrow> validation \<Rightarrow> val_error option \<times> validation" where
  "RemoveValidator topic v =
     (if mhas (v_topicVals v) topic
      then (None, v\<lparr>v_topicVals := mdel topic (v_topicVals v)\<rparr>)
      else (Some (NoValidator topic), v))"

fun collect_vals :: "(topic, nat) alist \<Rightarrow> topic list \<Rightarrow> nat list" where
  "collect_vals tv [] = []"
| "collect_vals tv (t # ts) =
     (case mget tv t of None \<Rightarrow> collect_vals tv ts | Some r \<Rightarrow> r # collect_vals tv ts)"

definition getValidators :: "pb_Message \<Rightarrow> validation \<Rightarrow> nat list" where
  "getValidators msg v = collect_vals (v_topicVals v) (m_TopicIDs msg)"

text \<open>\<open>Push\<close> returns whether the message can be forwarded at once; a full queue drops it.\<close>

definition Push :: "peer \<Rightarrow> pb_Message \<Rightarrow> validation \<Rightarrow> (bool \<times> validation) option" where
  "Push src msg v =
     (let vals = getValidators msg v
      in if vals \<noteq> [] \<or> m_Signature msg \<noteq> None
         then (case chan_send \<lparr>vr_vals = vals, vr_src = src, vr_msg = msg\<rparr> (v_validateQ v) of
                 None \<Rightarrow> None
               | Some (Sent q) \<Rightarrow> Some (False, v\<lparr>v_validateQ := q\<rparr>)
               | Some Full \<Rightarrow> Some (False, v))
         else Some (True, v))"

text \<open>
  The options of \<open>NewPubSub\<close> and \<open>RegisterTopicValidator\<close> that configure the pipeline. A channel of
  negative capacity is a panic.
\<close>

definition WithValidateThrottle :: "int \<Rightarrow> validation \<Rightarrow> validation option" where
  "WithValidateThrottle n v = (if n < 0 then None else Some (v\<lparr>v_throttle := \<lparr>th_cap = nat n, th_used = 0\<rparr>\<rparr>))"

datatype option_error = WorkersNotPositive | NoPrivateKey peer | StrictWithoutKey

definition WithValidateWorkers :: "int \<Rightarrow> validation \<Rightarrow> option_error + validation" where
  "WithValidateWorkers n v = (if n > 0 then Inr (v\<lparr>v_workers := n\<rparr>) else Inl WorkersNotPositive)"

definition WithValidatorTimeout :: "int \<Rightarrow> addValReq \<Rightarrow> addValReq" where
  "WithValidatorTimeout timeout req = req\<lparr>av_timeout := timeout\<rparr>"

definition WithValidatorConcurrency :: "int \<Rightarrow> addValReq \<Rightarrow> addValReq" where
  "WithValidatorConcurrency n req = req\<lparr>av_throttle := n\<rparr>"

definition WithValidatorInline :: "bool \<Rightarrow> addValReq \<Rightarrow> addValReq" where
  "WithValidatorInline inline req = req\<lparr>av_inline := inline\<rparr>"

section \<open>The registry invariant\<close>

text \<open>
  Every registered topic points to a validator of that topic whose throttle is bounded and not
  overdrawn; every queued request points into the heap; the queue is open and within its capacity.
\<close>

definition throttle_ok :: "throttle \<Rightarrow> bool" where
  "throttle_ok t \<longleftrightarrow> th_used t \<le> th_cap t"

definition val_inv :: "validation \<Rightarrow> bool" where
  "val_inv v \<longleftrightarrow>
     (\<forall>t r. mget (v_topicVals v) t = Some r \<longrightarrow> r < length (v_heap v) \<and> tv_topic (v_heap v ! r) = t) \<and>
     (\<forall>tv \<in> set (v_heap v). 0 < th_cap (tv_throttle tv) \<and> throttle_ok (tv_throttle tv)) \<and>
     chan_ok (v_validateQ v) \<and> throttle_ok (v_throttle v) \<and>
     (\<forall>req \<in> set (ch_buf (v_validateQ v)). \<forall>r \<in> set (vr_vals req).
        r < length (v_heap v) \<and> tv_topic (v_heap v ! r) \<in> set (m_TopicIDs (vr_msg req)))"

lemma val_inv_new [inv_intros]: "val_inv (newValidation n)"
  by (simp add: val_inv_def newValidation_def throttle_ok_def make_chan_def chan_ok_def)

lemma val_inv_register:
  assumes "val_inv v" "tv_topic x = t" "0 < th_cap (tv_throttle x)" "throttle_ok (tv_throttle x)"
  shows "val_inv (v\<lparr>v_topicVals := mput t (length (v_heap v)) (v_topicVals v), v_heap := v_heap v @ [x]\<rparr>)"
proof -
  have old: "r < length (v_heap v) \<Longrightarrow> (v_heap v @ [x]) ! r = v_heap v ! r" for r
    by (simp add: nth_append)
  have "r < Suc (length (v_heap v)) \<and> tv_topic ((v_heap v @ [x]) ! r) = t'"
    if "mget (mput t (length (v_heap v)) (v_topicVals v)) t' = Some r" for t' r
    using that assms(1,2) old [of r] by (auto simp: lookup_update val_inv_def less_Suc_eq split: if_splits)
  moreover have "r < Suc (length (v_heap v)) \<and> tv_topic ((v_heap v @ [x]) ! r) \<in> set (m_TopicIDs (vr_msg req))"
    if "req \<in> set (ch_buf (v_validateQ v))" "r \<in> set (vr_vals req)" for req r
    using that assms(1) old [of r] by (auto simp: val_inv_def less_Suc_eq)
  ultimately show ?thesis using assms by (simp add: val_inv_def)
qed

lemma val_inv_add [inv_intros]:
  assumes "val_inv v" "AddValidator req v = (resp, v')"
  shows "val_inv v'"
proof (cases "mhas (v_topicVals v) (av_topic req)")
  case True
  with assms show ?thesis by (simp add: AddValidator_def Let_def)
next
  case False
  let ?x = "last (v_heap v')"
  have "tv_topic ?x = av_topic req \<and> 0 < th_cap (tv_throttle ?x) \<and> throttle_ok (tv_throttle ?x) \<and>
    v' = v\<lparr>v_topicVals := mput (av_topic req) (length (v_heap v)) (v_topicVals v), v_heap := v_heap v @ [?x]\<rparr>"
    using assms(2) False
    by (auto simp: AddValidator_def Let_def throttle_ok_def defaultValidateConcurrency_def split: if_splits)
  then show ?thesis using val_inv_register [OF assms(1)] by metis
qed

lemma val_inv_remove [inv_intros]:
  "val_inv v \<Longrightarrow> RemoveValidator t v = (resp, v') \<Longrightarrow> val_inv v'"
  unfolding val_inv_def RemoveValidator_def by (auto split: if_splits)

lemma collect_vals_eq: "collect_vals tv ts = List.map_filter (mget tv) ts"
  by (induction ts) (auto simp: List.map_filter_def split: option.splits)

lemma collect_vals_refs:
  assumes "val_inv v" "r \<in> set (collect_vals (v_topicVals v) ts)"
  shows "r < length (v_heap v) \<and> tv_topic (v_heap v ! r) \<in> set ts"
  using assms(2)
proof (induction ts)
  case (Cons t ts)
  then show ?case using assms(1) by (auto simp: val_inv_def split: option.splits)
qed simp

lemma val_inv_push [inv_intros]:
  assumes "val_inv v"
  shows "\<exists>fwd v'. Push src msg v = Some (fwd, v') \<and> val_inv v'"
proof -
  have open_q: "\<not> ch_closed (v_validateQ v)" using assms by (simp add: val_inv_def chan_ok_def)
  have refs: "\<forall>r \<in> set (getValidators msg v). r < length (v_heap v) \<and> tv_topic (v_heap v ! r) \<in> set (m_TopicIDs msg)"
    using collect_vals_refs [OF assms] by (simp add: getValidators_def)
  show ?thesis
    using assms refs
    by (auto simp: Push_def Let_def chan_send_open [OF open_q] val_inv_def chan_ok_def chan_room_def)
qed

section \<open>Properties\<close>

text \<open>
  \<open>AddValidator\<close> registers a validator exactly when its topic has none and otherwise reports the
  duplicate and changes nothing; a new validator has the throttle and timeout asked for when they are
  positive and the default otherwise, and no other topic is affected.
\<close>

lemma AddValidator_spec:
  assumes "val_inv v"
  shows "\<exists>resp v'. AddValidator req v = (resp, v') \<and> val_inv v' \<and>
    (if mhas (v_topicVals v) (av_topic req) then resp = Some (DuplicateValidator (av_topic req)) \<and> v' = v
     else resp = None \<and>
       (\<forall>t. t \<noteq> av_topic req \<longrightarrow> mget (v_topicVals v') t = mget (v_topicVals v) t) \<and>
       (\<exists>r. mget (v_topicVals v') (av_topic req) = Some r \<and>
          v_heap v' ! r = \<lparr>tv_topic = av_topic req, tv_validate = av_validate req,
            tv_timeout = max 0 (av_timeout req),
            tv_throttle = \<lparr>th_cap = (if av_throttle req > 0 then nat (av_throttle req) else 1024), th_used = 0\<rparr>,
            tv_inline = av_inline req\<rparr>))"
proof -
  obtain resp v' where a: "AddValidator req v = (resp, v')" by force
  have "val_inv v'" using assms a by (rule val_inv_add)
  with a show ?thesis
    by (auto simp: AddValidator_def Let_def lookup_update defaultValidateConcurrency_def max_def split: if_splits)
qed

text \<open>
  \<open>Push\<close> never blocks and never panics: a message without validators and without a signature is passed
  on at once; any other is queued with exactly the validators of its topics, in order, or dropped when the
  queue is full.
\<close>

lemma Push_spec:
  assumes "val_inv v"
  shows "Push src msg v =
    (if List.map_filter (mget (v_topicVals v)) (m_TopicIDs msg) = [] \<and> m_Signature msg = None then Some (True, v)
     else if chan_room (v_validateQ v)
     then Some (False, v\<lparr>v_validateQ := (v_validateQ v)\<lparr>ch_buf := ch_buf (v_validateQ v) @
            [\<lparr>vr_vals = List.map_filter (mget (v_topicVals v)) (m_TopicIDs msg), vr_src = src, vr_msg = msg\<rparr>]\<rparr>\<rparr>)
     else Some (False, v))"
proof -
  have "\<not> ch_closed (v_validateQ v)" using assms by (simp add: val_inv_def chan_ok_def)
  then show ?thesis by (simp add: Push_def getValidators_def collect_vals_eq chan_send_open Let_def)
qed

end
