(* ===== verification/Node.thy ===== *)
theory Node
  imports Subscription Blacklist Validation
begin

text \<open>
  The state of \<open>PubSub\<close> (\<open>pubsub.go\<close>) that its router shares, and the operations on it that routers
  use. The field \<open>rt\<close> is the record extension \<open>'z\<close>: each router extends the node with its own state.

  \<^item> \<open>n_subs\<close> is the heap of \<open>Subscription\<close> objects, which \<open>n_myTopics\<close> refers to by index.
  \<^item> \<open>n_peers\<close> holds the outgoing queue of each peer; a queue's consumer is
    \<open>handleSendingMessages\<close>, a step of its own.
  \<^item> \<open>n_async\<close> are the goroutines that run asynchronous validators, \<open>n_waiting\<close> those that wait to send
    on \<open>n_sendMsg\<close>, each with whether it holds a token of the global throttle until then. \<open>n_published\<close> is a history variable: the messages \<open>publishMessage\<close> was called with.
  \<^item> \<open>n_retries\<close> are the sleeping \<open>announceRetry\<close> goroutines, \<open>n_spawned\<close> the peers whose
    \<open>handleNewPeer\<close> goroutine was started, \<open>n_tags\<close> the calls made to the host's connection manager,
    \<open>n_clock\<close> what \<open>time.Now().UnixNano()\<close> reads and \<open>n_choices\<close> the runtime's choices.
  \<^item> The time cache and the blacklist are values of the types \<open>'s\<close> and \<open>'b\<close>, used through the methods
    \<open>seen_methods\<close> (the package \<open>timecache\<close>, a parameter) and \<open>blacklist_methods\<close>.
\<close>

section \<open>State\<close>

record 's seen_methods =
  tc_Has :: "'s \<Rightarrow> gostring \<Rightarrow> bool"
  tc_Add :: "gostring \<Rightarrow> 's \<Rightarrow> 's"

datatype tag_call = TagPeer peer gostring int | UntagPeer peer gostring

record sendReq =
  sr_from :: peer
  sr_msg :: pb_Message

record ('s, 'b) node =
  n_counter :: "64 word"
  n_host :: peer
  n_val :: validation
  n_myTopics :: "(topic, (nat, unit) alist) alist"
  n_subs :: "(nat, Subscription) alist"
  n_topics :: "(topic, (peer, unit) alist) alist"
  n_sendMsg :: "sendReq chan"
  n_blacklist :: 'b
  n_peers :: "(peer, RPC chan) alist"
  n_seen :: 's
  n_signKey :: "nat option"
  n_signID :: peer
  n_signStrict :: bool
  n_async :: "asyncVal list"
  n_waiting :: "(sendReq \<times> bool) list"
  n_published :: "pb_Message list"
  n_retries :: "(peer \<times> topic \<times> bool) list"
  n_spawned :: "peer list"
  n_tags :: "tag_call list"
  n_clock :: int
  n_choices :: "nat list"

section \<open>Choices\<close>

definition range_over :: "'k list \<Rightarrow> ('s, 'b, 'z) node_scheme \<Rightarrow> 'k list \<times> ('s, 'b, 'z) node_scheme" where
  "range_over ks st = (let (ks', e) = any_order ks (n_choices st) in (ks', st\<lparr>n_choices := e\<rparr>))"

lemma range_over_set:
  assumes "range_over ks st = (ks', st')"
  shows "set ks' = set ks" "distinct ks' \<longleftrightarrow> distinct ks" "length ks' = length ks"
    "\<exists>e. st' = st\<lparr>n_choices := e\<rparr>"
proof -
  obtain e where "any_order ks (n_choices st) = (ks', e)" and st': "st' = st\<lparr>n_choices := e\<rparr>"
    using assms by (auto simp: range_over_def Let_def split: prod.splits)
  then have ks': "ks' = fst (any_order ks (n_choices st))" by simp
  show "set ks' = set ks" "distinct ks' \<longleftrightarrow> distinct ks" "length ks' = length ks"
    unfolding ks' by simp_all
  show "\<exists>e. st' = st\<lparr>n_choices := e\<rparr>" using st' by blast
qed

section \<open>Sending to a peer\<close>

text \<open>
  \<open>mch, ok := p.peers[pid]; if !ok { ... }; select { case mch <- out: ... default: ... }\<close>.
\<close>

datatype send_result = NoPeer | Queued | QueueFull

definition try_send ::
  "peer \<Rightarrow> RPC \<Rightarrow> ('s, 'b, 'z) node_scheme \<Rightarrow> (send_result \<times> ('s, 'b, 'z) node_scheme) option" where
  "try_send pid out st =
     (case mget (n_peers st) pid of
        None \<Rightarrow> Some (NoPeer, st)
      | Some ch \<Rightarrow>
          (case chan_send out ch of
             None \<Rightarrow> None
           | Some (Sent ch') \<Rightarrow> Some (Queued, st\<lparr>n_peers := mput pid ch' (n_peers st)\<rparr>)
           | Some Full \<Rightarrow> Some (QueueFull, st)))"

text \<open>The messages waiting for a peer; none for a peer without a queue.\<close>

definition outbox :: "('s, 'b, 'z) node_scheme \<Rightarrow> peer \<Rightarrow> RPC list" where
  "outbox st p = (case mget (n_peers st) p of None \<Rightarrow> [] | Some c \<Rightarrow> ch_buf c)"

definition has_room :: "('s, 'b, 'z) node_scheme \<Rightarrow> peer \<Rightarrow> bool" where
  "has_room st p \<longleftrightarrow> (\<exists>c. mget (n_peers st) p = Some c \<and> chan_room c)"

lemma queue_views_choices [simp]:
  "outbox (st\<lparr>n_choices := e\<rparr>) = outbox st" "has_room (st\<lparr>n_choices := e\<rparr>) = has_room st"
  by (simp_all add: outbox_def has_room_def fun_eq_iff)

section \<open>The invariant of the peer queues and the frame of a router\<close>

definition peers_ok :: "('s, 'b, 'z) node_scheme \<Rightarrow> bool" where
  "peers_ok st \<longleftrightarrow> (\<forall>p c. mget (n_peers st) p = Some c \<longrightarrow> chan_ok c)"

text \<open>\<open>queues_extend P P'\<close>: the same peers, each queue at most longer, none closed or reopened.\<close>

definition queues_extend :: "(peer, RPC chan) alist \<Rightarrow> (peer, RPC chan) alist \<Rightarrow> bool" where
  "queues_extend P P' \<longleftrightarrow> mdom P' = mdom P \<and>
     (\<forall>p c c'. mget P p = Some c \<longrightarrow> mget P' p = Some c' \<longrightarrow>
        (\<exists>xs. ch_buf c' = ch_buf c @ xs) \<and> ch_cap c' = ch_cap c \<and> ch_closed c' = ch_closed c \<and>
        (chan_ok c \<longrightarrow> chan_ok c'))"

text \<open>What every router operation leaves alone, and what it may do to the queues.\<close>

definition router_frame :: "('s, 'b, 'z) node_scheme \<Rightarrow> ('s, 'b, 'z) node_scheme \<Rightarrow> bool" where
  "router_frame st st' \<longleftrightarrow>
     n_counter st' = n_counter st \<and> n_host st' = n_host st \<and> n_val st' = n_val st \<and>
     n_myTopics st' = n_myTopics st \<and> n_subs st' = n_subs st \<and> n_topics st' = n_topics st \<and>
     n_sendMsg st' = n_sendMsg st \<and> n_blacklist st' = n_blacklist st \<and> n_seen st' = n_seen st \<and>
     n_signKey st' = n_signKey st \<and> n_signID st' = n_signID st \<and> n_signStrict st' = n_signStrict st \<and>
     n_async st' = n_async st \<and> n_waiting st' = n_waiting st \<and> n_published st' = n_published st \<and>
     n_retries st' = n_retries st \<and> n_spawned st' = n_spawned st \<and> n_clock st' = n_clock st \<and>
     queues_extend (n_peers st) (n_peers st')"

lemma queues_extend_refl [simp, intro]: "queues_extend P P"
  by (auto simp: queues_extend_def)

lemma queues_extend_trans:
  assumes "queues_extend P Q" "queues_extend Q R" shows "queues_extend P R"
proof -
  have dom: "mdom R = mdom P" using assms by (simp add: queues_extend_def)
  have "(\<exists>xs. ch_buf c' = ch_buf c @ xs) \<and> ch_cap c' = ch_cap c \<and> ch_closed c' = ch_closed c \<and>
      (chan_ok c \<longrightarrow> chan_ok c')" if cs: "mget P p = Some c" "mget R p = Some c'" for p c c'
  proof -
    have "p \<in> mdom Q" using assms(1) cs(1) by (auto simp: queues_extend_def)
    then obtain d where d: "mget Q p = Some d" by (auto simp: mem_mdom)
    obtain xs where "ch_buf d = ch_buf c @ xs" using assms(1) cs(1) d unfolding queues_extend_def by blast
    moreover obtain ys where "ch_buf c' = ch_buf d @ ys"
      using assms(2) cs(2) d unfolding queues_extend_def by blast
    ultimately show ?thesis
      using assms cs d unfolding queues_extend_def by (metis append.assoc)
  qed
  with dom show ?thesis by (auto simp: queues_extend_def)
qed

lemma router_frame_refl [simp, intro, frame_intros]: "router_frame st st"
  by (simp add: router_frame_def)

lemma router_frame_trans [trans]: "router_frame s t \<Longrightarrow> router_frame t u \<Longrightarrow> router_frame s u"
  by (auto simp: router_frame_def intro: queues_extend_trans)

lemma frame_peers_ok [inv_intros]:
  assumes "peers_ok st" "router_frame st st'" shows "peers_ok st'"
  unfolding peers_ok_def
proof (intro allI impI)
  fix p c' assume c': "mget (n_peers st') p = Some c'"
  then have "p \<in> mdom (n_peers st)" using assms(2) by (auto simp: router_frame_def queues_extend_def)
  then obtain c where "mget (n_peers st) p = Some c" by (auto simp: mem_mdom)
  with c' assms show "chan_ok c'" unfolding peers_ok_def router_frame_def queues_extend_def by blast
qed

lemma frame_mdom_peers: "router_frame st st' \<Longrightarrow> mdom (n_peers st') = mdom (n_peers st)"
  by (simp add: router_frame_def queues_extend_def)

lemma range_over_frame [frame_intros]: "range_over ks st = (ks', st') \<Longrightarrow> router_frame st st'"
  by (auto simp: range_over_def Let_def router_frame_def split: prod.splits)

lemma try_send_frame [frame_intros]: "try_send p out st = Some (r, st') \<Longrightarrow> router_frame st st'"
  by (auto simp: try_send_def router_frame_def queues_extend_def lookup_update chan_ok_def chan_send_def
      split: option.splits sent.splits if_splits)

lemma try_send_total:
  assumes "peers_ok st" shows "\<exists>r st'. try_send p out st = Some (r, st')"
  using assms
  by (auto simp: try_send_def peers_ok_def chan_ok_def chan_send_open split: option.splits)

text \<open>A send only concerns the queue it is sent to.\<close>

lemma try_send_cases:
  assumes "peers_ok st" "try_send p out st = Some (r, st')"
  shows "r = NoPeer \<and> p \<notin> mdom (n_peers st) \<and> st' = st
       \<or> r = Queued \<and> has_room st p \<and> outbox st' = (outbox st)(p := outbox st p @ [out])
         \<and> (\<exists>P. st' = st\<lparr>n_peers := P\<rparr>)
       \<or> r = QueueFull \<and> p \<in> mdom (n_peers st) \<and> \<not> has_room st p \<and> st' = st"
  using assms
  by (auto simp: try_send_def peers_ok_def chan_ok_def chan_send_def outbox_def has_room_def chan_room_def
      mem_mdom lookup_update fun_eq_iff split: option.splits sent.splits if_splits)

text \<open>
  Queueing one message for each of a list of distinct peers: each queue with room gets it, the others
  drop it, and nothing else changes. The flooding routers send this way.
\<close>

definition send_all ::
  "RPC \<Rightarrow> peer list \<Rightarrow> ('s, 'b, 'z) node_scheme \<Rightarrow> ('s, 'b, 'z) node_scheme option" where
  "send_all out = foldM (\<lambda>pid st. map_option snd (try_send pid out st))"

lemma send_all_spec:
  assumes "peers_ok st" "distinct ps"
  shows "\<exists>st'. send_all out ps st = Some st' \<and> router_frame st st' \<and> (\<exists>P. st' = st\<lparr>n_peers := P\<rparr>) \<and>
           (\<forall>p. outbox st' p = (if p \<in> set ps \<and> has_room st p then outbox st p @ [out] else outbox st p))"
  using assms
proof (induction ps arbitrary: st)
  case Nil
  then show ?case by (auto simp: send_all_def intro: exI [of _ "n_peers st"])
next
  case (Cons p ps)
  obtain r st1 where s1: "try_send p out st = Some (r, st1)" using try_send_total [OF Cons.prems(1)] by blast
  have f1: "router_frame st st1" by (rule try_send_frame [OF s1])
  have ok1: "peers_ok st1" using Cons.prems(1) f1 by (rule frame_peers_ok)
  have d: "distinct ps" "p \<notin> set ps" using Cons.prems(2) by auto
  obtain st' where st': "send_all out ps st1 = Some st'" "router_frame st1 st'" "\<exists>P. st' = st1\<lparr>n_peers := P\<rparr>"
    and box: "\<And>q. outbox st' q = (if q \<in> set ps \<and> has_room st1 q then outbox st1 q @ [out] else outbox st1 q)"
    using Cons.IH [OF ok1 d(1)] by blast
  have room: "has_room st1 q = has_room st q" if "q \<in> set ps" for q
  proof -
    have "q \<noteq> p" using that d(2) by blast
    then show ?thesis
      using s1 by (auto simp: try_send_def has_room_def split: option.splits sent.splits)
  qed
  have box1: "outbox st1 = (if has_room st p then (outbox st)(p := outbox st p @ [out]) else outbox st)"
    and eq1: "\<exists>P. st1 = st\<lparr>n_peers := P\<rparr>"
    using try_send_cases [OF Cons.prems(1) s1]
    by (auto simp: has_room_def mem_mdom intro: exI [of _ "n_peers st"])
  have "send_all out (p # ps) st = Some st'" using s1 st'(1) by (simp add: send_all_def)
  moreover have "router_frame st st'" using f1 st'(2) by (rule router_frame_trans)
  moreover have "\<exists>P. st' = st\<lparr>n_peers := P\<rparr>" using st'(3) eq1 by auto
  ultimately show ?case
    using d(2) by (auto simp: box box1 room)
qed

lemma foldM_skip:
  "foldM (\<lambda>x s. if P x then Some s else f x s) xs s = foldM f (filter (\<lambda>x. \<not> P x) xs) s"
  by (induction xs arbitrary: s) auto

section \<open>A sample node\<close>

text \<open>
  A node with two peers in one topic: the queue of \<open>[1]\<close> has room, that of \<open>[2]\<close> is full. The
  properties are applied to it to show that their hypotheses can hold.
\<close>

definition sample_peers :: "(peer, RPC chan) alist" where
  "sample_peers =
     mput [1] (make_chan 32) (mput [2] ((make_chan 32)\<lparr>ch_buf := replicate 32 (rpcWithSubs [])\<rparr>) mempty)"

definition sample_topics :: "(topic, (peer, unit) alist) alist" where
  "sample_topics = mput (str ''art'') (mset_of_list [[1], [2]]) mempty"

definition sample_node :: "'s \<Rightarrow> 'b \<Rightarrow> 'z \<Rightarrow> ('s, 'b, 'z) node_scheme" where
  "sample_node seen bl z =
     \<lparr>n_counter = 0, n_host = [0], n_val = newValidation 4, n_myTopics = mempty, n_subs = mempty,
      n_topics = sample_topics, n_sendMsg = make_chan 32, n_blacklist = bl, n_peers = sample_peers,
      n_seen = seen, n_signKey = None, n_signID = [0], n_signStrict = False, n_async = [], n_waiting = [],
      n_published = [], n_retries = [], n_spawned = [], n_tags = [], n_clock = 0, n_choices = [], \<dots> = z\<rparr>"

lemma sample_node_ok [simp]: "peers_ok (sample_node seen bl z)"
  by (auto simp: sample_node_def sample_peers_def peers_ok_def lookup_update chan_ok_def make_chan_def split: if_splits)

lemma sample_node_sel [simp]:
  "n_peers (sample_node seen bl z) = sample_peers" "n_topics (sample_node seen bl z) = sample_topics"
  "n_myTopics (sample_node seen bl z) = mempty" "n_subs (sample_node seen bl z) = mempty"
  "n_blacklist (sample_node seen bl z) = bl" "n_seen (sample_node seen bl z) = seen"
  "n_val (sample_node seen bl z) = newValidation 4" "n_sendMsg (sample_node seen bl z) = make_chan 32"
  "n_host (sample_node seen bl z) = [0]" "node.more (sample_node seen bl z) = z"
  "n_async (sample_node seen bl z) = []" "n_waiting (sample_node seen bl z) = []"
  "n_published (sample_node seen bl z) = []" "n_retries (sample_node seen bl z) = []"
  "n_clock (sample_node seen bl z) = 0" "n_tags (sample_node seen bl z) = []"
  "n_signStrict (sample_node seen bl z) = False" "n_choices (sample_node seen bl z) = []"
  by (simp_all add: sample_node_def)

lemma sample_room [simp]:
  "has_room (sample_node seen bl z) p \<longleftrightarrow> p = [1]" "outbox (sample_node seen bl z) [1] = []"
  "mdom (mget0 sample_topics t) = (if t = str ''art'' then {[1], [2]} else {})" "mdom sample_peers = {[1], [2]}"
  by (auto simp: has_room_def sample_peers_def sample_topics_def lookup_update chan_room_def make_chan_def
      outbox_def mget0_def split: if_splits)

end
