(* ===== verification/Peers.thy ===== *)
theory Peers
  imports Node
begin

text \<open>
  The helpers at the end of \<open>gossipsub.go\<close> that turn peer sets into lists and shuffle them, shared by
  the gossiping and the random router, and the protocol identifiers of the three routers.
\<close>

definition FloodSubID :: protocol where "FloodSubID = str ''/floodsub/1.0.0''"
definition RandomSubID :: protocol where "RandomSubID = str ''/randomsub/1.0.0''"
definition GossipSubID :: protocol where "GossipSubID = str ''/meshsub/1.0.0''"

lemma protocol_ids_differ [simp]:
  "FloodSubID \<noteq> GossipSubID" "GossipSubID \<noteq> FloodSubID"
  "FloodSubID \<noteq> RandomSubID" "RandomSubID \<noteq> FloodSubID" "FloodSubID \<noteq> []" "GossipSubID \<noteq> []"
  by (simp_all add: FloodSubID_def GossipSubID_def RandomSubID_def str_def)

section \<open>Sets and lists of peers\<close>

definition peerListToMap :: "peer list \<Rightarrow> (peer, unit) alist" where
  "peerListToMap ps = fold (\<lambda>p. mput p ()) ps mempty"

definition peerMapToList ::
  "(peer, unit) alist \<Rightarrow> ('s, 'b, 'z) node_scheme \<Rightarrow> peer list \<times> ('s, 'b, 'z) node_scheme" where
  "peerMapToList peers st = range_over (mkeys peers) st"

lemma mdom_peerListToMap [simp]: "mdom (peerListToMap ps) = set ps"
  by (simp add: peerListToMap_def mdom_fold_mput)

section \<open>Shuffling\<close>

text \<open>
  \<open>for i := range peers { j := rand.Intn(i + 1); peers[i], peers[j] = peers[j], peers[i] }\<close>:
  \<open>shuffle_loop k i\<close> performs the turns \<open>i, ..., i + k - 1\<close>.
\<close>

definition swap :: "nat \<Rightarrow> nat \<Rightarrow> 'a list \<Rightarrow> 'a list" where
  "swap i j xs = xs[i := xs ! j, j := xs ! i]"

fun shuffle_loop :: "nat \<Rightarrow> nat \<Rightarrow> 'a list \<Rightarrow> nat list \<Rightarrow> 'a list \<times> nat list" where
  "shuffle_loop 0 i xs e = (xs, e)"
| "shuffle_loop (Suc k) i xs e =
     (let (r, e1) = draw e; j = r mod (i + 1) in shuffle_loop k (Suc i) (swap i j xs) e1)"

definition shufflePeers ::
  "peer list \<Rightarrow> ('s, 'b, 'z) node_scheme \<Rightarrow> peer list \<times> ('s, 'b, 'z) node_scheme" where
  "shufflePeers ps st =
     (let (ps', e) = shuffle_loop (length ps) 0 ps (n_choices st) in (ps', st\<lparr>n_choices := e\<rparr>))"

lemma length_swap [simp]: "length (swap i j xs) = length xs"
  by (simp add: swap_def)

lemma mset_swap_eq: "i < length xs \<Longrightarrow> j < length xs \<Longrightarrow> mset (swap i j xs) = mset xs"
  unfolding swap_def by (rule mset_swap)

lemma mset_shuffle_loop:
  "i + k \<le> length xs \<Longrightarrow> mset (fst (shuffle_loop k i xs e)) = mset xs"
proof (induction k i xs e rule: shuffle_loop.induct)
  case (2 k i xs e)
  obtain r e1 where d: "draw e = (r, e1)" by force
  have "mset (fst (shuffle_loop k (Suc i) (swap i (r mod (i + 1)) xs) e1)) = mset (swap i (r mod (i + 1)) xs)"
    using "2.IH" [OF d [symmetric] refl] "2.prems" by simp
  also have "\<dots> = mset xs"
  proof (rule mset_swap_eq)
    show "i < length xs" using "2.prems" by simp
    then show "r mod (i + 1) < length xs"
      by (metis add.commute less_Suc_eq_le mod_less_divisor order_le_less_trans plus_1_eq_Suc zero_less_Suc)
  qed
  finally show ?case by (simp add: d Let_def)
qed simp

lemma shufflePeers_mset:
  assumes "shufflePeers ps st = (ps', st')"
  shows "mset ps' = mset ps" "\<exists>e. st' = st\<lparr>n_choices := e\<rparr>"
proof -
  obtain e where "shuffle_loop (length ps) 0 ps (n_choices st) = (ps', e)" "st' = st\<lparr>n_choices := e\<rparr>"
    using assms by (auto simp: shufflePeers_def Let_def split: prod.splits)
  then show "mset ps' = mset ps" "\<exists>e. st' = st\<lparr>n_choices := e\<rparr>"
    using mset_shuffle_loop [of 0 "length ps" ps "n_choices st"] by auto
qed

lemma shufflePeers_set:
  assumes "shufflePeers ps st = (ps', st')"
  shows "set ps' = set ps" "distinct ps' \<longleftrightarrow> distinct ps" "length ps' = length ps"
  using shufflePeers_mset(1) [OF assms] by (metis set_mset_mset, metis mset_eq_imp_distinct_iff, metis size_mset)

lemma shufflePeers_frame [frame_intros]: "shufflePeers ps st = (ps', st') \<Longrightarrow> router_frame st st'"
  by (auto simp: shufflePeers_def router_frame_def Let_def split: prod.splits)

text \<open>The loop's last turn, and what it does not touch.\<close>

lemma shuffle_loop_snoc:
  "shuffle_loop (Suc k) i xs e =
     (let (ys, e1) = shuffle_loop k i xs e; (r, e2) = draw e1
      in (swap (i + k) (r mod (i + k + 1)) ys, e2))"
proof (induction k arbitrary: i xs e)
  case (Suc k)
  obtain r e1 where d: "draw e = (r, e1)" by force
  have "shuffle_loop (Suc (Suc k)) i xs e = shuffle_loop (Suc k) (Suc i) (swap i (r mod (i + 1)) xs) e1"
    by (simp add: d Let_def)
  also have "\<dots> = (let (ys, e1) = shuffle_loop (Suc k) i xs e; (r, e2) = draw e1
      in (swap (i + Suc k) (r mod (i + Suc k + 1)) ys, e2))"
    by (subst Suc.IH) (simp add: d Let_def)
  finally show ?case .
qed (simp add: Let_def)

lemma swap_append:
  assumes "i < length xs" "j < length xs" shows "swap i j (xs @ zs) = swap i j xs @ zs"
  using assms by (simp add: swap_def nth_append list_update_append)

lemma shuffle_loop_append:
  "k \<le> length xs \<Longrightarrow> shuffle_loop k 0 (xs @ zs) e = (fst (shuffle_loop k 0 xs e) @ zs, snd (shuffle_loop k 0 xs e))"
proof (induction k)
  case (Suc k)
  obtain ys e1 where ys: "shuffle_loop k 0 xs e = (ys, e1)" by force
  obtain r e2 where r: "draw e1 = (r, e2)" by force
  have len: "length ys = length xs"
    using mset_shuffle_loop [of 0 k xs e] Suc.prems ys by (metis Suc_leD add_0 fst_conv size_mset)
  have "r mod (k + 1) < length ys" using Suc.prems len
    by (metis Suc_eq_plus1 mod_less_divisor order_less_le_trans zero_less_Suc)
  then show ?case
    using Suc ys r len by (simp add: shuffle_loop_snoc swap_append del: shuffle_loop.simps)
qed simp

text \<open>Every permutation is the result of some choices: the shuffle can select any subset of peers.\<close>

lemma shuffle_complete:
  assumes "mset ys = mset xs"
  shows "\<exists>e. shuffle_loop (length xs) 0 xs (e @ rest) = (ys, rest)"
  using assms
proof (induction xs arbitrary: ys rest rule: rev_induct)
  case Nil
  then show ?case by (auto intro: exI [of _ "[]"])
next
  case (snoc x xs)
  let ?n = "length xs"
  have len: "length ys = Suc ?n" using snoc.prems by (metis length_append_singleton size_mset)
  have "x \<in> set ys" using snoc.prems by (metis in_set_conv_decomp set_mset_mset)
  then obtain j where j: "j < length ys" "ys ! j = x" by (auto simp: in_set_conv_nth)
  let ?zs = "swap ?n j ys"
  have last_zs: "?zs ! ?n = x" using j len by (auto simp: swap_def nth_list_update)
  have "?zs = butlast ?zs @ [x]"
    using last_zs len by (metis append_butlast_last_id diff_Suc_1 last_conv_nth length_0_conv length_swap nat.distinct(1))
  moreover have "mset ?zs = mset ys" using j len by (intro mset_swap_eq) auto
  ultimately have zs: "mset (butlast ?zs) = mset xs" "?zs = butlast ?zs @ [x]"
    using snoc.prems by (metis add_right_cancel mset_append, simp)
  then obtain e where e: "shuffle_loop ?n 0 xs (e @ j # rest) = (butlast ?zs, j # rest)"
    using snoc.IH by blast
  have "swap ?n j ?zs = ys" using j len by (auto simp: swap_def list_eq_iff_nth_eq nth_list_update)
  then have "shuffle_loop (length (xs @ [x])) 0 (xs @ [x]) ((e @ [j]) @ rest) = (ys, rest)"
    using e zs(2) j len
    by (simp add: shuffle_loop_snoc shuffle_loop_append draw_def del: shuffle_loop.simps)
  then show ?case by blast
qed

section \<open>Properties\<close>

text \<open>
  C40: \<open>shufflePeers\<close> returns a permutation of its argument, and every permutation is the result of some
  outcomes of \<open>rand.Intn\<close>: the choice of peers for the mesh, the fanout and gossip is not restricted.
\<close>

theorem shuffle_permutes:
  "(\<exists>e. fst (shufflePeers ps (st\<lparr>n_choices := e\<rparr>)) = qs) \<longleftrightarrow> mset qs = mset ps"
proof
  assume "\<exists>e. fst (shufflePeers ps (st\<lparr>n_choices := e\<rparr>)) = qs"
  then show "mset qs = mset ps" using shufflePeers_mset(1) by (metis prod.collapse)
next
  assume "mset qs = mset ps"
  then obtain e where "shuffle_loop (length ps) 0 ps (e @ []) = (qs, [])" using shuffle_complete by blast
  then show "\<exists>e. fst (shufflePeers ps (st\<lparr>n_choices := e\<rparr>)) = qs"
    by (intro exI [of _ e]) (simp add: shufflePeers_def)
qed

end
