(* ===== verification/Router.thy ===== *)
theory Router
  imports Peers
begin

text \<open>
  The interface \<open>PubSubRouter\<close> of \<open>pubsub.go\<close> as a record of its methods on the node, and the contract
  the pubsub loop relies on. A method that sends to a peer's queue may panic (the queue may be closed),
  so it returns an option. \<open>Attach\<close> only stores the back pointer, which the shared node replaces.
\<close>

record ('s, 'b, 'z) router_methods =
  rt_Protocols :: "('s, 'b, 'z) node_scheme \<Rightarrow> protocol list"
  rt_AddPeer :: "peer \<Rightarrow> protocol \<Rightarrow> ('s, 'b, 'z) node_scheme \<Rightarrow> ('s, 'b, 'z) node_scheme"
  rt_RemovePeer :: "peer \<Rightarrow> ('s, 'b, 'z) node_scheme \<Rightarrow> ('s, 'b, 'z) node_scheme"
  rt_HandleRPC :: "RPC \<Rightarrow> ('s, 'b, 'z) node_scheme \<Rightarrow> ('s, 'b, 'z) node_scheme option"
  rt_Publish :: "peer \<Rightarrow> pb_Message \<Rightarrow> ('s, 'b, 'z) node_scheme \<Rightarrow> ('s, 'b, 'z) node_scheme option"
  rt_Join :: "topic \<Rightarrow> ('s, 'b, 'z) node_scheme \<Rightarrow> ('s, 'b, 'z) node_scheme option"
  rt_Leave :: "topic \<Rightarrow> ('s, 'b, 'z) node_scheme \<Rightarrow> ('s, 'b, 'z) node_scheme option"

text \<open>
  \<open>keeps_frame I st m\<close>: on a node whose queues are open the operation returns, changes nothing but
  the queues, the connection manager's tags and the choices, and keeps the router's invariant.
\<close>

definition keeps_frame ::
  "(('s, 'b, 'z) node_scheme \<Rightarrow> bool) \<Rightarrow> ('s, 'b, 'z) node_scheme \<Rightarrow>
   ('s, 'b, 'z) node_scheme option \<Rightarrow> bool" where
  "keeps_frame I st m \<longleftrightarrow> (\<exists>st'. m = Some st' \<and> router_frame st st' \<and> I st')"

lemma keeps_frameI: "router_frame st st' \<Longrightarrow> I st' \<Longrightarrow> keeps_frame I st (Some st')"
  by (simp add: keeps_frame_def)

lemma keeps_frameE:
  assumes "keeps_frame I st m"
  obtains st' where "m = Some st'" "router_frame st st'" "I st'"
  using assms by (auto simp: keeps_frame_def)

text \<open>Sequencing and loops.\<close>

lemma keeps_frame_bind:
  assumes "keeps_frame I st m" "peers_ok st"
    and "\<And>s. router_frame st s \<Longrightarrow> I s \<Longrightarrow> peers_ok s \<Longrightarrow> keeps_frame I s (f s)"
  shows "keeps_frame I st (Option.bind m f)"
proof -
  obtain s where s: "m = Some s" "router_frame st s" "I s"
    using assms(1) by (rule keeps_frameE)
  have "keeps_frame I s (f s)" using s assms(2,3) frame_peers_ok by blast
  with s show ?thesis by (auto simp: keeps_frame_def intro: router_frame_trans)
qed

lemma keeps_frame_foldM:
  assumes "\<And>x s. x \<in> set xs \<Longrightarrow> I s \<Longrightarrow> peers_ok s \<Longrightarrow> keeps_frame I s (f x s)"
    and "I st" "peers_ok st"
  shows "keeps_frame I st (foldM f xs st)"
  using assms
proof (induction xs arbitrary: st)
  case Nil
  then show ?case by (simp add: keeps_frame_def)
next
  case (Cons x xs)
  have "keeps_frame I st (f x st)" using Cons.prems by simp
  then show ?case
    using Cons.prems by (auto intro!: keeps_frame_bind Cons.IH)
qed

lemma keeps_frame_choices:
  assumes "keeps_frame I (st\<lparr>n_choices := e\<rparr>) m" shows "keeps_frame I st m"
  using assms by (auto simp: keeps_frame_def router_frame_def)

lemma keeps_frame_trans:
  "router_frame st s \<Longrightarrow> keeps_frame I s m \<Longrightarrow> keeps_frame I st m"
  by (auto simp: keeps_frame_def intro: router_frame_trans)

lemma keeps_frame_try_send:
  assumes "peers_ok st" "I st" "\<And>s. node.more s = node.more st \<Longrightarrow> I s"
  shows "keeps_frame I st (map_option snd (try_send p out st))"
proof -
  obtain r st' where s: "try_send p out st = Some (r, st')" using try_send_total [OF assms(1)] by blast
  then have "node.more st' = node.more st"
    by (auto simp: try_send_def split: option.splits sent.splits)
  with s assms(3) show ?thesis by (auto simp: keeps_frame_def intro: try_send_frame)
qed

locale router =
  fixes rt :: "('s, 'b, 'z) router_methods"
    and rt_inv :: "('s, 'b, 'z) node_scheme \<Rightarrow> bool"
  assumes inv_own: "rt_inv st \<Longrightarrow> node.more st' = node.more st \<Longrightarrow> rt_inv st'"
    and add_peer: "rt_inv st \<Longrightarrow>
      router_frame st (rt_AddPeer rt p proto st) \<and> rt_inv (rt_AddPeer rt p proto st)"
    and remove_peer: "rt_inv st \<Longrightarrow>
      router_frame st (rt_RemovePeer rt p st) \<and> rt_inv (rt_RemovePeer rt p st)"
    and handle_rpc: "rt_inv st \<Longrightarrow> peers_ok st \<Longrightarrow> keeps_frame rt_inv st (rt_HandleRPC rt rpc st)"
    and publish: "rt_inv st \<Longrightarrow> peers_ok st \<Longrightarrow> keeps_frame rt_inv st (rt_Publish rt src msg st)"
    and join: "rt_inv st \<Longrightarrow> peers_ok st \<Longrightarrow> keeps_frame rt_inv st (rt_Join rt t st)"
    and leave: "rt_inv st \<Longrightarrow> peers_ok st \<Longrightarrow> keeps_frame rt_inv st (rt_Leave rt t st)"

end
