(* ===== verification/PubSub.thy ===== *)
theory PubSub
  imports Router
begin

text \<open>
  The cases of \<open>processLoop\<close> (\<open>pubsub.go\<close>) and the handlers they call, over the router's methods \<open>rt\<close>, the
  blacklist's methods \<open>bl\<close> and the time cache's methods \<open>tc\<close>. Each definition is one case: the loop takes one
  input at a time, so a case runs to its end before the next. The result \<open>None\<close> is a panic.

  Loops over the subscriptions of a topic and over the topics of a peer are folds over the keys: their turns
  change different objects, so the order is not observable. Loops whose order is observable use \<open>range_over\<close>.
\<close>

section \<open>Subscriptions on the heap\<close>

definition upd_sub ::
  "nat \<Rightarrow> (Subscription \<Rightarrow> Subscription) \<Rightarrow> ('s, 'b, 'z) node_scheme \<Rightarrow> ('s, 'b, 'z) node_scheme" where
  "upd_sub i f st =
     (case mget (n_subs st) i of None \<Rightarrow> st | Some sub \<Rightarrow> st\<lparr>n_subs := mput i (f sub) (n_subs st)\<rparr>)"

definition notify_topic ::
  "topic \<Rightarrow> PeerEvent \<Rightarrow> ('s, 'b, 'z) node_scheme \<Rightarrow> ('s, 'b, 'z) node_scheme" where
  "notify_topic topic evt st =
     (case mget (n_myTopics st) topic of
        None \<Rightarrow> st
      | Some subs \<Rightarrow> fold (\<lambda>i. upd_sub i (sendNotification evt)) (mkeys subs) st)"

definition notifyLeave :: "topic \<Rightarrow> peer \<Rightarrow> ('s, 'b, 'z) node_scheme \<Rightarrow> ('s, 'b, 'z) node_scheme" where
  "notifyLeave topic pid st = notify_topic topic \<lparr>ev_Type = PeerLeave, ev_Peer = pid\<rparr> st"

text \<open>\<open>select { case f.ch <- &Message{msg}: default: }\<close> for every subscription of every topic of the message.\<close>

definition deliver :: "pb_Message \<Rightarrow> nat \<Rightarrow> ('s, 'b, 'z) node_scheme \<Rightarrow> ('s, 'b, 'z) node_scheme option" where
  "deliver msg i st =
     (case mget (n_subs st) i of
        None \<Rightarrow> Some st
      | Some sub \<Rightarrow>
          (case chan_send msg (s_ch sub) of
             None \<Rightarrow> None
           | Some (Sent ch) \<Rightarrow> Some (st\<lparr>n_subs := mput i (sub\<lparr>s_ch := ch\<rparr>) (n_subs st)\<rparr>)
           | Some Full \<Rightarrow> Some st))"

definition notifySubs :: "pb_Message \<Rightarrow> ('s, 'b, 'z) node_scheme \<Rightarrow> ('s, 'b, 'z) node_scheme option" where
  "notifySubs msg st =
     foldM (\<lambda>topic st. foldM (deliver msg) (mkeys (mget0 (n_myTopics st) topic)) st) (m_TopicIDs msg) st"

section \<open>Announcing\<close>

definition getHelloPacket :: "('s, 'b, 'z) node_scheme \<Rightarrow> RPC \<times> ('s, 'b, 'z) node_scheme" where
  "getHelloPacket st =
     (let (ts, st1) = range_over (mkeys (n_myTopics st)) st
      in (rpcWithSubs (map (\<lambda>t. mkSubOpts t True) ts), st1))"

text \<open>A full queue schedules a retry: the new goroutine sleeps with its arguments.\<close>

definition doAnnounceRetry ::
  "peer \<Rightarrow> topic \<Rightarrow> bool \<Rightarrow> ('s, 'b, 'z) node_scheme \<Rightarrow> ('s, 'b, 'z) node_scheme option" where
  "doAnnounceRetry pid topic sub st =
     do {
       (r, st) \<leftarrow> try_send pid (rpcWithSubs [mkSubOpts topic sub]) st;
       Some (case r of
               QueueFull \<Rightarrow> st\<lparr>n_retries := n_retries st @ [(pid, topic, sub)]\<rparr>
             | _ \<Rightarrow> st)
     }"

definition announce ::
  "topic \<Rightarrow> bool \<Rightarrow> ('s, 'b, 'z) node_scheme \<Rightarrow> ('s, 'b, 'z) node_scheme option" where
  "announce topic sub st =
     (let (pids, st1) = range_over (mkeys (n_peers st)) st
      in foldM (\<lambda>pid. doAnnounceRetry pid topic sub) pids st1)"

text \<open>The thunk of \<open>announceRetry\<close>: the announcement is repeated if it still holds.\<close>

definition announceRetry ::
  "peer \<Rightarrow> topic \<Rightarrow> bool \<Rightarrow> ('s, 'b, 'z) node_scheme \<Rightarrow> ('s, 'b, 'z) node_scheme option" where
  "announceRetry pid topic sub st =
     (let ok = mhas (n_myTopics st) topic
      in if (ok \<and> sub) \<or> (\<not> ok \<and> \<not> sub) then doAnnounceRetry pid topic sub st else Some st)"

section \<open>Subscribing and cancelling\<close>

text \<open>The new subscription's address is the next free index of the heap; it is the response.\<close>

definition handleAddSubscription ::
  "('s, 'b, 'z) router_methods \<Rightarrow> Subscription \<Rightarrow> ('s, 'b, 'z) node_scheme \<Rightarrow>
   (nat \<times> ('s, 'b, 'z) node_scheme) option" where
  "handleAddSubscription rt sub st =
     (let t = s_topic sub; subs = mget0 (n_myTopics st) t
      in do {
           st \<leftarrow> (if mlen subs = 0 then do { st \<leftarrow> announce t True st; rt_Join rt t st } else Some st);
           let i = mlen (n_subs st);
           let sub = sub\<lparr>s_evtLog := fold (\<lambda>p. mput p PeerJoin) (mkeys (mget0 (n_topics st) t)) (s_evtLog sub)\<rparr>;
           Some (i, st\<lparr>n_subs := mput i sub (n_subs st),
                       n_myTopics := mput t (mput i () (mget0 (n_myTopics st) t)) (n_myTopics st)\<rparr>)
         })"

definition handleRemoveSubscription ::
  "('s, 'b, 'z) router_methods \<Rightarrow> nat \<Rightarrow> ('s, 'b, 'z) node_scheme \<Rightarrow> ('s, 'b, 'z) node_scheme option" where
  "handleRemoveSubscription rt i st =
     (case mget (n_subs st) i of
        None \<Rightarrow> Some st
      | Some sub \<Rightarrow>
          (let t = s_topic sub
           in case mget (n_myTopics st) t of
                None \<Rightarrow> Some st
              | Some subs \<Rightarrow>
                  do {
                    sub \<leftarrow> close_sub (sub\<lparr>s_cancelled := True\<rparr>);
                    let subs = mdel i subs;
                    let st = st\<lparr>n_subs := mput i sub (n_subs st), n_myTopics := mput t subs (n_myTopics st)\<rparr>;
                    if mlen subs = 0
                    then do {
                           st \<leftarrow> announce t False (st\<lparr>n_myTopics := mdel t (n_myTopics st)\<rparr>);
                           rt_Leave rt t st
                         }
                    else Some st
                  }))"

section \<open>Messages\<close>

definition seenMessage :: "'s seen_methods \<Rightarrow> gostring \<Rightarrow> ('s, 'b, 'z) node_scheme \<Rightarrow> bool" where
  "seenMessage tc mid st = tc_Has tc (n_seen st) mid"

definition markSeen ::
  "'s seen_methods \<Rightarrow> gostring \<Rightarrow> ('s, 'b, 'z) node_scheme \<Rightarrow> bool \<times> ('s, 'b, 'z) node_scheme" where
  "markSeen tc mid st =
     (if tc_Has tc (n_seen st) mid then (False, st) else (True, st\<lparr>n_seen := tc_Add tc mid (n_seen st)\<rparr>))"

definition subscribedToMsg :: "pb_Message \<Rightarrow> ('s, 'b, 'z) node_scheme \<Rightarrow> bool" where
  "subscribedToMsg msg st =
     (if mlen (n_myTopics st) = 0 then False
      else list_ex (\<lambda>t. mhas (n_myTopics st) t) (m_TopicIDs msg))"

text \<open>The call is recorded in the history variable \<open>n_published\<close>, which no operation reads.\<close>

definition publishMessage ::
  "('s, 'b, 'z) router_methods \<Rightarrow> peer \<Rightarrow> pb_Message \<Rightarrow> ('s, 'b, 'z) node_scheme \<Rightarrow>
   ('s, 'b, 'z) node_scheme option" where
  "publishMessage rt frm pmsg st =
     do {
       st \<leftarrow> notifySubs pmsg (st\<lparr>n_published := n_published st @ [pmsg]\<rparr>);
       rt_Publish rt frm pmsg st
     }"

definition pushMsg ::
  "('s, 'b, 'z) router_methods \<Rightarrow> 'b blacklist_methods \<Rightarrow> 's seen_methods \<Rightarrow> peer \<Rightarrow> pb_Message \<Rightarrow>
   ('s, 'b, 'z) node_scheme \<Rightarrow> ('s, 'b, 'z) node_scheme option" where
  "pushMsg rt bl tc src msg st =
     (if bl_Contains bl (n_blacklist st) src then Some st
      else if bl_Contains bl (n_blacklist st) (GetFrom msg) then Some st
      else if n_signStrict st \<and> m_Signature msg = None then Some st
      else let mid = msgID msg
           in if seenMessage tc mid st then Some st
              else do {
                     (ok, v) \<leftarrow> Push src msg (n_val st);
                     let st = st\<lparr>n_val := v\<rparr>;
                     if \<not> ok then Some st
                     else let (fresh, st) = markSeen tc mid st
                          in if fresh then publishMessage rt src msg st else Some st
                   })"

text \<open>One subscription option of an incoming message.\<close>

definition handle_subopt :: "peer \<Rightarrow> pb_SubOpts \<Rightarrow> ('s, 'b, 'z) node_scheme \<Rightarrow> ('s, 'b, 'z) node_scheme" where
  "handle_subopt src subopt st =
     (let t = GetTopicid subopt
      in if GetSubscribe subopt
         then let tmap = mget0 (n_topics st) t;
                  st = (if mhas (n_topics st) t then st else st\<lparr>n_topics := mput t tmap (n_topics st)\<rparr>)
              in if mhas tmap src then st
                 else notify_topic t \<lparr>ev_Type = PeerJoin, ev_Peer = src\<rparr>
                        (st\<lparr>n_topics := mput t (mput src () tmap) (n_topics st)\<rparr>)
         else case mget (n_topics st) t of
                None \<Rightarrow> st
              | Some tmap \<Rightarrow>
                  if mhas tmap src
                  then notifyLeave t src (st\<lparr>n_topics := mput t (mdel src tmap) (n_topics st)\<rparr>)
                  else st)"

definition handleIncomingRPC ::
  "('s, 'b, 'z) router_methods \<Rightarrow> 'b blacklist_methods \<Rightarrow> 's seen_methods \<Rightarrow> RPC \<Rightarrow>
   ('s, 'b, 'z) node_scheme \<Rightarrow> ('s, 'b, 'z) node_scheme option" where
  "handleIncomingRPC rt bl tc rpc st =
     do {
       let st = fold (handle_subopt (r_from rpc)) (r_Subscriptions rpc) st;
       st \<leftarrow> foldM (\<lambda>pmsg st. if \<not> subscribedToMsg pmsg st then Some st
                              else pushMsg rt bl tc (r_from rpc) pmsg st) (r_Publish rpc) st;
       rt_HandleRPC rt rpc st
     }"

section \<open>Peers\<close>

text \<open>A new queue with the hello packet in it, and the goroutine that will open the stream.\<close>

definition spawn_writer :: "peer \<Rightarrow> ('s, 'b, 'z) node_scheme \<Rightarrow> ('s, 'b, 'z) node_scheme" where
  "spawn_writer pid st =
     (let (hello, st) = getHelloPacket st
      in st\<lparr>n_spawned := n_spawned st @ [pid],
            n_peers := mput pid ((make_chan 32)\<lparr>ch_buf := [hello]\<rparr>) (n_peers st)\<rparr>)"

definition onNewPeers ::
  "'b blacklist_methods \<Rightarrow> peer \<Rightarrow> ('s, 'b, 'z) node_scheme \<Rightarrow> ('s, 'b, 'z) node_scheme" where
  "onNewPeers bl pid st =
     (if mhas (n_peers st) pid then st
      else if bl_Contains bl (n_blacklist st) pid then st
      else spawn_writer pid st)"

definition onNewPeerStream ::
  "('s, 'b, 'z) router_methods \<Rightarrow> 'b blacklist_methods \<Rightarrow> peer \<Rightarrow> protocol \<Rightarrow> ('s, 'b, 'z) node_scheme \<Rightarrow>
   ('s, 'b, 'z) node_scheme option" where
  "onNewPeerStream rt bl pid proto st =
     (case mget (n_peers st) pid of
        None \<Rightarrow> Some st
      | Some ch \<Rightarrow>
          if bl_Contains bl (n_blacklist st) pid
          then do { ch \<leftarrow> chan_close ch; Some (st\<lparr>n_peers := mput pid ch (n_peers st)\<rparr>) }
          else Some (rt_AddPeer rt pid proto st))"

definition onNewPeerError :: "peer \<Rightarrow> ('s, 'b, 'z) node_scheme \<Rightarrow> ('s, 'b, 'z) node_scheme" where
  "onNewPeerError pid st = st\<lparr>n_peers := mdel pid (n_peers st)\<rparr>"

text \<open>\<open>for t, tmap := range p.topics { if _, ok := tmap[pid]; ok { ... } }\<close>.\<close>

definition leave_topic :: "peer \<Rightarrow> topic \<Rightarrow> ('s, 'b, 'z) node_scheme \<Rightarrow> ('s, 'b, 'z) node_scheme" where
  "leave_topic pid t st =
     (let tmap = mget0 (n_topics st) t
      in if mhas tmap pid
         then notifyLeave t pid (st\<lparr>n_topics := mput t (mdel pid tmap) (n_topics st)\<rparr>)
         else st)"

definition drop_peer ::
  "('s, 'b, 'z) router_methods \<Rightarrow> peer \<Rightarrow> ('s, 'b, 'z) node_scheme \<Rightarrow> ('s, 'b, 'z) node_scheme" where
  "drop_peer rt pid st =
     (let st = st\<lparr>n_peers := mdel pid (n_peers st)\<rparr>;
          st = fold (leave_topic pid) (mkeys (n_topics st)) st
      in rt_RemovePeer rt pid st)"

text \<open>\<open>connected\<close> is what the host's network says about the peer.\<close>

definition onPeerDead ::
  "('s, 'b, 'z) router_methods \<Rightarrow> peer \<Rightarrow> bool \<Rightarrow> ('s, 'b, 'z) node_scheme \<Rightarrow> ('s, 'b, 'z) node_scheme option" where
  "onPeerDead rt pid connected st =
     (case mget (n_peers st) pid of
        None \<Rightarrow> Some st
      | Some ch \<Rightarrow>
          do {
            _ \<leftarrow> chan_close ch;
            Some (if connected then spawn_writer pid st else drop_peer rt pid st)
          })"

definition onBlacklistPeer ::
  "('s, 'b, 'z) router_methods \<Rightarrow> 'b blacklist_methods \<Rightarrow> peer \<Rightarrow> ('s, 'b, 'z) node_scheme \<Rightarrow>
   ('s, 'b, 'z) node_scheme option" where
  "onBlacklistPeer rt bl pid st =
     (let st = st\<lparr>n_blacklist := bl_Add bl pid (n_blacklist st)\<rparr>
      in case mget (n_peers st) pid of
           None \<Rightarrow> Some st
         | Some ch \<Rightarrow> do { _ \<leftarrow> chan_close ch; Some (drop_peer rt pid st) })"

section \<open>Queries and registration\<close>

definition onGetTopics :: "('s, 'b, 'z) node_scheme \<Rightarrow> topic list \<times> ('s, 'b, 'z) node_scheme" where
  "onGetTopics st = range_over (mkeys (n_myTopics st)) st"

definition onGetPeers :: "topic \<Rightarrow> ('s, 'b, 'z) node_scheme \<Rightarrow> peer list \<times> ('s, 'b, 'z) node_scheme" where
  "onGetPeers topic st =
     (if topic \<noteq> [] \<and> \<not> mhas (n_topics st) topic then ([], st)
      else let (pids, st1) = range_over (mkeys (n_peers st)) st
           in (filter (\<lambda>p. topic = [] \<or> mhas (mget0 (n_topics st) topic) p) pids, st1))"

definition onSendMsg ::
  "('s, 'b, 'z) router_methods \<Rightarrow> ('s, 'b, 'z) node_scheme \<Rightarrow> ('s, 'b, 'z) node_scheme option" where
  "onSendMsg rt st =
     (case ch_buf (n_sendMsg st) of
        [] \<Rightarrow> Some st
      | req # reqs \<Rightarrow>
          publishMessage rt (sr_from req) (sr_msg req)
            (st\<lparr>n_sendMsg := (n_sendMsg st)\<lparr>ch_buf := reqs\<rparr>\<rparr>))"

definition onAddVal ::
  "addValReq \<Rightarrow> ('s, 'b, 'z) node_scheme \<Rightarrow> val_error option \<times> ('s, 'b, 'z) node_scheme" where
  "onAddVal req st = (let (resp, v) = AddValidator req (n_val st) in (resp, st\<lparr>n_val := v\<rparr>))"

definition onRmVal :: "topic \<Rightarrow> ('s, 'b, 'z) node_scheme \<Rightarrow> val_error option \<times> ('s, 'b, 'z) node_scheme" where
  "onRmVal topic st = (let (resp, v) = RemoveValidator topic (n_val st) in (resp, st\<lparr>n_val := v\<rparr>))"

text \<open>\<open>ctx.Done()\<close>: the deferred function closes the queues; sending on \<open>p.peers\<close> ends with the loop.\<close>

definition onDone :: "('s, 'b, 'z) node_scheme \<Rightarrow> ('s, 'b, 'z) node_scheme option" where
  "onDone st =
     do {
       _ \<leftarrow> foldM (\<lambda>pid _. case mget (n_peers st) pid of None \<Rightarrow> Some () | Some ch \<Rightarrow> map_option (\<lambda>_. ()) (chan_close ch))
             (mkeys (n_peers st)) ();
       Some (st\<lparr>n_peers := mempty, n_topics := mempty\<rparr>)
     }"

section \<open>The loop\<close>

datatype loop_event =
    NewPeer peer
  | NewPeerStream peer protocol
  | NewPeerError peer
  | PeerDead peer bool
  | GetTopics
  | CancelSub nat
  | AddSub topic
  | GetPeers topic
  | Incoming RPC
  | PublishMsg pb_Message
  | SendMsg
  | AddVal addValReq
  | RmVal topic
  | EvalRetry nat
  | EvalHeartbeat
  | BlacklistPeer peer

text \<open>
  One turn of the loop. \<open>hb\<close> is the router's heartbeat, the other thunk that arrives on \<open>p.eval\<close>;
  \<open>EvalRetry k\<close> is the arrival of the \<open>k\<close>-th sleeping retry.
\<close>

definition loop_turn ::
  "('s, 'b, 'z) router_methods \<Rightarrow> 'b blacklist_methods \<Rightarrow> 's seen_methods \<Rightarrow>
   (('s, 'b, 'z) node_scheme \<Rightarrow> ('s, 'b, 'z) node_scheme option) \<Rightarrow> loop_event \<Rightarrow>
   ('s, 'b, 'z) node_scheme \<Rightarrow> ('s, 'b, 'z) node_scheme option" where
  "loop_turn rt bl tc hb ev st =
     (case ev of
        NewPeer pid \<Rightarrow> Some (onNewPeers bl pid st)
      | NewPeerStream pid proto \<Rightarrow> onNewPeerStream rt bl pid proto st
      | NewPeerError pid \<Rightarrow> Some (onNewPeerError pid st)
      | PeerDead pid connected \<Rightarrow> onPeerDead rt pid connected st
      | GetTopics \<Rightarrow> Some (snd (onGetTopics st))
      | CancelSub i \<Rightarrow> handleRemoveSubscription rt i st
      | AddSub t \<Rightarrow> map_option snd (handleAddSubscription rt (newSubscription t) st)
      | GetPeers t \<Rightarrow> Some (snd (onGetPeers t st))
      | Incoming rpc \<Rightarrow> handleIncomingRPC rt bl tc rpc st
      | PublishMsg msg \<Rightarrow> pushMsg rt bl tc (n_host st) msg st
      | SendMsg \<Rightarrow> onSendMsg rt st
      | AddVal req \<Rightarrow> Some (snd (onAddVal req st))
      | RmVal t \<Rightarrow> Some (snd (onRmVal t st))
      | EvalRetry k \<Rightarrow>
          (if k < length (n_retries st)
           then (case n_retries st ! k of (pid, topic, sub) \<Rightarrow>
                   announceRetry pid topic sub
                     (st\<lparr>n_retries := take k (n_retries st) @ drop (Suc k) (n_retries st)\<rparr>))
           else Some st)
      | EvalHeartbeat \<Rightarrow> hb st
      | BlacklistPeer pid \<Rightarrow> onBlacklistPeer rt bl pid st)"

end
