(* ===== verification/Pipeline.thy ===== *)
theory Pipeline
  imports PubSub
begin

text \<open>
  The asynchronous half of \<open>validation.go\<close>: the workers that take requests from the queue, and the
  goroutines that run the asynchronous validators of one message. Each definition is what such a
  goroutine does between two points where it can be interleaved with others:

  \<^item> \<open>validateWorker\<close>: a worker takes a request, checks the signature, marks the message, runs the inline
    validators and either drops the message, spawns \<open>doValidateTopic\<close>, or waits to send it;
  \<^item> \<open>begin_validateTopic\<close>: \<open>doValidateTopic\<close> takes the throttles of the message's validators;
  \<^item> \<open>end_validateTopic\<close>: its validators have answered and give the tokens back (the tokens of one message
    are given back together here, one after another in the code);
  \<^item> \<open>send_waiting\<close>: the blocking send on \<open>sendMsg\<close> succeeds, after which the global token is given back.

  A user validator is a function of the deadline, the source and the message; \<open>verify\<close> is
  \<open>verifyMessageSignature\<close> (theory \<open>Signing\<close>).
\<close>

section \<open>Definitions\<close>

definition validateMsg :: "topicVal \<Rightarrow> peer \<Rightarrow> pb_Message \<Rightarrow> bool" where
  "validateMsg val src msg =
     tv_validate val (if tv_timeout val > 0 then Some (tv_timeout val) else None) src msg"

definition validateSignature :: "(pb_Message \<Rightarrow> bool) \<Rightarrow> pb_Message \<Rightarrow> bool" where
  "validateSignature verify msg = verify msg"

definition validate ::
  "'s seen_methods \<Rightarrow> (pb_Message \<Rightarrow> bool) \<Rightarrow> nat list \<Rightarrow> peer \<Rightarrow> pb_Message \<Rightarrow>
   ('s, 'b, 'z) node_scheme \<Rightarrow> ('s, 'b, 'z) node_scheme" where
  "validate tc verify vals src msg st =
     (if m_Signature msg \<noteq> None \<and> \<not> validateSignature verify msg then st
      else let (fresh, st) = markSeen tc (msgID msg) st
           in if \<not> fresh then st
              else let heap = v_heap (n_val st);
                       inline = filter (\<lambda>r. tv_inline (heap ! r)) vals;
                       async = filter (\<lambda>r. \<not> tv_inline (heap ! r)) vals
                   in if \<not> list_all (\<lambda>r. validateMsg (heap ! r) src msg) inline then st
                      else if length async > 0
                      then (case acquire (v_throttle (n_val st)) of
                              Some t \<Rightarrow>
                                st\<lparr>n_val := (n_val st)\<lparr>v_throttle := t\<rparr>,
                                   n_async := n_async st @
                                     [\<lparr>as_vals = async, as_src = src, as_msg = msg, as_held = None\<rparr>]\<rparr>
                            | None \<Rightarrow> st)
                      else st\<lparr>n_waiting := n_waiting st @ [(\<lparr>sr_from = src, sr_msg = msg\<rparr>, False)]\<rparr>)"

definition validateWorker ::
  "'s seen_methods \<Rightarrow> (pb_Message \<Rightarrow> bool) \<Rightarrow> ('s, 'b, 'z) node_scheme \<Rightarrow> ('s, 'b, 'z) node_scheme option" where
  "validateWorker tc verify st =
     (case ch_buf (v_validateQ (n_val st)) of
        [] \<Rightarrow> None
      | req # reqs \<Rightarrow>
          Some (validate tc verify (vr_vals req) (vr_src req) (vr_msg req)
                  (st\<lparr>n_val := (n_val st)\<lparr>v_validateQ := (v_validateQ (n_val st))\<lparr>ch_buf := reqs\<rparr>\<rparr>\<rparr>)))"

text \<open>
  The throttles of the validators are taken in order; the first exhausted one ends the loop
  (\<open>validateSingleTopic\<close> is the case of one validator).
\<close>

fun acquire_vals :: "nat list \<Rightarrow> topicVal list \<Rightarrow> nat list \<times> bool \<times> topicVal list" where
  "acquire_vals [] heap = ([], True, heap)"
| "acquire_vals (r # rs) heap =
     (case acquire (tv_throttle (heap ! r)) of
        None \<Rightarrow> ([], False, heap)
      | Some t \<Rightarrow>
          let (held, ok, heap') = acquire_vals rs (heap[r := (heap ! r)\<lparr>tv_throttle := t\<rparr>])
          in (r # held, ok, heap'))"

definition release_vals :: "nat list \<Rightarrow> topicVal list \<Rightarrow> topicVal list" where
  "release_vals held heap = fold (\<lambda>r heap. heap[r := (heap ! r)\<lparr>tv_throttle := release (tv_throttle (heap ! r))\<rparr>]) held heap"

definition drop_nth :: "nat \<Rightarrow> 'a list \<Rightarrow> 'a list" where
  "drop_nth k xs = take k xs @ drop (Suc k) xs"

definition begin_validateTopic :: "nat \<Rightarrow> ('s, 'b, 'z) node_scheme \<Rightarrow> ('s, 'b, 'z) node_scheme option" where
  "begin_validateTopic k st =
     (if k < length (n_async st) \<and> as_held (n_async st ! k) = None
      then let a = n_async st ! k;
               (held, ok, heap) = acquire_vals (as_vals a) (v_heap (n_val st))
           in Some (st\<lparr>n_val := (n_val st)\<lparr>v_heap := heap\<rparr>,
                       n_async := (n_async st)[k := a\<lparr>as_held := Some (held, ok)\<rparr>]\<rparr>)
      else None)"

text \<open>A message that passed goes on to the send; a message that failed gives the global token back.\<close>

definition end_validateTopic :: "nat \<Rightarrow> ('s, 'b, 'z) node_scheme \<Rightarrow> ('s, 'b, 'z) node_scheme option" where
  "end_validateTopic k st =
     (if k < length (n_async st)
      then let a = n_async st ! k
           in case as_held a of
                None \<Rightarrow> None
              | Some (held, ok) \<Rightarrow>
                  let heap = v_heap (n_val st);
                      valid = ok \<and> list_all (\<lambda>r. validateMsg (heap ! r) (as_src a) (as_msg a)) (as_vals a);
                      v = (n_val st)\<lparr>v_heap := release_vals held heap\<rparr>;
                      st = st\<lparr>n_val := v, n_async := drop_nth k (n_async st)\<rparr>
                  in Some (if valid
                           then st\<lparr>n_waiting := n_waiting st @ [(\<lparr>sr_from = as_src a, sr_msg = as_msg a\<rparr>, True)]\<rparr>
                           else st\<lparr>n_val := v\<lparr>v_throttle := release (v_throttle v)\<rparr>\<rparr>)
      else None)"

definition send_waiting :: "nat \<Rightarrow> ('s, 'b, 'z) node_scheme \<Rightarrow> ('s, 'b, 'z) node_scheme option" where
  "send_waiting k st =
     (if k < length (n_waiting st) \<and> chan_room (n_sendMsg st)
      then let (req, token) = n_waiting st ! k;
               v = n_val st
           in Some (st\<lparr>n_sendMsg := (n_sendMsg st)\<lparr>ch_buf := ch_buf (n_sendMsg st) @ [req]\<rparr>,
                       n_waiting := drop_nth k (n_waiting st),
                       n_val := (if token then v\<lparr>v_throttle := release (v_throttle v)\<rparr> else v)\<rparr>)
      else None)"

section \<open>The pipeline's state and the contract of its invariants\<close>

text \<open>The part of the node that the pipeline works on, and the node's identity, which nothing changes.\<close>

record 's pipe =
  pi_strict :: bool
  pi_author :: "peer \<times> nat option \<times> peer"
  pi_val :: validation
  pi_seen :: 's
  pi_sendMsg :: "sendReq chan"
  pi_waiting :: "(sendReq \<times> bool) list"
  pi_async :: "asyncVal list"
  pi_published :: "pb_Message list"

definition pipe_of :: "('s, 'b, 'z) node_scheme \<Rightarrow> 's pipe" where
  "pipe_of st =
     \<lparr>pi_strict = n_signStrict st, pi_author = (n_host st, n_signKey st, n_signID st), pi_val = n_val st, pi_seen = n_seen st, pi_sendMsg = n_sendMsg st, pi_waiting = n_waiting st,
      pi_async = n_async st, pi_published = n_published st\<rparr>"

lemma pipe_of_frame: "router_frame st st' \<Longrightarrow> pipe_of st' = pipe_of st"
  by (simp add: router_frame_def pipe_of_def)

lemma pipe_of_other [simp]:
  "pipe_of (st\<lparr>n_counter := c\<rparr>) = pipe_of st" "pipe_of (st\<lparr>n_myTopics := T\<rparr>) = pipe_of st"
  "pipe_of (st\<lparr>n_subs := H\<rparr>) = pipe_of st" "pipe_of (st\<lparr>n_topics := ts\<rparr>) = pipe_of st"
  "pipe_of (st\<lparr>n_blacklist := b\<rparr>) = pipe_of st" "pipe_of (st\<lparr>n_peers := P\<rparr>) = pipe_of st"
  "pipe_of (st\<lparr>n_retries := R\<rparr>) = pipe_of st" "pipe_of (st\<lparr>n_spawned := sp\<rparr>) = pipe_of st"
  "pipe_of (st\<lparr>n_tags := tg\<rparr>) = pipe_of st" "pipe_of (st\<lparr>n_clock := cl\<rparr>) = pipe_of st"
  "pipe_of (st\<lparr>n_choices := e\<rparr>) = pipe_of st"
  by (simp_all add: pipe_of_def)

lemma pipe_of_own [simp]:
  "pipe_of (st\<lparr>n_val := v\<rparr>) = (pipe_of st)\<lparr>pi_val := v\<rparr>"
  "pipe_of (st\<lparr>n_seen := sn\<rparr>) = (pipe_of st)\<lparr>pi_seen := sn\<rparr>"
  "pipe_of (st\<lparr>n_sendMsg := q\<rparr>) = (pipe_of st)\<lparr>pi_sendMsg := q\<rparr>"
  "pipe_of (st\<lparr>n_waiting := w\<rparr>) = (pipe_of st)\<lparr>pi_waiting := w\<rparr>"
  "pipe_of (st\<lparr>n_async := a\<rparr>) = (pipe_of st)\<lparr>pi_async := a\<rparr>"
  "pipe_of (st\<lparr>n_published := pb\<rparr>) = (pipe_of st)\<lparr>pi_published := pb\<rparr>"
  by (simp_all add: pipe_of_def)

lemma pipe_of_sel [simp]:
  "pi_strict (pipe_of st) = n_signStrict st" "pi_author (pipe_of st) = (n_host st, n_signKey st, n_signID st)"
  "pi_val (pipe_of st) = n_val st" "pi_seen (pipe_of st) = n_seen st" "pi_sendMsg (pipe_of st) = n_sendMsg st"
  "pi_waiting (pipe_of st) = n_waiting st" "pi_async (pipe_of st) = n_async st"
  "pi_published (pipe_of st) = n_published st"
  by (simp_all add: pipe_of_def)

text \<open>
  What the loop does with the pipeline: it offers a message to the queue, publishes a fresh message that
  the queue did not take, publishes a message that came back from the validators, and registers and removes
  validators; a node that demands signatures does the first two with signed messages only. \<open>J\<close> is a property
  of the pipeline that those moves keep and that keeps the offer from panicking, provided that all messages
  the loop is given satisfy \<open>adm\<close>.
\<close>

locale pipeline =
  fixes tc :: "'s seen_methods" and J :: "'s pipe \<Rightarrow> bool" and adm :: "pb_Message \<Rightarrow> bool"
  assumes offer: "J p \<Longrightarrow> (pi_strict p \<longrightarrow> m_Signature msg \<noteq> None) \<Longrightarrow> adm msg \<Longrightarrow>
      \<exists>ok v. Push src msg (pi_val p) = Some (ok, v) \<and> J (p\<lparr>pi_val := v\<rparr>)"
    and publish_fresh: "J p \<Longrightarrow> (pi_strict p \<longrightarrow> m_Signature msg \<noteq> None) \<Longrightarrow> adm msg \<Longrightarrow>
      Push src msg (pi_val p) = Some (True, pi_val p) \<Longrightarrow> \<not> tc_Has tc (pi_seen p) (msgID msg) \<Longrightarrow>
      J (p\<lparr>pi_seen := tc_Add tc (msgID msg) (pi_seen p), pi_published := pi_published p @ [msg]\<rparr>)"
    and publish_validated: "J p \<Longrightarrow> ch_buf (pi_sendMsg p) = req # reqs \<Longrightarrow>
      J (p\<lparr>pi_sendMsg := (pi_sendMsg p)\<lparr>ch_buf := reqs\<rparr>, pi_published := pi_published p @ [sr_msg req]\<rparr>)"
    and register: "J p \<Longrightarrow> J (p\<lparr>pi_val := snd (AddValidator r (pi_val p))\<rparr>)"
    and remove: "J p \<Longrightarrow> J (p\<lparr>pi_val := snd (RemoveValidator t (pi_val p))\<rparr>)"

end
