(* ===== verification/FloodSub.thy ===== *)
theory FloodSub
  imports Router
begin

text \<open>
  \<open>floodsub.go\<close>: a message goes to every peer that subscribes to one of its topics, except to the
  peer it came from and to its author. All other methods do nothing.
\<close>

record ('s, 'b) floodsub = "('s, 'b) node" +
  fs_protocols :: "protocol list"

text \<open>The set \<open>tosend\<close> of the peers in the topics of a message.\<close>

fun topic_peers :: "(topic, (peer, unit) alist) alist \<Rightarrow> topic list \<Rightarrow> (peer, unit) alist \<Rightarrow> (peer, unit) alist" where
  "topic_peers topics [] tosend = tosend"
| "topic_peers topics (topic # ts) tosend =
     (case mget topics topic of
        None \<Rightarrow> topic_peers topics ts tosend
      | Some tmap \<Rightarrow> topic_peers topics ts (fold (\<lambda>p. mput p ()) (mkeys tmap) tosend))"

definition fs_Publish :: "peer \<Rightarrow> pb_Message \<Rightarrow> ('s, 'b, 'z) node_scheme \<Rightarrow> ('s, 'b, 'z) node_scheme option" where
  "fs_Publish src msg st =
     (let tosend = topic_peers (n_topics st) (m_TopicIDs msg) mempty;
          out = rpcWithMessages [msg];
          (pids, st1) = range_over (mkeys tosend) st
      in foldM (\<lambda>pid st. if pid = src \<or> pid = GetFrom msg then Some st
                         else map_option snd (try_send pid out st)) pids st1)"

definition floodsub_router :: "('s, 'b, 'z floodsub_ext) router_methods" where
  "floodsub_router =
     \<lparr>rt_Protocols = fs_protocols, rt_AddPeer = (\<lambda>p proto st. st), rt_RemovePeer = (\<lambda>p st. st),
      rt_HandleRPC = (\<lambda>rpc. Some), rt_Publish = fs_Publish,
      rt_Join = (\<lambda>t. Some), rt_Leave = (\<lambda>t. Some)\<rparr>"

section \<open>What Publish sends\<close>

text \<open>The peers that subscribe to a topic of the message.\<close>

definition subscribers :: "('s, 'b, 'z) node_scheme \<Rightarrow> pb_Message \<Rightarrow> peer set" where
  "subscribers st msg = (\<Union>t \<in> set (m_TopicIDs msg). mdom (mget0 (n_topics st) t))"

lemma mdom_topic_peers [simp]:
  "mdom (topic_peers topics ts tosend) = (\<Union>t \<in> set ts. mdom (mget0 topics t)) \<union> mdom tosend"
  by (induction ts arbitrary: tosend) (auto simp: mdom_fold_mput split: option.splits)

lemma fs_Publish_spec:
  assumes "peers_ok st"
  shows "\<exists>st'. fs_Publish src msg st = Some st' \<and> router_frame st st' \<and> node.more st' = node.more st \<and>
    (\<forall>p. outbox st' p =
       (if p \<in> subscribers st msg \<and> p \<noteq> src \<and> p \<noteq> GetFrom msg \<and> has_room st p
        then outbox st p @ [rpcWithMessages [msg]] else outbox st p))"
proof -
  let ?tosend = "topic_peers (n_topics st) (m_TopicIDs msg) mempty"
  obtain pids st1 where r: "range_over (mkeys ?tosend) st = (pids, st1)" by force
  note range = range_over_set [OF r]
  obtain e where st1: "st1 = st\<lparr>n_choices := e\<rparr>" using range(4) by blast
  let ?ps = "filter (\<lambda>p. \<not> (p = src \<or> p = GetFrom msg)) pids"
  have ok: "peers_ok st1" using assms by (simp add: st1 peers_ok_def)
  have "distinct ?ps" using range(2) by simp
  from send_all_spec [OF ok this, of "rpcWithMessages [msg]"] obtain st' P where
    st': "send_all (rpcWithMessages [msg]) ?ps st1 = Some st'" "router_frame st1 st'" "st' = st1\<lparr>n_peers := P\<rparr>"
    and box: "\<And>p. outbox st' p = (if p \<in> set ?ps \<and> has_room st1 p then outbox st1 p @ [rpcWithMessages [msg]]
                                   else outbox st1 p)"
    by blast
  have "fs_Publish src msg st = Some st'"
    using st'(1) by (simp add: fs_Publish_def r foldM_skip send_all_def)
  moreover have "router_frame st st'" using range_over_frame [OF r] st'(2) by (rule router_frame_trans)
  moreover have "node.more st' = node.more st" by (simp add: st'(3) st1)
  moreover have "set pids = subscribers st msg" using range(1) by (simp add: subscribers_def)
  ultimately show ?thesis
    by (auto simp: box st1)
qed

interpretation flood: router "floodsub_router :: ('s, 'b, 'z floodsub_ext) router_methods" "\<lambda>_. True"
proof unfold_locales
  show "keeps_frame (\<lambda>_. True) st (rt_Publish floodsub_router src msg st)"
    if "peers_ok st" for st :: "('s, 'b, 'z floodsub_ext) node_scheme" and src msg
    using fs_Publish_spec [OF that, of src msg] by (auto simp: floodsub_router_def keeps_frame_def)
qed (auto simp: floodsub_router_def keeps_frame_def)

section \<open>Properties\<close>

text \<open>
  C31: floodsub's \<open>Publish\<close> returns and puts the message into the queue of exactly the peers that
  subscribe to one of its topics, are neither the sender nor the author and have room; every other queue
  and the rest of the node stay as they are.
\<close>

theorem floodsub_publish:
  assumes "peers_ok st"
  shows "\<exists>st'. rt_Publish floodsub_router src msg st = Some st' \<and> router_frame st st' \<and>
    (\<forall>p. outbox st' p =
       (if p \<in> subscribers st msg - {src, GetFrom msg} \<and> has_room st p
        then outbox st p @ [rpcWithMessages [msg]] else outbox st p))"
  using fs_Publish_spec [OF assms, of src msg] by (auto simp: floodsub_router_def)

theorem floodsub_publish_witness:
  "\<exists>st'. rt_Publish floodsub_router [0] (text_msg [0] [1] [str ''art'']) (sample_node () () \<lparr>fs_protocols = []\<rparr>) = Some st' \<and>
     outbox st' [1] = [rpcWithMessages [text_msg [0] [1] [str ''art'']]]"
  using floodsub_publish [OF sample_node_ok, where src = "[0]" and msg = "text_msg [0] [1] [str ''art'']"
      and seen1 = "()" and bl1 = "()" and z1 = "\<lparr>fs_protocols = []\<rparr>"]
  by (fastforce simp: subscribers_def)

end
