(* ===== verification/RandomSub.thy ===== *)
theory RandomSub
  imports Router
begin

text \<open>
  \<open>randomsub.go\<close>: a message goes to every floodsub peer of its topics and to at most \<open>RandomSubD\<close> of
  the other peers, drawn at random.
\<close>

definition RandomSubD :: nat where "RandomSubD = 6"

record ('s, 'b) randomsub = "('s, 'b) node" +
  rs_peers :: "(peer, protocol) alist"

definition rs_Protocols :: "('s, 'b, 'z) randomsub_scheme \<Rightarrow> protocol list" where
  "rs_Protocols st = [RandomSubID, FloodSubID]"

definition rs_AddPeer :: "peer \<Rightarrow> protocol \<Rightarrow> ('s, 'b, 'z) randomsub_scheme \<Rightarrow> ('s, 'b, 'z) randomsub_scheme" where
  "rs_AddPeer p proto st = st\<lparr>rs_peers := mput p proto (rs_peers st)\<rparr>"

definition rs_RemovePeer :: "peer \<Rightarrow> ('s, 'b, 'z) randomsub_scheme \<Rightarrow> ('s, 'b, 'z) randomsub_scheme" where
  "rs_RemovePeer p st = st\<lparr>rs_peers := mdel p (rs_peers st)\<rparr>"

text \<open>
  One topic's peers are split into \<open>tosend\<close> (floodsub) and \<open>rspeers\<close> (all others, also those whose
  protocol is not known).
\<close>

definition rs_split ::
  "(peer, protocol) alist \<Rightarrow> peer \<Rightarrow> peer \<Rightarrow> peer \<Rightarrow>
   (peer, unit) alist \<times> (peer, unit) alist \<Rightarrow> (peer, unit) alist \<times> (peer, unit) alist" where
  "rs_split protos frm src p = (\<lambda>(tosend, rspeers).
     if p = frm \<or> p = src then (tosend, rspeers)
     else if mget protos p = Some FloodSubID then (mput p () tosend, rspeers)
     else (tosend, mput p () rspeers))"

fun rs_collect ::
  "(peer, protocol) alist \<Rightarrow> (topic, (peer, unit) alist) alist \<Rightarrow> peer \<Rightarrow> peer \<Rightarrow> topic list \<Rightarrow>
   (peer, unit) alist \<times> (peer, unit) alist \<Rightarrow> (peer, unit) alist \<times> (peer, unit) alist" where
  "rs_collect protos topics frm src [] acc = acc"
| "rs_collect protos topics frm src (topic # ts) acc =
     (case mget topics topic of
        None \<Rightarrow> rs_collect protos topics frm src ts acc
      | Some tmap \<Rightarrow>
          rs_collect protos topics frm src ts (fold (rs_split protos frm src) (mkeys tmap) acc))"

definition rs_select ::
  "(peer, unit) alist \<Rightarrow> (peer, unit) alist \<Rightarrow> ('s, 'b, 'z) node_scheme \<Rightarrow>
   (peer, unit) alist \<times> ('s, 'b, 'z) node_scheme" where
  "rs_select tosend rspeers st =
     (if mlen rspeers > RandomSubD
      then let (xpeers, st1) = peerMapToList rspeers st;
               (xpeers, st2) = shufflePeers xpeers st1
           in (fold (\<lambda>p. mput p ()) (take RandomSubD xpeers) tosend, st2)
      else (fold (\<lambda>p. mput p ()) (mkeys rspeers) tosend, st))"

definition rs_Publish ::
  "peer \<Rightarrow> pb_Message \<Rightarrow> ('s, 'b, 'z) randomsub_scheme \<Rightarrow> ('s, 'b, 'z) randomsub_scheme option" where
  "rs_Publish frm msg st =
     (let (tosend, rspeers) =
            rs_collect (rs_peers st) (n_topics st) frm (GetFrom msg) (m_TopicIDs msg) (mempty, mempty);
          (tosend, st1) = rs_select tosend rspeers st;
          out = rpcWithMessages [msg];
          (ps, st2) = range_over (mkeys tosend) st1
      in foldM (\<lambda>p st. map_option snd (try_send p out st)) ps st2)"

definition randomsub_router :: "('s, 'b, 'z randomsub_ext) router_methods" where
  "randomsub_router =
     \<lparr>rt_Protocols = rs_Protocols, rt_AddPeer = rs_AddPeer, rt_RemovePeer = rs_RemovePeer,
      rt_HandleRPC = (\<lambda>rpc. Some), rt_Publish = rs_Publish,
      rt_Join = (\<lambda>t. Some), rt_Leave = (\<lambda>t. Some)\<rparr>"

section \<open>What Publish sends\<close>

definition rs_eligible :: "('s, 'b, 'z) node_scheme \<Rightarrow> peer \<Rightarrow> pb_Message \<Rightarrow> peer set" where
  "rs_eligible st frm msg =
     (\<Union>t \<in> set (m_TopicIDs msg). mdom (mget0 (n_topics st) t)) - {frm, GetFrom msg}"

definition rs_floods :: "('s, 'b, 'z) randomsub_scheme \<Rightarrow> peer set" where
  "rs_floods st = {p. mget (rs_peers st) p = Some FloodSubID}"

lemma rs_split_fold:
  "mdom (fst (fold (rs_split protos frm src) ps acc)) =
     {p \<in> set ps - {frm, src}. mget protos p = Some FloodSubID} \<union> mdom (fst acc)"
  "mdom (snd (fold (rs_split protos frm src) ps acc)) =
     {p \<in> set ps - {frm, src}. mget protos p \<noteq> Some FloodSubID} \<union> mdom (snd acc)"
  by (induction ps arbitrary: acc) (auto simp: rs_split_def split: prod.splits if_splits)

lemma rs_collect_eq:
  "mdom (fst (rs_collect protos topics frm src ts acc)) =
     {p \<in> (\<Union>t \<in> set ts. mdom (mget0 topics t)) - {frm, src}. mget protos p = Some FloodSubID} \<union> mdom (fst acc)"
  "mdom (snd (rs_collect protos topics frm src ts acc)) =
     {p \<in> (\<Union>t \<in> set ts. mdom (mget0 topics t)) - {frm, src}. mget protos p \<noteq> Some FloodSubID} \<union> mdom (snd acc)"
  by (induction ts arbitrary: acc) (auto simp: rs_split_fold split: option.splits)

text \<open>The selected set: all of \<open>tosend\<close>, and \<open>min RandomSubD n\<close> of the \<open>n\<close> random peers.\<close>

lemma rs_select_spec:
  assumes "rs_select tosend rspeers st = (sel, st')"
  shows "\<exists>R. mdom sel = mdom tosend \<union> R \<and> R \<subseteq> mdom rspeers \<and> card R = min RandomSubD (mlen rspeers)"
    and "\<exists>e. st' = st\<lparr>n_choices := e\<rparr>"
proof -
  have "(\<exists>R. mdom sel = mdom tosend \<union> R \<and> R \<subseteq> mdom rspeers \<and> card R = min RandomSubD (mlen rspeers)) \<and>
    (\<exists>e. st' = st\<lparr>n_choices := e\<rparr>)"
  proof (cases "mlen rspeers > RandomSubD")
    case True
    obtain xs st1 where x: "peerMapToList rspeers st = (xs, st1)" by force
    obtain ys st2 where y: "shufflePeers xs st1 = (ys, st2)" by force
    note r = range_over_set [OF x [unfolded peerMapToList_def]] and s = shufflePeers_set [OF y]
    have d: "distinct ys" "set ys = mdom rspeers" "length ys = mlen rspeers" using r s by auto
    have "card (set (take RandomSubD ys)) = length (take RandomSubD ys)"
      using d(1) by (intro distinct_card distinct_take)
    then have "card (set (take RandomSubD ys)) = RandomSubD" using d(3) True by simp
    moreover have "set (take RandomSubD ys) \<subseteq> mdom rspeers" using set_take_subset [of RandomSubD ys] unfolding d(2) .
    moreover have "sel = fold (\<lambda>p. mput p ()) (take RandomSubD ys) tosend" "st' = st2"
      using assms True x y by (auto simp: rs_select_def)
    ultimately show ?thesis
      using True r(4) shufflePeers_mset(2) [OF y] by (auto simp: mdom_fold_mput)
  next
    case False
    then have "sel = fold (\<lambda>p. mput p ()) (mkeys rspeers) tosend" "st' = st"
      using assms by (auto simp: rs_select_def)
    then have "mdom sel = mdom tosend \<union> mdom rspeers" "st' = st\<lparr>n_choices := n_choices st\<rparr>"
      by (simp_all add: mdom_fold_mput Un_commute)
    moreover have "card (mdom rspeers) = min RandomSubD (mlen rspeers)"
      using False by (simp add: mlen_card)
    ultimately show ?thesis by blast
  qed
  then show "\<exists>R. mdom sel = mdom tosend \<union> R \<and> R \<subseteq> mdom rspeers \<and> card R = min RandomSubD (mlen rspeers)"
    and "\<exists>e. st' = st\<lparr>n_choices := e\<rparr>" by blast+
qed

lemma rs_Publish_spec:
  assumes "peers_ok st"
  shows "\<exists>st' R. rs_Publish frm msg st = Some st' \<and> router_frame st st' \<and> node.more st' = node.more st \<and>
    R \<subseteq> rs_eligible st frm msg - rs_floods st \<and>
    card R = min RandomSubD (card (rs_eligible st frm msg - rs_floods st)) \<and>
    (\<forall>p. outbox st' p =
       (if p \<in> (rs_eligible st frm msg \<inter> rs_floods st) \<union> R \<and> has_room st p
        then outbox st p @ [rpcWithMessages [msg]] else outbox st p))"
proof -
  obtain ts rs where c: "rs_collect (rs_peers st) (n_topics st) frm (GetFrom msg) (m_TopicIDs msg) (mempty, mempty) = (ts, rs)"
    by force
  have ts: "mdom ts = rs_eligible st frm msg \<inter> rs_floods st"
    and rs: "mdom rs = rs_eligible st frm msg - rs_floods st"
    using rs_collect_eq [of "rs_peers st" "n_topics st" frm "GetFrom msg" "m_TopicIDs msg" "(mempty, mempty)"]
    by (auto simp: c rs_eligible_def rs_floods_def)
  obtain sel st1 where sel: "rs_select ts rs st = (sel, st1)" by force
  note sp = rs_select_spec [OF sel]
  obtain R where R: "mdom sel = mdom ts \<union> R" "R \<subseteq> mdom rs" "card R = min RandomSubD (mlen rs)"
    using sp(1) by blast
  obtain pids st2 where r: "range_over (mkeys sel) st1 = (pids, st2)" by force
  note range = range_over_set [OF r]
  obtain e where st2: "st2 = st\<lparr>n_choices := e\<rparr>" using sp(2) range(4) by auto
  have ok: "peers_ok st2" using assms by (simp add: st2 peers_ok_def)
  have "distinct pids" using range(2) by simp
  from send_all_spec [OF ok this, of "rpcWithMessages [msg]"] obtain st' P where
    st': "send_all (rpcWithMessages [msg]) pids st2 = Some st'" "router_frame st2 st'" "st' = st2\<lparr>n_peers := P\<rparr>"
    and box: "\<And>p. outbox st' p = (if p \<in> set pids \<and> has_room st2 p then outbox st2 p @ [rpcWithMessages [msg]]
                                   else outbox st2 p)"
    by blast
  have pub: "rs_Publish frm msg st = Some st'"
    using st'(1) by (simp add: rs_Publish_def c sel r send_all_def)
  have frame: "router_frame st st'"
    using st'(2) by (rule router_frame_trans [rotated]) (simp add: st2 router_frame_def)
  have "set pids = (rs_eligible st frm msg \<inter> rs_floods st) \<union> R" using range(1) R(1) ts by simp
  then have "\<forall>p. outbox st' p =
       (if p \<in> (rs_eligible st frm msg \<inter> rs_floods st) \<union> R \<and> has_room st p
        then outbox st p @ [rpcWithMessages [msg]] else outbox st p)"
    using box by (simp add: st2)
  moreover have "node.more st' = node.more st" by (simp add: st'(3) st2)
  ultimately show ?thesis
    using pub frame R(2,3) rs by (auto simp: mlen_card intro!: exI [of _ st'] exI [of _ R])
qed

interpretation random: router "randomsub_router :: ('s, 'b, 'z randomsub_ext) router_methods" "\<lambda>_. True"
proof unfold_locales
  show "keeps_frame (\<lambda>_. True) st (rt_Publish randomsub_router src msg st)"
    if "peers_ok st" for st :: "('s, 'b, 'z randomsub_ext) node_scheme" and src msg
    using rs_Publish_spec [OF that, of src msg] by (auto simp: randomsub_router_def keeps_frame_def)
qed (auto simp: randomsub_router_def keeps_frame_def rs_AddPeer_def rs_RemovePeer_def router_frame_def)

lemma randomsub_router_Publish: "rt_Publish randomsub_router = rs_Publish"
  by (simp add: randomsub_router_def)

section \<open>Properties\<close>

text \<open>
  C32: randomsub's \<open>Publish\<close> returns and sends the message to every floodsub peer of its topics and to
  \<open>min RandomSubD n\<close> of the \<open>n\<close> others, none of them the sender or the author; a peer whose queue is full
  is skipped.
\<close>

theorem randomsub_publish:
  assumes "peers_ok st"
  shows "\<exists>st' R. rt_Publish randomsub_router frm msg st = Some st' \<and> router_frame st st' \<and>
    R \<subseteq> rs_eligible st frm msg - rs_floods st \<and>
    card R = min RandomSubD (card (rs_eligible st frm msg - rs_floods st)) \<and>
    (\<forall>p. outbox st' p =
       (if p \<in> (rs_eligible st frm msg \<inter> rs_floods st) \<union> R \<and> has_room st p
        then outbox st p @ [rpcWithMessages [msg]] else outbox st p))"
  unfolding randomsub_router_Publish using rs_Publish_spec [OF assms, of frm msg] by blast

theorem randomsub_publish_witness:
  "\<exists>st' (R :: peer set). rt_Publish randomsub_router [0] (text_msg [0] [1] [str ''art'']) (sample_node () () \<lparr>rs_peers = mempty\<rparr>) = Some st' \<and>
     R \<subseteq> {[1], [2]} \<and> card R = 2"
proof -
  let ?st = "sample_node () () \<lparr>rs_peers = mempty\<rparr>" and ?m = "text_msg [0] [1] [str ''art'']"
  have "rs_eligible ?st [0] ?m = {[1], [2]}" "rs_floods ?st = {}"
    by (auto simp: rs_eligible_def rs_floods_def sample_node_def)
  note elig = this
  have "card {[1], [2 :: byte]} = 2" by simp
  note elig = elig this
  obtain st' and R :: "peer set" where "rt_Publish randomsub_router [0] ?m ?st = Some st'" "R \<subseteq> {[1], [2]}" "card R = min RandomSubD 2"
    using randomsub_publish [OF sample_node_ok, where frm = "[0]" and msg = ?m
        and seen1 = "()" and bl1 = "()" and z1 = "\<lparr>rs_peers = mempty\<rparr>", unfolded elig Diff_empty] by blast
  then show ?thesis by (intro exI [of _ st'] exI [of _ R]) (simp add: RandomSubD_def)
qed

end
