(* ===== verification/MessageCache.thy ===== *)
theory MessageCache
  imports Wire
begin

text \<open>
  \<open>mcache.go\<close>: the window of recently forwarded messages. \<open>history\<close> is an array of slots, newest
  first; \<open>Put\<close> appends to slot 0, \<open>Shift\<close> drops the last slot together with its messages. Indexing an
  empty array and slicing past its end panic.
\<close>

section \<open>Data and operations\<close>

record CacheEntry =
  ce_mid :: gostring
  ce_topics :: "gostring list"

record MessageCache =
  mc_msgs :: "(gostring, pb_Message) alist"
  mc_history :: "CacheEntry list list"
  mc_gossip :: nat

definition NewMessageCache :: "nat \<Rightarrow> nat \<Rightarrow> MessageCache" where
  "NewMessageCache gossip history =
     \<lparr>mc_msgs = mempty, mc_history = replicate history [], mc_gossip = gossip\<rparr>"

definition Put :: "pb_Message \<Rightarrow> MessageCache \<Rightarrow> MessageCache option" where
  "Put msg mc =
     (let mid = msgID msg; mc1 = mc\<lparr>mc_msgs := mput mid msg (mc_msgs mc)\<rparr>
      in case mc_history mc of
           [] \<Rightarrow> None
         | h0 # hs \<Rightarrow>
             Some (mc1\<lparr>mc_history := (h0 @ [\<lparr>ce_mid = mid, ce_topics = m_TopicIDs msg\<rparr>]) # hs\<rparr>))"

definition Get :: "MessageCache \<Rightarrow> gostring \<Rightarrow> pb_Message option" where
  "Get mc mid = mget (mc_msgs mc) mid"

text \<open>\<open>for _, t := range entry.topics { if t == topic { append; break } }\<close>.\<close>

fun entry_mids :: "topic \<Rightarrow> CacheEntry \<Rightarrow> gostring list \<Rightarrow> gostring list" where
  "entry_mids topic entry [] = []"
| "entry_mids topic entry (t # ts) =
     (if t = topic then [ce_mid entry] else entry_mids topic entry ts)"

fun slot_mids :: "topic \<Rightarrow> CacheEntry list \<Rightarrow> gostring list" where
  "slot_mids topic [] = []"
| "slot_mids topic (entry # entries) =
     entry_mids topic entry (ce_topics entry) @ slot_mids topic entries"

definition GetGossipIDs :: "topic \<Rightarrow> MessageCache \<Rightarrow> gostring list option" where
  "GetGossipIDs topic mc =
     (if mc_gossip mc \<le> length (mc_history mc)
      then Some (concat (map (slot_mids topic) (take (mc_gossip mc) (mc_history mc))))
      else None)"

text \<open>\<open>for i := len(mc.history) - 2; i >= 0; i-- { mc.history[i+1] = mc.history[i] }\<close>.\<close>

fun shift_loop :: "nat \<Rightarrow> 'a list \<Rightarrow> 'a list" where
  "shift_loop 0 hs = hs"
| "shift_loop (Suc i) hs = shift_loop i (hs[i + 1 := hs ! i])"

definition Shift :: "MessageCache \<Rightarrow> MessageCache option" where
  "Shift mc =
     (if mc_history mc = [] then None
      else let last_slot = mc_history mc ! (length (mc_history mc) - 1);
               msgs = fold (\<lambda>entry. mdel (ce_mid entry)) last_slot (mc_msgs mc);
               hs = shift_loop (length (mc_history mc) - 1) (mc_history mc)
           in Some (mc\<lparr>mc_msgs := msgs, mc_history := hs[0 := []]\<rparr>))"

section \<open>What the operations compute\<close>

lemma entry_mids_eq: "entry_mids topic e ts = (if topic \<in> set ts then [ce_mid e] else [])"
  by (induction ts) auto

lemma slot_mids_eq: "slot_mids topic es = map ce_mid (filter (\<lambda>e. topic \<in> set (ce_topics e)) es)"
  by (induction es) (auto simp: entry_mids_eq)

lemma length_shift_loop [simp]: "length (shift_loop n hs) = length hs"
  by (induction n arbitrary: hs) auto

text \<open>The downward copying loop moves the first \<open>n\<close> slots up by one.\<close>

lemma shift_loop_eq:
  "n < length hs \<Longrightarrow> shift_loop n hs = take 1 hs @ take n hs @ drop (Suc n) hs"
proof (induction n arbitrary: hs)
  case 0
  then show ?case by (cases hs) auto
next
  case (Suc n)
  let ?hs = "hs[n + 1 := hs ! n]"
  from Suc.prems have "n < length ?hs" by simp
  then have "shift_loop (Suc n) hs = take 1 ?hs @ take n ?hs @ drop (Suc n) ?hs"
    using Suc.IH [of ?hs] by simp
  also have "take 1 ?hs = take 1 hs" by (cases hs) auto
  also have "take n ?hs = take n hs" by simp
  also have "drop (Suc n) ?hs = hs ! n # drop (Suc (Suc n)) hs"
    using Suc.prems by (simp add: drop_update_swap Cons_nth_drop_Suc [symmetric])
  also have "take n hs @ hs ! n # drop (Suc (Suc n)) hs = take (Suc n) hs @ drop (Suc (Suc n)) hs"
    using Suc.prems by (simp add: take_Suc_conv_app_nth)
  finally show ?case .
qed

lemma Shift_history:
  assumes "mc_history mc \<noteq> []"
  shows "Shift mc = Some (mc\<lparr>mc_msgs := fold (\<lambda>e. mdel (ce_mid e)) (last (mc_history mc)) (mc_msgs mc),
                             mc_history := [] # butlast (mc_history mc)\<rparr>)"
proof -
  obtain h hs where h: "mc_history mc = h # hs" using assms by (cases "mc_history mc") auto
  have "shift_loop (length hs) (h # hs) = h # butlast (h # hs)"
    using shift_loop_eq [of "length hs" "h # hs"] by (simp add: butlast_conv_take)
  then show ?thesis by (simp add: Shift_def h Let_def last_conv_nth)
qed

lemma Put_Some:
  "mc_history mc = h0 # hs \<Longrightarrow>
     Put m mc = Some (mc\<lparr>mc_msgs := mput (msgID m) m (mc_msgs mc),
       mc_history := (h0 @ [\<lparr>ce_mid = msgID m, ce_topics = m_TopicIDs m\<rparr>]) # hs\<rparr>)"
  by (simp add: Put_def Let_def)

lemma mget_fold_mdel: "mget (fold (\<lambda>e. mdel (f e)) es m) k = (if k \<in> f ` set es then None else mget m k)"
  by (induction es arbitrary: m) auto

lemma mdom_fold_mdel_f [simp]: "mdom (fold (\<lambda>e. mdel (f e)) es m) = mdom m - f ` set es"
  by (induction es arbitrary: m) auto

section \<open>Invariants\<close>

definition mids :: "CacheEntry list list \<Rightarrow> gostring list" where
  "mids hs = map ce_mid (concat hs)"

text \<open>
  \<open>mc_shape\<close> is what keeps every operation from panicking. \<open>mc_exact\<close> says that the cached messages
  are exactly those the history names, each named once: it holds as long as no message is put again
  while it is still in the window.
\<close>

definition mc_shape :: "MessageCache \<Rightarrow> bool" where
  "mc_shape mc \<longleftrightarrow> mc_history mc \<noteq> [] \<and> mc_gossip mc \<le> length (mc_history mc)"

definition mc_exact :: "MessageCache \<Rightarrow> bool" where
  "mc_exact mc \<longleftrightarrow> distinct (mids (mc_history mc)) \<and> mdom (mc_msgs mc) = set (mids (mc_history mc))"

text \<open>Weaker, and kept by every operation: a cached message is named in the history.\<close>

definition mc_bounded :: "MessageCache \<Rightarrow> bool" where
  "mc_bounded mc \<longleftrightarrow> mdom (mc_msgs mc) \<subseteq> set (mids (mc_history mc))"

text \<open>A message is filed under its own identifier. \<open>mc_ok\<close> is what a router keeps of its cache.\<close>

definition mc_filed :: "MessageCache \<Rightarrow> bool" where
  "mc_filed mc \<longleftrightarrow> (\<forall>mid m. mget (mc_msgs mc) mid = Some m \<longrightarrow> msgID m = mid)"

definition mc_ok :: "MessageCache \<Rightarrow> bool" where
  "mc_ok mc \<longleftrightarrow> mc_shape mc \<and> mc_bounded mc \<and> mc_filed mc"

lemma mids_simps [simp]:
  "mids [] = []" "mids (h # hs) = map ce_mid h @ mids hs" "mids (hs @ hs') = mids hs @ mids hs'"
  by (simp_all add: mids_def)

lemma mids_split: "hs \<noteq> [] \<Longrightarrow> mids hs = mids (butlast hs) @ map ce_mid (last hs)"
  by (metis append_butlast_last_id append_Nil2 mids_simps)

lemma mids_replicate [simp]: "mids (replicate n []) = []"
  by (induction n) auto

lemma New_shape [inv_intros]: "0 < h \<Longrightarrow> g \<le> h \<Longrightarrow> mc_shape (NewMessageCache g h)"
  by (simp add: mc_shape_def NewMessageCache_def)

lemma New_exact: "mc_exact (NewMessageCache g h)"
  by (simp add: mc_exact_def NewMessageCache_def)

lemma Put_shape [inv_intros]:
  assumes "mc_shape mc" shows "\<exists>mc'. Put m mc = Some mc' \<and> mc_shape mc'"
proof -
  obtain h hs where "mc_history mc = h # hs" using assms by (cases "mc_history mc") (auto simp: mc_shape_def)
  then show ?thesis using assms by (simp add: Put_Some mc_shape_def)
qed

lemma Shift_shape [inv_intros]:
  assumes "mc_shape mc" shows "\<exists>mc'. Shift mc = Some mc' \<and> mc_shape mc'"
  using assms by (auto simp: mc_shape_def Shift_history)

lemma GetGossipIDs_Some:
  "mc_shape mc \<Longrightarrow> GetGossipIDs t mc = Some (concat (map (slot_mids t) (take (mc_gossip mc) (mc_history mc))))"
  by (simp add: GetGossipIDs_def mc_shape_def)

lemma Put_exact:
  assumes "mc_exact mc" "Put m mc = Some mc'" "Get mc (msgID m) = None"
  shows "mc_exact mc'"
proof -
  have "msgID m \<notin> mdom (mc_msgs mc)" using assms(3) by (simp add: Get_def mem_mdom)
  then have "msgID m \<notin> set (mids (mc_history mc))" using assms(1) by (simp add: mc_exact_def)
  then show ?thesis
    using assms(1,2) by (cases "mc_history mc") (auto simp: Put_def Let_def mc_exact_def)
qed

lemma Shift_exact:
  assumes "mc_exact mc" "Shift mc = Some mc'"
  shows "mc_exact mc'"
proof -
  have ne: "mc_history mc \<noteq> []" using assms(2) by (auto simp: Shift_def)
  have "distinct (mids (butlast (mc_history mc)) @ map ce_mid (last (mc_history mc)))"
    and "mdom (mc_msgs mc) = set (mids (butlast (mc_history mc)) @ map ce_mid (last (mc_history mc)))"
    using assms(1) mids_split [OF ne] by (simp_all add: mc_exact_def)
  then show ?thesis
    using assms(2) by (auto simp: Shift_history [OF ne] mc_exact_def)
qed

lemma Put_bounded: "mc_bounded mc \<Longrightarrow> Put m mc = Some mc' \<Longrightarrow> mc_bounded mc'"
  by (cases "mc_history mc") (auto simp: Put_def Let_def mc_bounded_def)

lemma Shift_bounded:
  assumes "mc_bounded mc" "Shift mc = Some mc'"
  shows "mc_bounded mc'"
proof -
  have ne: "mc_history mc \<noteq> []" using assms(2) by (auto simp: Shift_def)
  show ?thesis
    using assms mids_split [OF ne] by (auto simp: Shift_history [OF ne] mc_bounded_def)
qed

lemma Put_filed: "mc_filed mc \<Longrightarrow> Put m mc = Some mc' \<Longrightarrow> mc_filed mc'"
  by (auto simp: Put_def Let_def mc_filed_def lookup_update split: list.splits if_splits)

lemma Shift_filed: "mc_filed mc \<Longrightarrow> Shift mc = Some mc' \<Longrightarrow> mc_filed mc'"
  by (auto simp: Shift_def Let_def mc_filed_def mget_fold_mdel split: if_splits)

lemma New_ok [inv_intros]: "0 < h \<Longrightarrow> g \<le> h \<Longrightarrow> mc_ok (NewMessageCache g h)"
  by (simp add: mc_ok_def New_shape) (simp add: mc_bounded_def mc_filed_def NewMessageCache_def)

lemma Put_ok [inv_intros]: "mc_ok mc \<Longrightarrow> \<exists>mc'. Put m mc = Some mc' \<and> mc_ok mc'"
  unfolding mc_ok_def using Put_shape Put_bounded Put_filed by meson

lemma Shift_ok [inv_intros]: "mc_ok mc \<Longrightarrow> \<exists>mc'. Shift mc = Some mc' \<and> mc_ok mc'"
  unfolding mc_ok_def using Shift_shape Shift_bounded Shift_filed by meson

section \<open>Runs of the cache\<close>

datatype mc_op = OpPut pb_Message | OpShift

fun mc_step :: "mc_op \<Rightarrow> MessageCache \<Rightarrow> MessageCache option" where
  "mc_step (OpPut m) mc = Put m mc"
| "mc_step OpShift mc = Shift mc"

fun shifts :: "mc_op list \<Rightarrow> nat" where
  "shifts [] = 0"
| "shifts (OpPut m # ops) = shifts ops"
| "shifts (OpShift # ops) = Suc (shifts ops)"

fun puts :: "mc_op list \<Rightarrow> gostring list" where
  "puts [] = []"
| "puts (OpPut m # ops) = msgID m # puts ops"
| "puts (OpShift # ops) = puts ops"

text \<open>
  \<open>aged k m mc\<close>: message \<open>m\<close> was put \<open>k\<close> shifts ago. It is named by slot \<open>k\<close> alone, and is cached
  exactly while that slot exists.
\<close>

definition aged :: "nat \<Rightarrow> pb_Message \<Rightarrow> MessageCache \<Rightarrow> bool" where
  "aged k m mc \<longleftrightarrow>
     (\<forall>i < length (mc_history mc). \<forall>e \<in> set (mc_history mc ! i).
        ce_mid e = msgID m \<longrightarrow> i = k \<and> ce_topics e = m_TopicIDs m) \<and>
     (k < length (mc_history mc) \<longrightarrow> (\<exists>e \<in> set (mc_history mc ! k). ce_mid e = msgID m)) \<and>
     Get mc (msgID m) = (if k < length (mc_history mc) then Some m else None)"

lemma aged_slotD:
  "aged k m mc \<Longrightarrow> i < length (mc_history mc) \<Longrightarrow> e \<in> set (mc_history mc ! i) \<Longrightarrow>
     ce_mid e = msgID m \<Longrightarrow> i = k \<and> ce_topics e = m_TopicIDs m"
  unfolding aged_def by blast

lemma aged_Put_self:
  assumes "mc_shape mc" "msgID m \<notin> set (mids (mc_history mc))" "Put m mc = Some mc'"
  shows "aged 0 m mc'"
proof -
  obtain h hs where h: "mc_history mc = h # hs"
    using assms(1) by (cases "mc_history mc") (auto simp: mc_shape_def)
  have fresh: "\<And>i e. i < length (h # hs) \<Longrightarrow> e \<in> set ((h # hs) ! i) \<Longrightarrow> ce_mid e \<noteq> msgID m"
    using assms(2) unfolding h mids_def by (metis imageI in_set_conv_nth list.set_map set_concat UN_I)
  have "i = 0 \<and> ce_topics e = m_TopicIDs m"
    if "i < length (mc_history mc')" "e \<in> set (mc_history mc' ! i)" "ce_mid e = msgID m" for i e
    using that assms(3) fresh [of i e] by (cases i) (auto simp: Put_Some [OF h])
  moreover have "\<exists>e \<in> set (mc_history mc' ! 0). ce_mid e = msgID m"
    using assms(3) by (auto simp: Put_Some [OF h])
  ultimately show ?thesis
    using assms(3) by (auto simp: aged_def Put_Some [OF h] Get_def)
qed

lemma aged_Put_other:
  assumes "aged k m mc" "Put m' mc = Some mc'" "msgID m' \<noteq> msgID m"
  shows "aged k m mc'"
proof -
  obtain h hs where h: "mc_history mc = h # hs"
    using assms(2) by (cases "mc_history mc") (auto simp: Put_def)
  let ?e = "\<lparr>ce_mid = msgID m', ce_topics = m_TopicIDs m'\<rparr>"
  have slot: "set (mc_history mc' ! i) = (if i = 0 then insert ?e (set (mc_history mc ! i)) else set (mc_history mc ! i))"
    for i using assms(2) by (cases i) (auto simp: Put_Some [OF h] h)
  have len: "length (mc_history mc') = length (mc_history mc)"
    using assms(2) by (auto simp: Put_Some [OF h] h)
  have "Get mc' (msgID m) = Get mc (msgID m)"
    using assms(2,3) by (auto simp: Put_Some [OF h] Get_def)
  with assms(1,3) show ?thesis
    by (auto simp: aged_def slot len split: if_splits)
qed

lemma aged_Shift:
  assumes "aged k m mc" "Shift mc = Some mc'"
  shows "aged (Suc k) m mc'"
proof -
  have ne: "mc_history mc \<noteq> []" using assms(2) by (auto simp: Shift_def)
  let ?h = "mc_history mc"
  have h': "mc_history mc' = [] # butlast ?h"
    and g': "Get mc' i = (if i \<in> ce_mid ` set (last ?h) then None else Get mc i)" for i
    using assms(2) by (auto simp: Shift_history [OF ne] Get_def mget_fold_mdel)
  have slot: "i < length ?h \<Longrightarrow> mc_history mc' ! i = (if i = 0 then [] else ?h ! (i - 1))" for i
    by (cases i) (simp_all add: h' nth_butlast)
  have len: "length (mc_history mc') = length ?h" using ne by (simp add: h')
  have lastslot: "last ?h = ?h ! (length ?h - 1)" using ne by (rule last_conv_nth)
  have pos: "length ?h - 1 < length ?h" using ne by simp
  have in_last: "msgID m \<in> ce_mid ` set (last ?h) \<longleftrightarrow> Suc k = length ?h"
  proof
    assume "msgID m \<in> ce_mid ` set (last ?h)"
    then have "length ?h - 1 = k" using assms(1) pos by (force simp: aged_def lastslot)
    then show "Suc k = length ?h" using ne by auto
  next
    assume "Suc k = length ?h"
    then have "k = length ?h - 1" "k < length ?h" by auto
    then obtain e where "e \<in> set (?h ! (length ?h - 1))" "ce_mid e = msgID m"
      using assms(1) unfolding aged_def by blast
    then show "msgID m \<in> ce_mid ` set (last ?h)" unfolding lastslot by force
  qed
  have "Get mc' (msgID m) = (if Suc k < length ?h then Some m else None)"
    using assms(1) in_last by (auto simp: g' aged_def)
  moreover have "i = Suc k \<and> ce_topics e = m_TopicIDs m"
    if at: "i < length ?h" "e \<in> set (mc_history mc' ! i)" "ce_mid e = msgID m" for i e
  proof -
    obtain j where "i = Suc j" "e \<in> set (?h ! j)" using at(1,2) by (cases i) (auto simp: slot)
    with aged_slotD [OF assms(1), of j e] at(1,3) show ?thesis by simp
  qed
  moreover have "\<exists>e \<in> set (mc_history mc' ! Suc k). ce_mid e = msgID m" if "Suc k < length ?h"
    using that assms(1) by (auto simp: slot aged_def)
  ultimately show ?thesis unfolding aged_def len by blast
qed

lemma aged_run:
  assumes "foldM mc_step ops mc = Some mc'" "aged k m mc" "msgID m \<notin> set (puts ops)"
  shows "aged (k + shifts ops) m mc'"
  using assms
proof (induction ops arbitrary: k mc)
  case (Cons c ops)
  then obtain mc1 where mc1: "mc_step c mc = Some mc1" "foldM mc_step ops mc1 = Some mc'"
    by (auto split: Option.bind_splits)
  have no: "msgID m \<notin> set (puts ops)" using Cons.prems(3) by (cases c) auto
  show ?case
  proof (cases c)
    case (OpPut m')
    then have "msgID m' \<noteq> msgID m" using Cons.prems(3) by auto
    then have "aged k m mc1" using OpPut mc1(1) aged_Put_other [OF Cons.prems(2)] by simp
    then show ?thesis using Cons.IH [OF mc1(2) _ no] OpPut by simp
  next
    case OpShift
    then have "aged (Suc k) m mc1" using mc1(1) aged_Shift [OF Cons.prems(2)] by simp
    then show ?thesis using Cons.IH [OF mc1(2) _ no, of "Suc k"] OpShift by simp
  qed
qed simp

lemma mc_step_shape: "mc_shape mc \<Longrightarrow> \<exists>mc'. mc_step c mc = Some mc' \<and> mc_shape mc'"
  by (cases c) (simp_all add: Put_shape Shift_shape)

lemma run_shape:
  "mc_shape mc \<Longrightarrow> \<exists>mc'. foldM mc_step ops mc = Some mc' \<and> mc_shape mc'"
  by (rule foldM_total [where I = mc_shape]) (auto simp: mc_step_shape)

lemma mc_step_dims:
  "mc_step c mc = Some mc' \<Longrightarrow> length (mc_history mc') = length (mc_history mc) \<and> mc_gossip mc' = mc_gossip mc"
  by (cases c; cases "mc_history mc = []") (auto simp: Put_def Let_def Shift_history Shift_def split: list.splits)

lemma run_dims:
  assumes "foldM mc_step ops mc = Some mc'"
  shows "length (mc_history mc') = length (mc_history mc) \<and> mc_gossip mc' = mc_gossip mc"
  by (rule foldM_rel [OF assms, where R = "\<lambda>mc mc'. length (mc_history mc') = length (mc_history mc)
        \<and> mc_gossip mc' = mc_gossip mc"]) (auto dest: mc_step_dims)

text \<open>An aged message is gossiped for its topics while it is younger than the gossip window.\<close>

lemma aged_gossip:
  assumes "mc_shape mc" "aged k m mc" "GetGossipIDs t mc = Some ids"
  shows "msgID m \<in> set ids \<longleftrightarrow> k < mc_gossip mc \<and> t \<in> set (m_TopicIDs m)"
proof -
  let ?h = "mc_history mc" and ?g = "mc_gossip mc"
  have g: "?g \<le> length ?h" using assms(1) by (simp add: mc_shape_def)
  have ids: "set ids = {ce_mid e | i e. i < ?g \<and> e \<in> set (?h ! i) \<and> t \<in> set (ce_topics e)}"
  proof -
    have "set (take ?g ?h) = {?h ! i | i. i < ?g}" using nth_image [OF g, symmetric] by auto
    then show ?thesis
      using assms(3) by (auto simp: GetGossipIDs_Some [OF assms(1)] slot_mids_eq; blast)
  qed
  show ?thesis
  proof
    assume "msgID m \<in> set ids"
    then obtain i e where "i < ?g" "e \<in> set (?h ! i)" "t \<in> set (ce_topics e)" "ce_mid e = msgID m"
      by (auto simp: ids)
    with aged_slotD [OF assms(2), of i e] g show "k < ?g \<and> t \<in> set (m_TopicIDs m)" by auto
  next
    assume k: "k < ?g \<and> t \<in> set (m_TopicIDs m)"
    then have "k < length ?h" using g by simp
    then obtain e where e: "e \<in> set (?h ! k)" "ce_mid e = msgID m"
      using assms(2) unfolding aged_def by blast
    with \<open>k < length ?h\<close> have "ce_topics e = m_TopicIDs m" using aged_slotD [OF assms(2)] by blast
    with k e show "msgID m \<in> set ids" unfolding ids by (metis (mono_tags, lifting) mem_Collect_eq)
  qed
qed

section \<open>Properties\<close>

text \<open>
  C22: a message put into the cache can be fetched for exactly as many shifts as the cache has slots, and
  its identifier is gossiped for its topics for exactly as many shifts as the gossip window has slots,
  whatever else is put and shifted meanwhile; no operation panics.
\<close>

theorem mcache_lifetime:
  assumes "mc_shape mc" "msgID m \<notin> set (mids (mc_history mc))" "msgID m \<notin> set (puts ops)"
  shows "\<exists>mc1 mc'. Put m mc = Some mc1 \<and> foldM mc_step ops mc1 = Some mc' \<and>
    Get mc' (msgID m) = (if shifts ops < length (mc_history mc) then Some m else None) \<and>
    (\<forall>t. \<exists>ids. GetGossipIDs t mc' = Some ids \<and>
       (msgID m \<in> set ids \<longleftrightarrow> shifts ops < mc_gossip mc \<and> t \<in> set (m_TopicIDs m)))"
proof -
  obtain mc1 where 1: "Put m mc = Some mc1" "mc_shape mc1" using Put_shape [OF assms(1)] by blast
  obtain mc' where 2: "foldM mc_step ops mc1 = Some mc'" "mc_shape mc'" using run_shape [OF 1(2)] by blast
  have aged: "aged (shifts ops) m mc'"
    using aged_run [OF 2(1) aged_Put_self [OF assms(1,2) 1(1)] assms(3)] by simp
  have dims: "length (mc_history mc') = length (mc_history mc) \<and> mc_gossip mc' = mc_gossip mc"
    using run_dims [of "OpPut m # ops" mc mc'] 1(1) 2(1) by simp
  have "Get mc' (msgID m) = (if shifts ops < length (mc_history mc) then Some m else None)"
    using aged dims by (simp add: aged_def)
  then show ?thesis
    using 1(1) 2 dims GetGossipIDs_Some [OF 2(2)] aged_gossip [OF 2(2) aged] by fastforce
qed

theorem mcache_lifetime_witness:
  "\<exists>mc1 mc'. Put (text_msg [7] [1] [[65]]) (NewMessageCache 3 5) = Some mc1 \<and>
     foldM mc_step [OpShift, OpPut (text_msg [7] [2] []), OpShift, OpShift] mc1 = Some mc' \<and>
     Get mc' [7, 1] = Some (text_msg [7] [1] [[65]])"
  using mcache_lifetime [of "NewMessageCache 3 5" "text_msg [7] [1] [[65]]"
      "[OpShift, OpPut (text_msg [7] [2] []), OpShift, OpShift]"]
  by (simp add: mc_shape_def NewMessageCache_def) blast

text \<open>
  While no message is put twice within the window, the cache holds exactly the messages its history
  names, each named once, so every gossiped identifier can be fetched.
\<close>

lemma mcache_exact:
  assumes "mc_shape mc" "mc_exact mc" "distinct (puts ops)" "set (puts ops) \<inter> mdom (mc_msgs mc) = {}"
  shows "\<exists>mc'. foldM mc_step ops mc = Some mc' \<and> mc_exact mc' \<and>
    (\<forall>t ids. GetGossipIDs t mc' = Some ids \<longrightarrow> (\<forall>mid \<in> set ids. Get mc' mid \<noteq> None))"
proof -
  have run: "\<exists>mc'. foldM mc_step ops mc = Some mc' \<and> mc_exact mc' \<and> mc_shape mc'"
    using assms
  proof (induction ops arbitrary: mc)
    case (Cons c ops)
    obtain mc1 where 1: "mc_step c mc = Some mc1" "mc_shape mc1" using mc_step_shape [OF Cons.prems(1)] by blast
    have "mc_exact mc1 \<and> distinct (puts ops) \<and> set (puts ops) \<inter> mdom (mc_msgs mc1) = {}"
    proof (cases c)
      case (OpPut m)
      then have "Get mc (msgID m) = None" using Cons.prems(4) by (simp add: Get_def mem_mdom)
      moreover have "mdom (mc_msgs mc1) = insert (msgID m) (mdom (mc_msgs mc))"
        using 1(1) OpPut by (auto simp: Put_def Let_def split: list.splits)
      ultimately show ?thesis using OpPut 1(1) Cons.prems Put_exact by auto
    next
      case OpShift
      then have "mdom (mc_msgs mc1) \<subseteq> mdom (mc_msgs mc)"
        using 1(1) Cons.prems(1) by (auto simp: mc_shape_def Shift_history)
      then show ?thesis using OpShift 1(1) Cons.prems Shift_exact by auto
    qed
    with Cons.IH [OF 1(2)] 1(1) show ?case by simp
  qed simp
  have "Get mc' mid \<noteq> None" if ex: "mc_exact mc'" "mc_shape mc'" "GetGossipIDs t mc' = Some ids" "mid \<in> set ids" for mc' t ids mid
  proof -
    obtain slot where "slot \<in> set (take (mc_gossip mc') (mc_history mc'))" "mid \<in> set (slot_mids t slot)"
      using ex(3,4) by (auto simp: GetGossipIDs_Some [OF ex(2)])
    then have "mid \<in> set (mids (mc_history mc'))"
      by (auto simp: slot_mids_eq mids_def dest: in_set_takeD)
    then show ?thesis using ex(1) mem_mdom [of mid "mc_msgs mc'"] by (simp add: mc_exact_def Get_def)
  qed
  with run show ?thesis by blast
qed

text \<open>
  A message that is put again while it is in the window loses its cache entry when its first history
  entry expires, while the second one is still gossiped: the node offers a message it cannot deliver.
\<close>

lemma mcache_dangling:
  "\<exists>mc'. foldM mc_step [OpPut m, OpShift, OpShift, OpShift, OpPut m, OpShift, OpShift] (NewMessageCache 3 5) = Some mc' \<and>
     Get mc' (msgID m) = None \<and> GetGossipIDs t mc' = Some (if t \<in> set (m_TopicIDs m) then [msgID m] else [])"
  by (simp add: NewMessageCache_def Put_Some Shift_history Get_def GetGossipIDs_def slot_mids_eq numeral_eq_Suc)

end
