(* ===== verification/GossipSub.thy ===== *)
theory GossipSub
  imports Router MessageCache
begin

text \<open>
  \<open>gossipsub.go\<close> without its heartbeat: the router's state, its control-message handlers, publishing,
  joining and leaving a topic, and the sending routine that piggybacks retried control messages and
  pending gossip.
\<close>

section \<open>Parameters and state\<close>

definition GossipSubD :: int where "GossipSubD = 6"
definition GossipSubDlo :: int where "GossipSubDlo = 4"
definition GossipSubDhi :: int where "GossipSubDhi = 12"
definition GossipSubHistoryLength :: nat where "GossipSubHistoryLength = 5"
definition GossipSubHistoryGossip :: nat where "GossipSubHistoryGossip = 3"

text \<open>Durations are counted in nanoseconds.\<close>

definition GossipSubFanoutTTL :: int where "GossipSubFanoutTTL = 60 * 1000000000"

record ('s, 'b) gossipsub = "('s, 'b) node" +
  gs_peers :: "(peer, protocol) alist"
  gs_mesh :: "(topic, (peer, unit) alist) alist"
  gs_fanout :: "(topic, (peer, unit) alist) alist"
  gs_lastpub :: "(topic, int) alist"
  gs_gossip :: "(peer, pb_IHave list) alist"
  gs_control :: "(peer, pb_Control) alist"
  gs_mcache :: MessageCache

text \<open>The router of \<open>NewGossipSub\<close>: the empty maps and the message cache.\<close>

definition gs_new :: "unit gossipsub_ext" where
  "gs_new =
     gossipsub.fields mempty mempty mempty mempty mempty mempty
       (NewMessageCache GossipSubHistoryGossip GossipSubHistoryLength)"

definition gs_Protocols :: "('s, 'b, 'z) gossipsub_scheme \<Rightarrow> protocol list" where
  "gs_Protocols st = [GossipSubID, FloodSubID]"

section \<open>Peers\<close>

definition gs_AddPeer :: "peer \<Rightarrow> protocol \<Rightarrow> ('s, 'b, 'z) gossipsub_scheme \<Rightarrow> ('s, 'b, 'z) gossipsub_scheme" where
  "gs_AddPeer p proto st = st\<lparr>gs_peers := mput p proto (gs_peers st)\<rparr>"

definition gs_RemovePeer :: "peer \<Rightarrow> ('s, 'b, 'z) gossipsub_scheme \<Rightarrow> ('s, 'b, 'z) gossipsub_scheme" where
  "gs_RemovePeer p st =
     st\<lparr>gs_peers := mdel p (gs_peers st),
        gs_mesh := mmap (mdel p) (gs_mesh st),
        gs_fanout := mmap (mdel p) (gs_fanout st),
        gs_gossip := mdel p (gs_gossip st),
        gs_control := mdel p (gs_control st)\<rparr>"

definition topicTag :: "topic \<Rightarrow> gostring" where
  "topicTag t = str ''pubsub:'' @ t"

definition tagPeer :: "peer \<Rightarrow> topic \<Rightarrow> ('s, 'b, 'z) node_scheme \<Rightarrow> ('s, 'b, 'z) node_scheme" where
  "tagPeer p topic st = st\<lparr>n_tags := n_tags st @ [TagPeer p (topicTag topic) 2]\<rparr>"

definition untagPeer :: "peer \<Rightarrow> topic \<Rightarrow> ('s, 'b, 'z) node_scheme \<Rightarrow> ('s, 'b, 'z) node_scheme" where
  "untagPeer p topic st = st\<lparr>n_tags := n_tags st @ [UntagPeer p (topicTag topic)]\<rparr>"

text \<open>
  \<open>getPeers(topic, count, filter)\<close>: the gossipsub peers of the topic that pass the filter, shuffled, at
  most \<open>count\<close> of them when \<open>count\<close> is positive.
\<close>

definition getPeers ::
  "topic \<Rightarrow> int \<Rightarrow> (peer \<Rightarrow> bool) \<Rightarrow> ('s, 'b, 'z) gossipsub_scheme \<Rightarrow> peer list \<times> ('s, 'b, 'z) gossipsub_scheme" where
  "getPeers topic cnt flt st =
     (case mget (n_topics st) topic of
        None \<Rightarrow> ([], st)
      | Some tmap \<Rightarrow>
          let (order, st1) = range_over (mkeys tmap) st;
              peers = filter (\<lambda>p. mget (gs_peers st) p = Some GossipSubID \<and> flt p) order;
              (peers, st2) = shufflePeers peers st1
          in (if cnt > 0 \<and> int (length peers) > cnt then take (nat cnt) peers else peers, st2))"

section \<open>Sending\<close>

definition fresh_graft :: "peer \<Rightarrow> (topic, (peer, unit) alist) alist \<Rightarrow> pb_Graft \<Rightarrow> bool" where
  "fresh_graft p mesh graft =
     (case mget mesh (Graft_GetTopicID graft) of None \<Rightarrow> False | Some peers \<Rightarrow> mhas peers p)"

definition fresh_prune :: "peer \<Rightarrow> (topic, (peer, unit) alist) alist \<Rightarrow> pb_Prune \<Rightarrow> bool" where
  "fresh_prune p mesh prune =
     (case mget mesh (Prune_GetTopicID prune) of None \<Rightarrow> True | Some peers \<Rightarrow> \<not> mhas peers p)"

definition piggybackControl ::
  "peer \<Rightarrow> RPC \<Rightarrow> pb_Control \<Rightarrow> ('s, 'b, 'z) gossipsub_scheme \<Rightarrow> RPC" where
  "piggybackControl p out ctl st =
     (let tograft = filter (fresh_graft p (gs_mesh st)) (c_Graft ctl);
          toprune = filter (fresh_prune p (gs_mesh st)) (c_Prune ctl)
      in if tograft = [] \<and> toprune = [] then out
         else let xctl = (case r_Control out of None \<Rightarrow> emptyControl | Some c \<Rightarrow> c)
              in out\<lparr>r_Control := Some (xctl\<lparr>c_Graft := c_Graft xctl @ tograft,
                                             c_Prune := c_Prune xctl @ toprune\<rparr>)\<rparr>)"

definition piggybackGossip :: "peer \<Rightarrow> RPC \<Rightarrow> pb_IHave list \<Rightarrow> RPC" where
  "piggybackGossip p out ihave =
     (let ctl = (case r_Control out of None \<Rightarrow> emptyControl | Some c \<Rightarrow> c)
      in out\<lparr>r_Control := Some (ctl\<lparr>c_Ihave := ihave\<rparr>)\<rparr>)"

definition pushGossip ::
  "peer \<Rightarrow> pb_IHave \<Rightarrow> ('s, 'b, 'z) gossipsub_scheme \<Rightarrow> ('s, 'b, 'z) gossipsub_scheme" where
  "pushGossip p ihave st =
     (let gossip = (case mget (gs_gossip st) p of None \<Rightarrow> [] | Some g \<Rightarrow> g)
      in st\<lparr>gs_gossip := mput p (gossip @ [ihave]) (gs_gossip st)\<rparr>)"

text \<open>Gossip is not retried; a nil slice of grafts or prunes is the empty list here.\<close>

definition pushControl ::
  "peer \<Rightarrow> pb_Control \<Rightarrow> ('s, 'b, 'z) gossipsub_scheme \<Rightarrow> ('s, 'b, 'z) gossipsub_scheme" where
  "pushControl p ctl st =
     (let ctl' = ctl\<lparr>c_Ihave := [], c_Iwant := []\<rparr>
      in if c_Graft ctl' \<noteq> [] \<or> c_Prune ctl' \<noteq> [] then st\<lparr>gs_control := mput p ctl' (gs_control st)\<rparr> else st)"

text \<open>
  The message that \<open>sendRPC\<close> puts in the queue and the state it has then: pending control messages and
  pending gossip for the peer are taken along. \<open>own\<close> records that the message was copied.
\<close>

definition with_control ::
  "peer \<Rightarrow> RPC \<Rightarrow> ('s, 'b, 'z) gossipsub_scheme \<Rightarrow> bool \<times> RPC \<times> ('s, 'b, 'z) gossipsub_scheme" where
  "with_control p out st =
     (case mget (gs_control st) p of
        None \<Rightarrow> (False, out, st)
      | Some ctl \<Rightarrow> (True, piggybackControl p (copyRPC out) ctl st,
                     st\<lparr>gs_control := mdel p (gs_control st)\<rparr>))"

definition with_gossip ::
  "peer \<Rightarrow> bool \<times> RPC \<times> ('s, 'b, 'z) gossipsub_scheme \<Rightarrow> RPC \<times> ('s, 'b, 'z) gossipsub_scheme" where
  "with_gossip p = (\<lambda>(own, out, st).
     case mget (gs_gossip st) p of
       None \<Rightarrow> (out, st)
     | Some ihave \<Rightarrow>
         (piggybackGossip p (if \<not> own then copyRPC out else out) ihave,
          st\<lparr>gs_gossip := mdel p (gs_gossip st)\<rparr>))"

definition sendRPC ::
  "peer \<Rightarrow> RPC \<Rightarrow> ('s, 'b, 'z) gossipsub_scheme \<Rightarrow> ('s, 'b, 'z) gossipsub_scheme option" where
  "sendRPC p out st =
     (let (out, st1) = with_gossip p (with_control p out st)
      in do {
           (r, st2) \<leftarrow> try_send p out st1;
           Some (case r of
                   QueueFull \<Rightarrow> (case r_Control out of None \<Rightarrow> st2 | Some ctl \<Rightarrow> pushControl p ctl st2)
                 | _ \<Rightarrow> st2)
         })"

definition sendGraft :: "peer \<Rightarrow> topic \<Rightarrow> ('s, 'b, 'z) gossipsub_scheme \<Rightarrow> ('s, 'b, 'z) gossipsub_scheme option" where
  "sendGraft p topic st = sendRPC p (rpcWithControl [] [] [] [mkGraft topic] []) st"

definition sendPrune :: "peer \<Rightarrow> topic \<Rightarrow> ('s, 'b, 'z) gossipsub_scheme \<Rightarrow> ('s, 'b, 'z) gossipsub_scheme option" where
  "sendPrune p topic st = sendRPC p (rpcWithControl [] [] [] [] [mkPrune topic]) st"

section \<open>Control messages\<close>

text \<open>IHAVE: collect the identifiers that were not seen, of topics we are in the mesh of.\<close>

definition ihave_mids ::
  "'s seen_methods \<Rightarrow> ('s, 'b, 'z) gossipsub_scheme \<Rightarrow> pb_IHave \<Rightarrow> (gostring, unit) alist \<Rightarrow> (gostring, unit) alist" where
  "ihave_mids tc st ihave iwant =
     (if \<not> mhas (gs_mesh st) (IHave_GetTopicID ihave) then iwant
      else fold (\<lambda>mid iwant. if tc_Has tc (n_seen st) mid then iwant else mput mid () iwant)
             (ih_MessageIDs ihave) iwant)"

definition handleIHave ::
  "'s seen_methods \<Rightarrow> peer \<Rightarrow> pb_Control \<Rightarrow> ('s, 'b, 'z) gossipsub_scheme \<Rightarrow>
   pb_IWant list \<times> ('s, 'b, 'z) gossipsub_scheme" where
  "handleIHave tc p ctl st =
     (let iwant = fold (ihave_mids tc st) (c_Ihave ctl) mempty
      in if mlen iwant = 0 then ([], st)
         else let (iwantlst, st1) = range_over (mkeys iwant) st in ([mkIWant iwantlst], st1))"

text \<open>IWANT: the cached messages among the requested ones, each once.\<close>

definition iwant_msgs ::
  "MessageCache \<Rightarrow> pb_IWant \<Rightarrow> (gostring, pb_Message) alist \<Rightarrow> (gostring, pb_Message) alist" where
  "iwant_msgs mc iwant ihave =
     fold (\<lambda>mid ihave. case Get mc mid of None \<Rightarrow> ihave | Some msg \<Rightarrow> mput mid msg ihave)
       (iw_MessageIDs iwant) ihave"

definition handleIWant ::
  "peer \<Rightarrow> pb_Control \<Rightarrow> ('s, 'b, 'z) gossipsub_scheme \<Rightarrow> pb_Message list \<times> ('s, 'b, 'z) gossipsub_scheme" where
  "handleIWant p ctl st =
     (let ihave = fold (iwant_msgs (gs_mcache st)) (c_Iwant ctl) mempty
      in if mlen ihave = 0 then ([], st)
         else let (mids, st1) = range_over (mkeys ihave) st in (List.map_filter (mget ihave) mids, st1))"

text \<open>GRAFT: join the peer to the mesh of each topic we are in, answer with PRUNE for the others.\<close>

fun graft_loop ::
  "peer \<Rightarrow> pb_Graft list \<Rightarrow> topic list \<Rightarrow> ('s, 'b, 'z) gossipsub_scheme \<Rightarrow>
   topic list \<times> ('s, 'b, 'z) gossipsub_scheme" where
  "graft_loop p [] prune st = (prune, st)"
| "graft_loop p (graft # grafts) prune st =
     (let topic = Graft_GetTopicID graft
      in case mget (gs_mesh st) topic of
           None \<Rightarrow> graft_loop p grafts (prune @ [topic]) st
         | Some peers \<Rightarrow>
             graft_loop p grafts prune
               (tagPeer p topic (st\<lparr>gs_mesh := mput topic (mput p () peers) (gs_mesh st)\<rparr>)))"

definition handleGraft ::
  "peer \<Rightarrow> pb_Control \<Rightarrow> ('s, 'b, 'z) gossipsub_scheme \<Rightarrow> pb_Prune list \<times> ('s, 'b, 'z) gossipsub_scheme" where
  "handleGraft p ctl st =
     (let (prune, st1) = graft_loop p (c_Graft ctl) [] st
      in if prune = [] then ([], st1) else (map mkPrune (loop_var_ptrs prune), st1))"

text \<open>PRUNE: remove the peer from the mesh of each topic named.\<close>

fun prune_loop ::
  "peer \<Rightarrow> pb_Prune list \<Rightarrow> ('s, 'b, 'z) gossipsub_scheme \<Rightarrow> ('s, 'b, 'z) gossipsub_scheme" where
  "prune_loop p [] st = st"
| "prune_loop p (prune # prunes) st =
     (let topic = Prune_GetTopicID prune
      in case mget (gs_mesh st) topic of
           None \<Rightarrow> prune_loop p prunes st
         | Some peers \<Rightarrow>
             prune_loop p prunes
               (untagPeer p topic (st\<lparr>gs_mesh := mput topic (mdel p peers) (gs_mesh st)\<rparr>)))"

definition handlePrune ::
  "peer \<Rightarrow> pb_Control \<Rightarrow> ('s, 'b, 'z) gossipsub_scheme \<Rightarrow> ('s, 'b, 'z) gossipsub_scheme" where
  "handlePrune p ctl st = prune_loop p (c_Prune ctl) st"

definition gs_HandleRPC ::
  "'s seen_methods \<Rightarrow> RPC \<Rightarrow> ('s, 'b, 'z) gossipsub_scheme \<Rightarrow> ('s, 'b, 'z) gossipsub_scheme option" where
  "gs_HandleRPC tc rpc st =
     (case r_Control rpc of
        None \<Rightarrow> Some st
      | Some ctl \<Rightarrow>
          let (iwant, st1) = handleIHave tc (r_from rpc) ctl st;
              (ihave, st2) = handleIWant (r_from rpc) ctl st1;
              (prune, st3) = handleGraft (r_from rpc) ctl st2;
              st4 = handlePrune (r_from rpc) ctl st3
          in if iwant = [] \<and> ihave = [] \<and> prune = [] then Some st4
             else sendRPC (r_from rpc) (rpcWithControl ihave [] iwant [] prune) st4)"

section \<open>Publishing\<close>

text \<open>The peers of the mesh, or else of the fanout, for one topic; a missing fanout is chosen.\<close>

definition publish_gmap ::
  "topic \<Rightarrow> ('s, 'b, 'z) gossipsub_scheme \<Rightarrow> (peer, unit) alist \<times> ('s, 'b, 'z) gossipsub_scheme" where
  "publish_gmap topic st =
     (case mget (gs_mesh st) topic of
        Some gmap \<Rightarrow> (gmap, st)
      | None \<Rightarrow>
          let gmap = mget0 (gs_fanout st) topic;
              (gmap, st1) =
                (if \<not> mhas (gs_fanout st) topic \<or> mlen gmap = 0
                 then let (peers, st1) = getPeers topic GossipSubD (\<lambda>p. True) st
                      in if length peers > 0
                         then (peerListToMap peers,
                               st1\<lparr>gs_fanout := mput topic (peerListToMap peers) (gs_fanout st1)\<rparr>)
                         else (gmap, st1)
                 else (gmap, st))
          in (gmap, st1\<lparr>gs_lastpub := mput topic (n_clock st1) (gs_lastpub st1)\<rparr>))"

definition publish_topic ::
  "topic \<Rightarrow> (peer, unit) alist \<times> ('s, 'b, 'z) gossipsub_scheme \<Rightarrow>
   (peer, unit) alist \<times> ('s, 'b, 'z) gossipsub_scheme" where
  "publish_topic topic = (\<lambda>(tosend, st).
     case mget (n_topics st) topic of
       None \<Rightarrow> (tosend, st)
     | Some tmap \<Rightarrow>
         let tosend = fold (\<lambda>p tosend. if mget (gs_peers st) p = Some FloodSubID then mput p () tosend else tosend)
                        (mkeys tmap) tosend;
             (gmap, st1) = publish_gmap topic st
         in (fold (\<lambda>p. mput p ()) (mkeys gmap) tosend, st1))"

definition gs_Publish ::
  "peer \<Rightarrow> pb_Message \<Rightarrow> ('s, 'b, 'z) gossipsub_scheme \<Rightarrow> ('s, 'b, 'z) gossipsub_scheme option" where
  "gs_Publish frm msg st =
     do {
       mc \<leftarrow> Put msg (gs_mcache st);
       let (tosend, st1) = fold publish_topic (m_TopicIDs msg) (mempty, st\<lparr>gs_mcache := mc\<rparr>);
       let out = rpcWithMessages [msg];
       let (pids, st2) = range_over (mkeys tosend) st1;
       foldM (\<lambda>pid st. if pid = frm \<or> pid = GetFrom msg then Some st else sendRPC pid out st) pids st2
     }"

section \<open>Joining and leaving\<close>

definition gs_Join :: "topic \<Rightarrow> ('s, 'b, 'z) gossipsub_scheme \<Rightarrow> ('s, 'b, 'z) gossipsub_scheme option" where
  "gs_Join topic st =
     (if mhas (gs_mesh st) topic then Some st
      else let (gmap, st1) =
             (case mget (gs_fanout st) topic of
                Some gmap \<Rightarrow>
                  (gmap, st\<lparr>gs_mesh := mput topic gmap (gs_mesh st),
                           gs_fanout := mdel topic (gs_fanout st),
                           gs_lastpub := mdel topic (gs_lastpub st)\<rparr>)
              | None \<Rightarrow>
                  let (peers, st1) = getPeers topic GossipSubD (\<lambda>p. True) st;
                      gmap = peerListToMap peers
                  in (gmap, st1\<lparr>gs_mesh := mput topic gmap (gs_mesh st1)\<rparr>));
             (ps, st2) = range_over (mkeys gmap) st1
           in foldM (\<lambda>p st. map_option (tagPeer p topic) (sendGraft p topic st)) ps st2)"

definition gs_Leave :: "topic \<Rightarrow> ('s, 'b, 'z) gossipsub_scheme \<Rightarrow> ('s, 'b, 'z) gossipsub_scheme option" where
  "gs_Leave topic st =
     (case mget (gs_mesh st) topic of
        None \<Rightarrow> Some st
      | Some gmap \<Rightarrow>
          let (ps, st2) = range_over (mkeys gmap) (st\<lparr>gs_mesh := mdel topic (gs_mesh st)\<rparr>)
          in foldM (\<lambda>p st. map_option (untagPeer p topic) (sendPrune p topic st)) ps st2)"

definition gossipsub_router :: "'s seen_methods \<Rightarrow> ('s, 'b, 'z gossipsub_ext) router_methods" where
  "gossipsub_router tc =
     \<lparr>rt_Protocols = gs_Protocols, rt_AddPeer = gs_AddPeer, rt_RemovePeer = gs_RemovePeer,
      rt_HandleRPC = gs_HandleRPC tc, rt_Publish = gs_Publish,
      rt_Join = gs_Join, rt_Leave = gs_Leave\<rparr>"

section \<open>Frames and the router's invariant\<close>

text \<open>
  The router's own invariant: its message cache has the shape that keeps it from panicking, files every message
  under its own identifier and names it in its history.
\<close>

definition gs_inv :: "('s, 'b, 'z) gossipsub_scheme \<Rightarrow> bool" where
  "gs_inv st \<longleftrightarrow> mc_ok (gs_mcache st)"

text \<open>What the operations other than publishing and the heartbeat also leave alone.\<close>

definition gs_frame :: "('s, 'b, 'z) gossipsub_scheme \<Rightarrow> ('s, 'b, 'z) gossipsub_scheme \<Rightarrow> bool" where
  "gs_frame st st' \<longleftrightarrow> router_frame st st' \<and> gs_mcache st' = gs_mcache st"

lemma gs_frameI [intro]: "router_frame st st' \<Longrightarrow> gs_mcache st' = gs_mcache st \<Longrightarrow> gs_frame st st'"
  by (simp add: gs_frame_def)

lemma gs_frame_refl [simp, intro]: "gs_frame st st"
  by (simp add: gs_frame_def)

lemma gs_frame_trans [trans]: "gs_frame s t \<Longrightarrow> gs_frame t u \<Longrightarrow> gs_frame s u"
  by (auto simp: gs_frame_def intro: router_frame_trans)

lemma gs_frame_updates [simp, intro]:
  "gs_frame st (st\<lparr>gs_peers := a\<rparr>)" "gs_frame st (st\<lparr>gs_mesh := m\<rparr>)" "gs_frame st (st\<lparr>gs_fanout := m\<rparr>)"
  "gs_frame st (st\<lparr>gs_lastpub := l\<rparr>)" "gs_frame st (st\<lparr>gs_gossip := g\<rparr>)"
  "gs_frame st (st\<lparr>gs_control := c\<rparr>)" "gs_frame st (st\<lparr>n_choices := e\<rparr>)"
  "gs_frame st (tagPeer p t st)" "gs_frame st (untagPeer p t st)"
  by (auto simp: router_frame_def tagPeer_def untagPeer_def)

lemma more_gs_mcache:
  fixes st st' :: "('s, 'b, 'z) gossipsub_scheme"
  shows "node.more st' = node.more st \<Longrightarrow> gs_mcache st' = gs_mcache st"
  by (cases st; cases st') simp

lemma range_over_gs_frame [frame_intros]: "range_over ks st = (ks', st') \<Longrightarrow> gs_frame st st'"
  using range_over_frame range_over_set(4) by fastforce

lemma try_send_more: "try_send p out st = Some (r, st') \<Longrightarrow> node.more st' = node.more st"
  by (auto simp: try_send_def split: option.splits sent.splits)

lemma try_send_gs_frame [frame_intros]: "try_send p out st = Some (r, st') \<Longrightarrow> gs_frame st st'"
  using try_send_frame try_send_more more_gs_mcache by blast

lemma getPeers_choices: "getPeers t n f st = (ps, st') \<Longrightarrow> \<exists>e. st' = st\<lparr>n_choices := e\<rparr>"
  by (auto simp: getPeers_def range_over_def shufflePeers_def Let_def
      intro: exI [of _ "n_choices st"] split: option.splits prod.splits)

lemma getPeers_frame [frame_intros]: "getPeers t n f st = (ps, st') \<Longrightarrow> gs_frame st st'"
  using getPeers_choices by fastforce

lemma pushGossip_frame [simp, intro]: "gs_frame st (pushGossip p ih st)"
  by (auto simp: pushGossip_def router_frame_def Let_def)

lemma pushControl_frame [simp, intro]: "gs_frame st (pushControl p ctl st)"
  by (auto simp: pushControl_def router_frame_def Let_def)

lemma with_gossip_frame:
  "with_gossip p (with_control p out st) = (out', st') \<Longrightarrow>
     gs_frame st st' \<and> n_peers st' = n_peers st"
  by (auto simp: with_gossip_def with_control_def router_frame_def gs_frame_def
      split: option.splits)

text \<open>\<open>gs_ok st m\<close>: the operation returns within the frame.\<close>

definition gs_ok :: "('s, 'b, 'z) gossipsub_scheme \<Rightarrow> ('s, 'b, 'z) gossipsub_scheme option \<Rightarrow> bool" where
  "gs_ok st m \<longleftrightarrow> keeps_frame (\<lambda>st'. gs_mcache st' = gs_mcache st) st m"

lemma gs_ok_Some: "gs_ok st m \<longleftrightarrow> (\<exists>st'. m = Some st' \<and> gs_frame st st')"
  by (auto simp: gs_ok_def keeps_frame_def gs_frame_def)

lemma gs_frame_peers_ok: "peers_ok st \<Longrightarrow> gs_frame st st' \<Longrightarrow> peers_ok st'"
  by (auto simp: gs_frame_def intro: frame_peers_ok)

lemma gs_ok_trans: "gs_frame st s \<Longrightarrow> gs_ok s m \<Longrightarrow> gs_ok st m"
  by (auto simp: gs_ok_Some intro: gs_frame_trans)

lemma gs_ok_foldM:
  assumes "\<And>x s. x \<in> set xs \<Longrightarrow> peers_ok s \<Longrightarrow> gs_ok s (f x s)" and "peers_ok st"
  shows "gs_ok st (foldM f xs st)"
  using assms
proof (induction xs arbitrary: st)
  case (Cons x xs)
  then obtain s where s: "f x st = Some s" "gs_frame st s" by (force simp: gs_ok_Some)
  then have "gs_ok s (foldM f xs s)" using Cons gs_frame_peers_ok by fastforce
  with s show ?case using gs_ok_trans by fastforce
qed (simp add: gs_ok_Some)

lemma sendRPC_ok [inv_intros]:
  assumes "peers_ok st" shows "gs_ok st (sendRPC p out st)"
proof -
  obtain out1 st1 where w: "with_gossip p (with_control p out st) = (out1, st1)" by force
  have f1: "gs_frame st st1" using with_gossip_frame [OF w] by simp
  then obtain r st2 where t: "try_send p out1 st1 = Some (r, st2)"
    using try_send_total gs_frame_peers_ok [OF assms] by blast
  have f2: "gs_frame st1 st2" by (rule try_send_gs_frame [OF t])
  have "\<exists>st3. sendRPC p out st = Some st3 \<and> gs_frame st2 st3"
    by (auto simp: sendRPC_def w t split: send_result.splits option.splits)
  with f1 f2 show ?thesis by (auto simp: gs_ok_Some intro: gs_frame_trans)
qed

lemma gs_ok_map: "gs_ok st m \<Longrightarrow> (\<And>s. gs_frame s (f s)) \<Longrightarrow> gs_ok st (map_option f m)"
  by (auto simp: gs_ok_Some intro: gs_frame_trans)

lemma graft_loop_frame: "graft_loop p gs prune st = (prune', st') \<Longrightarrow> gs_frame st st'"
proof (induction p gs prune st rule: graft_loop.induct)
  case (2 p graft grafts prune st)
  show ?case
  proof (cases "mget (gs_mesh st) (Graft_GetTopicID graft)")
    case None
    with 2 show ?thesis by (simp add: Let_def)
  next
    case (Some peers)
    have "gs_frame st (tagPeer p t (st\<lparr>gs_mesh := m\<rparr>))" for t m
      by (rule gs_frame_trans [of _ "st\<lparr>gs_mesh := m\<rparr>"]) auto
    moreover have "gs_frame (tagPeer p (Graft_GetTopicID graft)
        (st\<lparr>gs_mesh := mput (Graft_GetTopicID graft) (mput p () peers) (gs_mesh st)\<rparr>)) st'"
      using 2 Some by (simp add: Let_def)
    ultimately show ?thesis by (rule gs_frame_trans)
  qed
qed auto

lemma prune_loop_frame: "gs_frame st (prune_loop p prs st)"
proof (induction p prs st rule: prune_loop.induct)
  case (2 p pr prs st)
  show ?case
  proof (cases "mget (gs_mesh st) (Prune_GetTopicID pr)")
    case None
    with 2 show ?thesis by (simp add: Let_def)
  next
    case (Some peers)
    let ?t = "Prune_GetTopicID pr"
    let ?s = "untagPeer p ?t (st\<lparr>gs_mesh := mput ?t (mdel p peers) (gs_mesh st)\<rparr>)"
    have "gs_frame st ?s"
      by (rule gs_frame_trans [of _ "st\<lparr>gs_mesh := mput ?t (mdel p peers) (gs_mesh st)\<rparr>"]) auto
    moreover have "gs_frame ?s (prune_loop p prs ?s)" using 2 Some by simp
    ultimately have "gs_frame st (prune_loop p prs ?s)" by (rule gs_frame_trans)
    with Some show ?thesis by (simp add: Let_def)
  qed
qed simp

lemma gs_HandleRPC_ok [inv_intros]:
  assumes "peers_ok st" shows "gs_ok st (gs_HandleRPC tc rpc st)"
proof (cases "r_Control rpc")
  case None
  then show ?thesis by (simp add: gs_HandleRPC_def gs_ok_Some)
next
  case (Some ctl)
  let ?p = "r_from rpc"
  obtain iwant st1 where 1: "handleIHave tc ?p ctl st = (iwant, st1)" by force
  obtain ihave st2 where 2: "handleIWant ?p ctl st1 = (ihave, st2)" by force
  obtain prune st3 where 3: "handleGraft ?p ctl st2 = (prune, st3)" by force
  have "gs_frame st st1" "gs_frame st1 st2"
    using 1 2 by (auto simp: handleIHave_def handleIWant_def Let_def split: if_splits prod.splits
        intro: range_over_gs_frame)
  moreover have "gs_frame st2 st3"
    using 3 by (auto simp: handleGraft_def split: prod.splits if_splits intro: graft_loop_frame)
  moreover have "gs_frame st3 (handlePrune ?p ctl st3)" by (simp add: handlePrune_def prune_loop_frame)
  ultimately have f: "gs_frame st (handlePrune ?p ctl st3)" by (meson gs_frame_trans)
  then have "gs_ok (handlePrune ?p ctl st3) (sendRPC ?p out (handlePrune ?p ctl st3))" for out
    by (intro sendRPC_ok gs_frame_peers_ok [OF assms])
  from gs_ok_trans [OF f this] f show ?thesis
    by (simp add: gs_HandleRPC_def Some 1 2 3 Let_def gs_ok_Some [of _ "Some _"])
qed

text \<open>One peer after another is sent a control message and tagged.\<close>

lemma gs_ok_range_foldM:
  assumes "peers_ok st" "gs_frame st s"
    and "\<And>x s. peers_ok s \<Longrightarrow> gs_ok s (f x s)"
  shows "gs_ok st (let (ps, s2) = range_over ks s in foldM f ps s2)"
proof -
  obtain ps s2 where r: "range_over ks s = (ps, s2)" by force
  have fr: "gs_frame st s2" using assms(2) range_over_gs_frame [OF r] by (rule gs_frame_trans)
  have "gs_ok s2 (foldM f ps s2)"
    using assms(3) gs_frame_peers_ok [OF assms(1) fr] by (rule gs_ok_foldM)
  with fr have "gs_ok st (foldM f ps s2)" by (rule gs_ok_trans)
  then show ?thesis by (simp add: r)
qed

lemma sendGraft_tag_ok: "peers_ok s \<Longrightarrow> gs_ok s (map_option (tagPeer p t) (sendGraft p t s))"
  by (auto intro!: gs_ok_map sendRPC_ok simp: sendGraft_def)

lemma sendPrune_untag_ok: "peers_ok s \<Longrightarrow> gs_ok s (map_option (untagPeer p t) (sendPrune p t s))"
  by (auto intro!: gs_ok_map sendRPC_ok simp: sendPrune_def)

lemma gs_Join_ok [inv_intros]:
  assumes "peers_ok st" shows "gs_ok st (gs_Join t st)"
proof (cases "mhas (gs_mesh st) t")
  case False
  note run = gs_ok_range_foldM [OF assms _ sendGraft_tag_ok]
  show ?thesis
  proof (cases "mget (gs_fanout st) t")
    case None
    obtain ps s where g: "getPeers t GossipSubD (\<lambda>p. True) st = (ps, s)" by force
    have "gs_frame st (s\<lparr>gs_mesh := m\<rparr>)" for m
      by (rule gs_frame_trans [OF getPeers_frame [OF g]]) simp
    from run [OF this] None False g show ?thesis by (simp add: gs_Join_def Let_def)
  next
    case (Some gmap)
    have "gs_frame st (st\<lparr>gs_mesh := a, gs_fanout := b, gs_lastpub := c\<rparr>)" for a b c
      by (auto simp: router_frame_def)
    from run [OF this] Some False show ?thesis by (simp add: gs_Join_def Let_def)
  qed
qed (simp add: gs_Join_def gs_ok_Some)

lemma gs_Leave_ok [inv_intros]:
  assumes "peers_ok st" shows "gs_ok st (gs_Leave t st)"
proof (cases "mget (gs_mesh st) t")
  case (Some gmap)
  have "gs_frame st (st\<lparr>gs_mesh := m\<rparr>)" for m by simp
  from gs_ok_range_foldM [OF assms this sendPrune_untag_ok] Some show ?thesis by (simp add: gs_Leave_def)
qed (simp add: gs_Leave_def gs_ok_Some)

lemma publish_gmap_frame: "publish_gmap t st = (gmap, st') \<Longrightarrow> gs_frame st st'"
proof -
  assume p: "publish_gmap t st = (gmap, st')"
  obtain ps s where g: "getPeers t GossipSubD (\<lambda>p. True) st = (ps, s)" by force
  have "gs_frame st s" by (rule getPeers_frame [OF g])
  then show "gs_frame st st'"
    using p g by (auto simp: publish_gmap_def Let_def gs_frame_def router_frame_def
        split: option.splits if_splits)
qed

lemma publish_topics_frame:
  "fold publish_topic ts (tosend, st) = (tosend', st') \<Longrightarrow> gs_frame st st'"
proof (induction ts arbitrary: tosend st)
  case (Cons t ts)
  obtain tosend1 st1 where s: "publish_topic t (tosend, st) = (tosend1, st1)" by force
  then have "gs_frame st st1"
    by (auto simp: publish_topic_def Let_def split: option.splits prod.splits intro: publish_gmap_frame)
  moreover have "gs_frame st1 st'" using Cons s by simp
  ultimately show ?case by (rule gs_frame_trans)
qed simp

lemma gs_Publish_ok [inv_intros]:
  assumes "peers_ok st" "gs_inv st" shows "keeps_frame gs_inv st (gs_Publish frm msg st)"
proof -
  obtain mc where mc: "Put msg (gs_mcache st) = Some mc" "mc_ok mc"
    using Put_ok assms(2) by (auto simp: gs_inv_def)
  let ?s0 = "st\<lparr>gs_mcache := mc\<rparr>"
  obtain tosend st1 where 1: "fold publish_topic (m_TopicIDs msg) (mempty, ?s0) = (tosend, st1)" by force
  obtain pids st2 where 2: "range_over (mkeys tosend) st1 = (pids, st2)" by force
  have f: "gs_frame ?s0 st2"
    using publish_topics_frame [OF 1] range_over_gs_frame [OF 2] by (rule gs_frame_trans)
  have "peers_ok ?s0" using assms(1) by (simp add: peers_ok_def)
  then have ok: "peers_ok st2" using f by (rule gs_frame_peers_ok)
  have "gs_ok st2 (foldM (\<lambda>pid st. if pid = frm \<or> pid = GetFrom msg then Some st
          else sendRPC pid (rpcWithMessages [msg]) st) pids st2)"
    using ok by (intro gs_ok_foldM) (auto simp: gs_ok_Some [of _ "Some _"] intro: sendRPC_ok)
  then have "gs_ok ?s0 (gs_Publish frm msg st)"
    using f gs_ok_trans by (auto simp: gs_Publish_def mc 1 2)
  then show ?thesis
    using mc(2) by (auto simp: gs_ok_Some keeps_frame_def gs_frame_def gs_inv_def router_frame_def)
qed

lemma gs_ok_keeps: "gs_inv st \<Longrightarrow> gs_ok st m \<Longrightarrow> keeps_frame gs_inv st m"
  by (auto simp: gs_ok_def keeps_frame_def gs_inv_def)

interpretation gossip: router "gossipsub_router tc :: ('s, 'b, 'z gossipsub_ext) router_methods" gs_inv
  for tc
proof unfold_locales
  show "gs_inv st'" if "gs_inv st" "node.more st' = node.more st" for st st' :: "('s, 'b, 'z) gossipsub_scheme"
    using that more_gs_mcache [OF that(2)] by (simp add: gs_inv_def)
  show "keeps_frame gs_inv st (rt_HandleRPC (gossipsub_router tc) rpc st)" if "gs_inv st" "peers_ok st"
    for st :: "('s, 'b, 'z) gossipsub_scheme" and rpc
    using that by (simp add: gossipsub_router_def gs_ok_keeps gs_HandleRPC_ok)
  show "keeps_frame gs_inv st (rt_Publish (gossipsub_router tc) src msg st)" if "gs_inv st" "peers_ok st"
    for st :: "('s, 'b, 'z) gossipsub_scheme" and src msg
    using that by (simp add: gossipsub_router_def gs_Publish_ok)
  show "keeps_frame gs_inv st (rt_Join (gossipsub_router tc) t st)" if "gs_inv st" "peers_ok st"
    for st :: "('s, 'b, 'z) gossipsub_scheme" and t
    using that by (simp add: gossipsub_router_def gs_ok_keeps gs_Join_ok)
  show "keeps_frame gs_inv st (rt_Leave (gossipsub_router tc) t st)" if "gs_inv st" "peers_ok st"
    for st :: "('s, 'b, 'z) gossipsub_scheme" and t
    using that by (simp add: gossipsub_router_def gs_ok_keeps gs_Leave_ok)
qed (auto simp: gossipsub_router_def gs_AddPeer_def gs_RemovePeer_def gs_inv_def router_frame_def)

section \<open>Choosing peers\<close>

text \<open>The gossipsub peers of a topic that pass a filter.\<close>

definition gs_candidates :: "('s, 'b, 'z) gossipsub_scheme \<Rightarrow> topic \<Rightarrow> (peer \<Rightarrow> bool) \<Rightarrow> peer set" where
  "gs_candidates st t f =
     {p \<in> mdom (mget0 (n_topics st) t). mget (gs_peers st) p = Some GossipSubID \<and> f p}"

lemma finite_candidates [simp]: "finite (gs_candidates st t f)"
  by (rule finite_subset [OF _ finite_mdom]) (auto simp: gs_candidates_def)

lemma getPeers_spec:
  assumes "getPeers t n f st = (ps, st')"
  shows "distinct ps" "set ps \<subseteq> gs_candidates st t f"
    "n > 0 \<Longrightarrow> length ps = min (nat n) (card (gs_candidates st t f))"
    "n \<le> 0 \<Longrightarrow> set ps = gs_candidates st t f"
proof -
  have "distinct ps \<and> set ps \<subseteq> gs_candidates st t f \<and>
    (n > 0 \<longrightarrow> length ps = min (nat n) (card (gs_candidates st t f))) \<and>
    (n \<le> 0 \<longrightarrow> set ps = gs_candidates st t f)"
  proof (cases "mget (n_topics st) t")
    case None
    then show ?thesis using assms by (auto simp: getPeers_def gs_candidates_def)
  next
    case (Some tmap)
    let ?P = "\<lambda>p. mget (gs_peers st) p = Some GossipSubID \<and> f p"
    obtain order st1 where r: "range_over (mkeys tmap) st = (order, st1)" by force
    note range = range_over_set [OF r]
    obtain qs st2 where q: "shufflePeers (filter ?P order) st1 = (qs, st2)" by force
    note shuf = shufflePeers_set [OF q]
    have set: "set qs = gs_candidates st t f"
      using shuf(1) range(1) Some by (auto simp: gs_candidates_def)
    have dist: "distinct qs" using shuf(2) range(2) by simp
    have len: "length qs = card (gs_candidates st t f)" using set dist distinct_card by metis
    have ps: "ps = (if n > 0 \<and> int (length qs) > n then take (nat n) qs else qs)"
      using assms Some r q by (auto simp: getPeers_def Let_def)
    have "set ps \<subseteq> set qs" unfolding ps by (auto dest: in_set_takeD)
    then show ?thesis
      using set dist len by (auto simp: ps)
  qed
  then show "distinct ps" "set ps \<subseteq> gs_candidates st t f"
    "n > 0 \<Longrightarrow> length ps = min (nat n) (card (gs_candidates st t f))"
    "n \<le> 0 \<Longrightarrow> set ps = gs_candidates st t f" by auto
qed

section \<open>What sending changes\<close>

text \<open>\<open>gs_sends\<close>: only the queues, the pending control and gossip, the tags and the choices differ.\<close>

definition gs_sends :: "('s, 'b, 'z) gossipsub_scheme \<Rightarrow> ('s, 'b, 'z) gossipsub_scheme \<Rightarrow> bool" where
  "gs_sends st st' \<longleftrightarrow>
     gs_frame st st' \<and> gs_peers st' = gs_peers st \<and> gs_mesh st' = gs_mesh st \<and>
     gs_fanout st' = gs_fanout st \<and> gs_lastpub st' = gs_lastpub st"

lemma gs_sends_refl [simp, intro]: "gs_sends st st"
  by (simp add: gs_sends_def)

lemma gs_sends_trans: "gs_sends s t \<Longrightarrow> gs_sends t u \<Longrightarrow> gs_sends s u"
  by (auto simp: gs_sends_def intro: gs_frame_trans)

lemma gs_sends_candidates: "gs_sends st st' \<Longrightarrow> gs_candidates st' = gs_candidates st"
  by (auto simp: gs_sends_def gs_frame_def router_frame_def gs_candidates_def fun_eq_iff)

lemma gs_sends_updates [simp, intro]:
  "gs_sends st (tagPeer p t st)" "gs_sends st (untagPeer p t st)" "gs_sends st (st\<lparr>n_choices := e\<rparr>)"
  "gs_sends st (st\<lparr>gs_control := c\<rparr>)" "gs_sends st (st\<lparr>gs_gossip := g\<rparr>)"
  "gs_sends st (pushGossip p ih st)" "gs_sends st (pushControl p ctl st)"
  by (simp_all add: gs_sends_def tagPeer_def untagPeer_def pushGossip_def pushControl_def gs_frame_def
      router_frame_def Let_def)

lemma range_over_sends: "range_over ks (st :: ('s, 'b, 'z) gossipsub_scheme) = (ks', st') \<Longrightarrow> gs_sends st st'"
  using range_over_set(4) by fastforce

lemma getPeers_sends: "getPeers t n f st = (ps, st') \<Longrightarrow> gs_sends st st'"
  using getPeers_choices by fastforce

lemma more_gs_fields:
  fixes st st' :: "('s, 'b, 'z) gossipsub_scheme"
  assumes "node.more st' = node.more st"
  shows "gs_peers st' = gs_peers st" "gs_mesh st' = gs_mesh st" "gs_fanout st' = gs_fanout st"
    "gs_lastpub st' = gs_lastpub st" "gs_gossip st' = gs_gossip st" "gs_control st' = gs_control st"
    "gs_mcache st' = gs_mcache st"
  using assms by (cases st; cases st'; simp)+

lemma try_send_sends:
  "try_send p out (st :: ('s, 'b, 'z) gossipsub_scheme) = Some (r, st') \<Longrightarrow> gs_sends st st'"
  using try_send_gs_frame try_send_more more_gs_fields unfolding gs_sends_def by metis

lemma with_gossip_sends:
  "with_gossip p (with_control p out st) = (out', st') \<Longrightarrow> gs_sends st st'"
  using with_gossip_frame [of p out st]
  by (auto simp: with_gossip_def with_control_def gs_sends_def split: option.splits)

lemma sendRPC_sends: "sendRPC p out st = Some st' \<Longrightarrow> gs_sends st st'"
proof -
  obtain out1 st1 where w: "with_gossip p (with_control p out st) = (out1, st1)" by force
  assume "sendRPC p out st = Some st'"
  then obtain r st2 where t: "try_send p out1 st1 = Some (r, st2)"
    and st': "st' = (case r of QueueFull \<Rightarrow> (case r_Control out1 of None \<Rightarrow> st2 | Some ctl \<Rightarrow> pushControl p ctl st2)
                     | _ \<Rightarrow> st2)"
    by (auto simp: sendRPC_def w split: Option.bind_splits)
  have "gs_sends st2 st'" by (auto simp: st' split: send_result.splits option.splits)
  then show "gs_sends st st'" using with_gossip_sends [OF w] try_send_sends [OF t] gs_sends_trans by blast
qed

lemma foldM_sends:
  "foldM f xs st = Some st' \<Longrightarrow> (\<And>x s s'. f x s = Some s' \<Longrightarrow> gs_sends s s') \<Longrightarrow> gs_sends st st'"
  by (rule foldM_rel [where R = gs_sends]) (auto intro: gs_sends_trans)

end
