(* ===== verification/GossipSpec.thy ===== *)
theory GossipSpec
  imports GossipSub
begin

text \<open>
  What the operations of \<open>GossipSub\<close> compute: the message that \<open>sendRPC\<close> puts together and what it
  retries, the answers to control messages, the recipients of a message, and the mesh after joining and
  leaving a topic.
\<close>

section \<open>Sending\<close>

text \<open>The parts of a control message, none where there is no control message.\<close>

definition control_of :: "pb_Control option \<Rightarrow> pb_Control" where
  "control_of c = (case c of None \<Rightarrow> emptyControl | Some ctl \<Rightarrow> ctl)"

definition rpc_grafts :: "RPC \<Rightarrow> pb_Graft list" where
  "rpc_grafts out = c_Graft (control_of (r_Control out))"

definition rpc_prunes :: "RPC \<Rightarrow> pb_Prune list" where
  "rpc_prunes out = c_Prune (control_of (r_Control out))"

definition rpc_ihaves :: "RPC \<Rightarrow> pb_IHave list" where
  "rpc_ihaves out = c_Ihave (control_of (r_Control out))"

definition rpc_iwants :: "RPC \<Rightarrow> pb_IWant list" where
  "rpc_iwants out = c_Iwant (control_of (r_Control out))"

definition pending_grafts :: "('s, 'b, 'z) gossipsub_scheme \<Rightarrow> peer \<Rightarrow> pb_Graft list" where
  "pending_grafts st p = c_Graft (control_of (mget (gs_control st) p))"

definition pending_prunes :: "('s, 'b, 'z) gossipsub_scheme \<Rightarrow> peer \<Rightarrow> pb_Prune list" where
  "pending_prunes st p = c_Prune (control_of (mget (gs_control st) p))"

text \<open>A pending entry is still fresh when the mesh agrees with it.\<close>

definition in_mesh :: "('s, 'b, 'z) gossipsub_scheme \<Rightarrow> topic \<Rightarrow> peer \<Rightarrow> bool" where
  "in_mesh st t p \<longleftrightarrow> p \<in> mdom (mget0 (gs_mesh st) t)"

lemma fresh_graft_iff: "fresh_graft p (gs_mesh st) = (\<lambda>g. in_mesh st (Graft_GetTopicID g) p)"
  by (simp add: fresh_graft_def in_mesh_def mget0_def fun_eq_iff split: option.split)

lemma fresh_prune_iff: "fresh_prune p (gs_mesh st) = (\<lambda>g. \<not> in_mesh st (Prune_GetTopicID g) p)"
  by (simp add: fresh_prune_def in_mesh_def mget0_def fun_eq_iff split: option.split)

text \<open>The message that goes out, and what is kept of it when the queue is full.\<close>

definition merged :: "peer \<Rightarrow> RPC \<Rightarrow> ('s, 'b, 'z) gossipsub_scheme \<Rightarrow> RPC" where
  "merged p out st = fst (with_gossip p (with_control p out st))"

definition retried :: "RPC \<Rightarrow> pb_Control option" where
  "retried out =
     (if rpc_grafts out = [] \<and> rpc_prunes out = [] then None
      else Some ((control_of (r_Control out))\<lparr>c_Ihave := [], c_Iwant := []\<rparr>))"

lemma emptyControl_sel [simp]:
  "c_Ihave emptyControl = []" "c_Iwant emptyControl = []" "c_Graft emptyControl = []"
  "c_Prune emptyControl = []"
  by (simp_all add: emptyControl_def)

lemma control_of_simps [simp]: "control_of None = emptyControl" "control_of (Some c) = c"
  by (simp_all add: control_of_def)

lemma rpcWithControl_sel [simp]:
  "rpc_grafts (rpcWithControl ms ih iw gr pr) = gr" "rpc_prunes (rpcWithControl ms ih iw gr pr) = pr"
  "rpc_ihaves (rpcWithControl ms ih iw gr pr) = ih" "rpc_iwants (rpcWithControl ms ih iw gr pr) = iw"
  "r_Publish (rpcWithControl ms ih iw gr pr) = ms" "r_Subscriptions (rpcWithControl ms ih iw gr pr) = []"
  by (simp_all add: rpc_grafts_def rpc_prunes_def rpc_ihaves_def rpc_iwants_def rpcWithControl_def)

lemma rpcWithMessages_sel [simp]:
  "rpc_grafts (rpcWithMessages ms) = []" "rpc_prunes (rpcWithMessages ms) = []"
  "rpc_ihaves (rpcWithMessages ms) = []" "rpc_iwants (rpcWithMessages ms) = []"
  "r_Publish (rpcWithMessages ms) = ms" "r_Subscriptions (rpcWithMessages ms) = []"
  by (simp_all add: rpc_grafts_def rpc_prunes_def rpc_ihaves_def rpc_iwants_def rpcWithMessages_def)

lemma piggybackControl_parts:
  "rpc_grafts (piggybackControl p out ctl st) = rpc_grafts out @ filter (fresh_graft p (gs_mesh st)) (c_Graft ctl)"
  "rpc_prunes (piggybackControl p out ctl st) = rpc_prunes out @ filter (fresh_prune p (gs_mesh st)) (c_Prune ctl)"
  "rpc_ihaves (piggybackControl p out ctl st) = rpc_ihaves out"
  "rpc_iwants (piggybackControl p out ctl st) = rpc_iwants out"
  "r_Publish (piggybackControl p out ctl st) = r_Publish out"
  "r_Subscriptions (piggybackControl p out ctl st) = r_Subscriptions out"
  by (auto simp: piggybackControl_def rpc_grafts_def rpc_prunes_def rpc_ihaves_def rpc_iwants_def Let_def
      split: option.split)

lemma piggybackGossip_parts:
  "rpc_grafts (piggybackGossip p out ih) = rpc_grafts out" "rpc_prunes (piggybackGossip p out ih) = rpc_prunes out"
  "rpc_ihaves (piggybackGossip p out ih) = ih" "rpc_iwants (piggybackGossip p out ih) = rpc_iwants out"
  "r_Publish (piggybackGossip p out ih) = r_Publish out"
  "r_Subscriptions (piggybackGossip p out ih) = r_Subscriptions out"
  by (auto simp: piggybackGossip_def rpc_grafts_def rpc_prunes_def rpc_ihaves_def rpc_iwants_def Let_def
      split: option.split)

lemma merged_parts:
  "rpc_grafts (merged p out st) = rpc_grafts out @ filter (\<lambda>g. in_mesh st (Graft_GetTopicID g) p) (pending_grafts st p)"
  "rpc_prunes (merged p out st) = rpc_prunes out @ filter (\<lambda>g. \<not> in_mesh st (Prune_GetTopicID g) p) (pending_prunes st p)"
  "rpc_ihaves (merged p out st) = (case mget (gs_gossip st) p of None \<Rightarrow> rpc_ihaves out | Some g \<Rightarrow> g)"
  "rpc_iwants (merged p out st) = rpc_iwants out"
  "r_Publish (merged p out st) = r_Publish out" "r_Subscriptions (merged p out st) = r_Subscriptions out"
  by (auto simp: merged_def with_gossip_def with_control_def piggybackControl_parts piggybackGossip_parts
      pending_grafts_def pending_prunes_def fresh_graft_iff fresh_prune_iff split: option.split)

lemma pushControl_control:
  "r_Control out = Some ctl \<Longrightarrow> mget (gs_control st) p = None \<Longrightarrow>
     mget (gs_control (pushControl p ctl st)) = (mget (gs_control st))(p := retried out)"
  by (auto simp: pushControl_def retried_def rpc_grafts_def rpc_prunes_def Let_def lookup_update fun_eq_iff)

lemma retried_None: "r_Control out = None \<Longrightarrow> retried out = None"
  by (simp add: retried_def rpc_grafts_def rpc_prunes_def)

text \<open>The complete effect of \<open>sendRPC\<close>.\<close>

lemma sendRPC_spec:
  fixes st :: "('s, 'b, 'z) gossipsub_scheme"
  assumes "peers_ok st"
  shows "\<exists>st'. sendRPC p out st = Some st' \<and> gs_sends st st' \<and> n_tags st' = n_tags st \<and>
    outbox st' = (if has_room st p then (outbox st)(p := outbox st p @ [merged p out st]) else outbox st) \<and>
    mget (gs_gossip st') = (mget (gs_gossip st))(p := None) \<and>
    mget (gs_control st') = (mget (gs_control st))
      (p := if p \<in> mdom (n_peers st) \<and> \<not> has_room st p then retried (merged p out st) else None)"
proof -
  obtain out1 st1 where w: "with_gossip p (with_control p out st) = (out1, st1)" by force
  have out1: "out1 = merged p out st" by (simp add: merged_def w)
  have st1: "n_peers st1 = n_peers st" "n_tags st1 = n_tags st"
    "mget (gs_gossip st1) = (mget (gs_gossip st))(p := None)"
    "mget (gs_control st1) = (mget (gs_control st))(p := None)"
    using w by (auto simp: with_gossip_def with_control_def fun_eq_iff split: option.splits)
  have view: "outbox st1 = outbox st" "has_room st1 p = has_room st p" "peers_ok st1"
    using st1(1) assms by (simp_all add: outbox_def has_room_def peers_ok_def fun_eq_iff)
  obtain r st2 where t: "try_send p out1 st1 = Some (r, st2)" using try_send_total [OF view(3)] by blast
  note more = more_gs_fields [OF try_send_more [OF t]]
  have cases: "r = NoPeer \<and> p \<notin> mdom (n_peers st) \<and> \<not> has_room st p \<and> st2 = st1
     \<or> r = Queued \<and> has_room st p \<and> outbox st2 = (outbox st)(p := outbox st p @ [out1]) \<and> n_tags st2 = n_tags st1
     \<or> r = QueueFull \<and> p \<in> mdom (n_peers st) \<and> \<not> has_room st p \<and> st2 = st1"
  proof -
    have "\<not> has_room st p" if "p \<notin> mdom (n_peers st)" using that by (auto simp: has_room_def)
    moreover have "n_tags st2 = n_tags st1" if "\<exists>P. st2 = st1\<lparr>n_peers := P\<rparr>" using that by auto
    ultimately show ?thesis
      using try_send_cases [OF view(3) t] unfolding st1(1) view(1,2) by metis
  qed
  define st' where "st' = (case r of QueueFull \<Rightarrow> (case r_Control out1 of None \<Rightarrow> st2 | Some ctl \<Rightarrow> pushControl p ctl st2)
                     | _ \<Rightarrow> st2)"
  have send: "sendRPC p out st = Some st'" by (simp add: sendRPC_def w t st'_def)
  have push: "n_tags (pushControl p ctl s) = n_tags s" "outbox (pushControl p ctl s) = outbox s"
    "gs_gossip (pushControl p ctl s) = gs_gossip s" for ctl and s :: "('s, 'b, 'z) gossipsub_scheme"
    by (simp_all add: pushControl_def outbox_def Let_def fun_eq_iff)
  have "n_tags st' = n_tags st \<and> outbox st' = (if has_room st p then (outbox st)(p := outbox st p @ [out1]) else outbox st) \<and>
      mget (gs_gossip st') = (mget (gs_gossip st))(p := None)"
    using cases st1 view more unfolding st'_def by (auto simp: push split: option.split)
  moreover have "mget (gs_control st') = (mget (gs_control st))
      (p := if p \<in> mdom (n_peers st) \<and> \<not> has_room st p then retried out1 else None)"
  proof (cases "r = QueueFull")
    case True
    then have full: "p \<in> mdom (n_peers st) \<and> \<not> has_room st p" "st2 = st1" using cases by auto
    then show ?thesis
      using True st1 by (auto simp: st'_def pushControl_control retried_None split: option.split)
  next
    case False
    then have "st' = st2" by (cases r) (auto simp: st'_def)
    with False show ?thesis using cases st1 more by (auto simp: fun_eq_iff)
  qed
  ultimately show ?thesis using send sendRPC_sends [OF send] unfolding out1 by blast
qed

section \<open>Answering control messages\<close>

text \<open>The identifiers offered by IHAVE that we ask for.\<close>

definition wanted :: "'s seen_methods \<Rightarrow> pb_Control \<Rightarrow> ('s, 'b, 'z) gossipsub_scheme \<Rightarrow> gostring set" where
  "wanted tc ctl st = {mid. \<exists>ih \<in> set (c_Ihave ctl). IHave_GetTopicID ih \<in> mdom (gs_mesh st) \<and>
     mid \<in> set (ih_MessageIDs ih) \<and> \<not> tc_Has tc (n_seen st) mid}"

text \<open>The identifiers asked for by IWANT that the cache holds.\<close>

definition requested :: "pb_Control \<Rightarrow> gostring set" where
  "requested ctl = (\<Union>iw \<in> set (c_Iwant ctl). set (iw_MessageIDs iw))"

definition servable :: "pb_Control \<Rightarrow> ('s, 'b, 'z) gossipsub_scheme \<Rightarrow> gostring set" where
  "servable ctl st = {mid \<in> requested ctl. Get (gs_mcache st) mid \<noteq> None}"

definition graft_topics :: "pb_Control \<Rightarrow> topic list" where
  "graft_topics ctl = map Graft_GetTopicID (c_Graft ctl)"

definition prune_topics :: "pb_Control \<Rightarrow> topic list" where
  "prune_topics ctl = map Prune_GetTopicID (c_Prune ctl)"

text \<open>The topics of GRAFTs for meshes we do not have, in order.\<close>

definition refused :: "pb_Control \<Rightarrow> ('s, 'b, 'z) gossipsub_scheme \<Rightarrow> topic list" where
  "refused ctl st = filter (\<lambda>t. t \<notin> mdom (gs_mesh st)) (graft_topics ctl)"

lemma mdom_fold_filter:
  "mdom (fold (\<lambda>x m. if P x then m else mput x () m) xs m) = {x \<in> set xs. \<not> P x} \<union> mdom m"
  by (induction xs arbitrary: m) auto

lemma mdom_ihave_mids:
  "mdom (ihave_mids tc st ih m) =
     {mid. IHave_GetTopicID ih \<in> mdom (gs_mesh st) \<and> mid \<in> set (ih_MessageIDs ih) \<and> \<not> tc_Has tc (n_seen st) mid} \<union> mdom m"
  by (auto simp: ihave_mids_def mdom_fold_filter)

lemma mdom_fold_ihave:
  "mdom (fold (ihave_mids tc st) ihs m) =
     {mid. \<exists>ih \<in> set ihs. IHave_GetTopicID ih \<in> mdom (gs_mesh st) \<and> mid \<in> set (ih_MessageIDs ih) \<and>
        \<not> tc_Has tc (n_seen st) mid} \<union> mdom m"
  by (induction ihs arbitrary: m) (auto simp: mdom_ihave_mids)

lemma handleIHave_spec:
  assumes "handleIHave tc p ctl st = (iwant, st')"
  shows "\<exists>e. st' = st\<lparr>n_choices := e\<rparr>"
    and "\<exists>mids. distinct mids \<and> set mids = wanted tc ctl st \<and> iwant = (if mids = [] then [] else [mkIWant mids])"
proof -
  let ?m = "fold (ihave_mids tc st) (c_Ihave ctl) mempty"
  have dom: "mdom ?m = wanted tc ctl st" by (simp add: mdom_fold_ihave wanted_def)
  have "(\<exists>e. st' = st\<lparr>n_choices := e\<rparr>) \<and>
    (\<exists>mids. distinct mids \<and> set mids = wanted tc ctl st \<and> iwant = (if mids = [] then [] else [mkIWant mids]))"
  proof (cases "mdom ?m = {}")
    case True
    then show ?thesis
      using assms dom by (auto simp: handleIHave_def Let_def intro: exI [of _ "n_choices st"])
  next
    case False
    obtain l s where r: "range_over (mkeys ?m) st = (l, s)" by force
    note range_over_set [OF r]
    then show ?thesis
      using assms dom False r by (auto simp: handleIHave_def Let_def intro!: exI [of _ l])
  qed
  then show "\<exists>e. st' = st\<lparr>n_choices := e\<rparr>"
    and "\<exists>mids. distinct mids \<and> set mids = wanted tc ctl st \<and> iwant = (if mids = [] then [] else [mkIWant mids])"
    by auto
qed

lemma mget_iwant_msgs:
  "mget (iwant_msgs mc iw m) k = (if k \<in> set (iw_MessageIDs iw) \<and> Get mc k \<noteq> None then Get mc k else mget m k)"
proof -
  have "mget (fold (\<lambda>mid ihave. case Get mc mid of None \<Rightarrow> ihave | Some msg \<Rightarrow> mput mid msg ihave) ids m) k =
      (if k \<in> set ids \<and> Get mc k \<noteq> None then Get mc k else mget m k)" for ids
    by (induction ids arbitrary: m) (auto simp: lookup_update split: option.split)
  then show ?thesis by (simp add: iwant_msgs_def)
qed

lemma mget_fold_iwant:
  "mget (fold (iwant_msgs mc) iws m) k =
     (if (\<exists>iw \<in> set iws. k \<in> set (iw_MessageIDs iw)) \<and> Get mc k \<noteq> None then Get mc k else mget m k)"
  by (induction iws arbitrary: m) (auto simp: mget_iwant_msgs)

lemma map_filter_all: "(\<And>x. x \<in> set xs \<Longrightarrow> f x \<noteq> None) \<Longrightarrow> List.map_filter f xs = map (the \<circ> f) xs"
  by (induction xs) (force simp: List.map_filter_simps split: option.split)+

lemma handleIWant_spec:
  assumes "handleIWant p ctl st = (msgs, st')"
  shows "\<exists>e. st' = st\<lparr>n_choices := e\<rparr>"
    and "\<exists>mids. distinct mids \<and> set mids = servable ctl st \<and> msgs = map (the \<circ> Get (gs_mcache st)) mids"
proof -
  let ?m = "fold (iwant_msgs (gs_mcache st)) (c_Iwant ctl) mempty"
  have get: "mget ?m k = (if k \<in> requested ctl then Get (gs_mcache st) k else None)" for k
    by (auto simp: mget_fold_iwant requested_def)
  then have dom: "mdom ?m = servable ctl st" by (auto simp: servable_def mem_mdom split: if_splits)
  have "(\<exists>e. st' = st\<lparr>n_choices := e\<rparr>) \<and>
    (\<exists>mids. distinct mids \<and> set mids = servable ctl st \<and> msgs = map (the \<circ> Get (gs_mcache st)) mids)"
  proof (cases "mdom ?m = {}")
    case True
    then show ?thesis
      using assms dom by (auto simp: handleIWant_def Let_def intro: exI [of _ "n_choices st"])
  next
    case False
    obtain l s where r: "range_over (mkeys ?m) st = (l, s)" by force
    note range = range_over_set [OF r]
    have "List.map_filter (mget ?m) l = map (the \<circ> mget ?m) l"
      using range(1) by (intro map_filter_all) (simp add: mem_mdom)
    also have "\<dots> = map (the \<circ> Get (gs_mcache st)) l"
      using range(1) by (auto simp: dom servable_def get)
    finally show ?thesis
      using assms dom False r range by (auto simp: handleIWant_def Let_def intro!: exI [of _ l])
  qed
  then show "\<exists>e. st' = st\<lparr>n_choices := e\<rparr>"
    and "\<exists>mids. distinct mids \<and> set mids = servable ctl st \<and> msgs = map (the \<circ> Get (gs_mcache st)) mids"
    by auto
qed

text \<open>One turn of each loop.\<close>

lemma in_mesh_graft:
  assumes "mget (gs_mesh st) u = Some peers"
  shows "in_mesh (tagPeer p u (st\<lparr>gs_mesh := mput u (mput p () peers) (gs_mesh st)\<rparr>)) t q
    \<longleftrightarrow> in_mesh st t q \<or> q = p \<and> t = u"
  using assms by (auto simp: in_mesh_def tagPeer_def mget0_update)

lemma in_mesh_prune:
  assumes "mget (gs_mesh st) u = Some peers"
  shows "in_mesh (untagPeer p u (st\<lparr>gs_mesh := mput u (mdel p peers) (gs_mesh st)\<rparr>)) t q
    \<longleftrightarrow> in_mesh st t q \<and> \<not> (q = p \<and> t = u)"
  using assms by (auto simp: in_mesh_def untagPeer_def mget0_update)

lemma in_mesh_mdom: "in_mesh st t q \<Longrightarrow> t \<in> mdom (gs_mesh st)"
  by (auto simp: in_mesh_def mget0_def split: option.splits)

lemma graft_loop_spec:
  assumes "graft_loop p gs prune st = (prune', st')"
  shows "prune' = prune @ filter (\<lambda>t. t \<notin> mdom (gs_mesh st)) (map Graft_GetTopicID gs) \<and>
    mdom (gs_mesh st') = mdom (gs_mesh st) \<and>
    (\<forall>t q. in_mesh st' t q \<longleftrightarrow>
       in_mesh st t q \<or> q = p \<and> t \<in> mdom (gs_mesh st) \<and> t \<in> set (map Graft_GetTopicID gs)) \<and>
    (\<exists>m tg. st' = st\<lparr>gs_mesh := m, n_tags := tg\<rparr>)"
  using assms
proof (induction p gs prune st rule: graft_loop.induct)
  case (1 p prune st)
  then have "st' = st\<lparr>gs_mesh := gs_mesh st, n_tags := n_tags st\<rparr>" by simp
  then have "\<exists>m tg. st' = st\<lparr>gs_mesh := m, n_tags := tg\<rparr>" by blast
  moreover have "prune' = prune" "st' = st" using 1 by simp_all
  ultimately show ?case by simp
next
  case (2 p g gs prune st)
  let ?u = "Graft_GetTopicID g"
  show ?case
  proof (cases "mget (gs_mesh st) ?u")
    case None
    with 2 show ?thesis by (force simp: Let_def mem_mdom)
  next
    case (Some peers)
    let ?s = "tagPeer p ?u (st\<lparr>gs_mesh := mput ?u (mput p () peers) (gs_mesh st)\<rparr>)"
    have dom: "mdom (gs_mesh ?s) = mdom (gs_mesh st)" using Some by (auto simp: tagPeer_def)
    have "graft_loop p gs prune ?s = (prune', st')" using 2(3) Some by (simp add: Let_def)
    from 2(2) [OF refl Some this] show ?thesis
      unfolding dom in_mesh_graft [OF Some] using Some by (auto simp: tagPeer_def)
  qed
qed

lemma prune_loop_spec:
  "mdom (gs_mesh (prune_loop p prs st)) = mdom (gs_mesh st) \<and>
   (\<forall>t q. in_mesh (prune_loop p prs st) t q \<longleftrightarrow>
      in_mesh st t q \<and> \<not> (q = p \<and> t \<in> set (map Prune_GetTopicID prs))) \<and>
   (\<exists>m tg. prune_loop p prs st = st\<lparr>gs_mesh := m, n_tags := tg\<rparr>)"
proof (induction p prs st rule: prune_loop.induct)
  case (1 p st)
  have "st = st\<lparr>gs_mesh := gs_mesh st, n_tags := n_tags st\<rparr>" by simp
  then have "\<exists>m tg. st = st\<lparr>gs_mesh := m, n_tags := tg\<rparr>" by blast
  then show ?case by simp
next
  case (2 p pr prs st)
  let ?u = "Prune_GetTopicID pr"
  show ?case
  proof (cases "mget (gs_mesh st) ?u")
    case None
    then have "\<not> in_mesh st ?u q" for q by (simp add: in_mesh_def)
    with 2(1) [OF refl None] None show ?thesis by (auto simp: Let_def)
  next
    case (Some peers)
    let ?s = "untagPeer p ?u (st\<lparr>gs_mesh := mput ?u (mdel p peers) (gs_mesh st)\<rparr>)"
    have dom: "mdom (gs_mesh ?s) = mdom (gs_mesh st)" using Some by (auto simp: untagPeer_def)
    have "prune_loop p (pr # prs) st = prune_loop p prs ?s" using Some by (simp add: Let_def)
    with 2(2) [OF refl Some] show ?thesis
      unfolding dom in_mesh_prune [OF Some] by (auto simp: untagPeer_def)
  qed
qed

text \<open>The state after the four handlers, before the reply is sent.\<close>

lemma handlers_spec:
  fixes st :: "('s, 'b, 'z) gossipsub_scheme"
  assumes "handleIHave tc p ctl st = (iwant, st1)" "handleIWant p ctl st1 = (ihave, st2)"
    "handleGraft p ctl st2 = (prune, st3)"
  defines "st4 \<equiv> handlePrune p ctl st3"
  shows "\<exists>mids. distinct mids \<and> set mids = wanted tc ctl st \<and> iwant = (if mids = [] then [] else [mkIWant mids])"
    and "\<exists>mids. distinct mids \<and> set mids = servable ctl st \<and> ihave = map (the \<circ> Get (gs_mcache st)) mids"
    and "prune = map mkPrune (loop_var_ptrs (refused ctl st))"
    and "in_mesh st4 t q \<longleftrightarrow>
      (if q = p then t \<in> mdom (gs_mesh st) \<and> (in_mesh st t q \<or> t \<in> set (graft_topics ctl)) \<and> t \<notin> set (prune_topics ctl)
       else in_mesh st t q)"
    and "mdom (gs_mesh st4) = mdom (gs_mesh st)"
    and "\<exists>m tg e. st4 = st\<lparr>gs_mesh := m, n_tags := tg, n_choices := e\<rparr>"
proof -
  note h1 = handleIHave_spec [OF assms(1)]
  obtain e1 where st1: "st1 = st\<lparr>n_choices := e1\<rparr>" using h1(1) by blast
  note h2 = handleIWant_spec [OF assms(2)]
  obtain e2 where st2: "st2 = st\<lparr>n_choices := e2\<rparr>" using h2(1) st1 by auto
  obtain us st3' where g: "graft_loop p (c_Graft ctl) [] st2 = (us, st3')" by force
  note gl = graft_loop_spec [OF g]
  have us: "us = refused ctl st" using gl by (simp add: st2 refused_def graft_topics_def)
  have st3: "st3 = st3'" and prune: "prune = map mkPrune (loop_var_ptrs us)"
    using assms(3) g by (auto simp: handleGraft_def loop_var_ptrs_def split: if_splits)
  note pl = prune_loop_spec [of p "c_Prune ctl" st3]
  show "\<exists>mids. distinct mids \<and> set mids = wanted tc ctl st \<and> iwant = (if mids = [] then [] else [mkIWant mids])"
    by (rule h1(2))
  show "\<exists>mids. distinct mids \<and> set mids = servable ctl st \<and> ihave = map (the \<circ> Get (gs_mcache st)) mids"
    using h2(2) by (simp add: st1 servable_def)
  show "prune = map mkPrune (loop_var_ptrs (refused ctl st))" by (simp add: prune us)
  have "in_mesh st3 t q \<longleftrightarrow> in_mesh st t q \<or> q = p \<and> t \<in> mdom (gs_mesh st) \<and> t \<in> set (graft_topics ctl)"
    using gl by (simp add: st2 st3 in_mesh_def graft_topics_def)
  moreover note in_mesh_mdom [of st t q]
  ultimately show "in_mesh st4 t q \<longleftrightarrow>
      (if q = p then t \<in> mdom (gs_mesh st) \<and> (in_mesh st t q \<or> t \<in> set (graft_topics ctl)) \<and> t \<notin> set (prune_topics ctl)
       else in_mesh st t q)"
    using pl by (auto simp: st4_def handlePrune_def prune_topics_def)
  show "mdom (gs_mesh st4) = mdom (gs_mesh st)"
    using pl gl by (simp add: st4_def handlePrune_def st3 st2)
  show "\<exists>m tg e. st4 = st\<lparr>gs_mesh := m, n_tags := tg, n_choices := e\<rparr>"
  proof -
    obtain m tg where "st3 = st2\<lparr>gs_mesh := m, n_tags := tg\<rparr>" using gl st3 by blast
    moreover obtain m' tg' where "st4 = st3\<lparr>gs_mesh := m', n_tags := tg'\<rparr>"
      using pl unfolding st4_def handlePrune_def by blast
    ultimately have "st4 = st\<lparr>gs_mesh := m', n_tags := tg', n_choices := e2\<rparr>" by (simp add: st2)
    then show ?thesis by blast
  qed
qed

section \<open>Sending one message to several peers\<close>

text \<open>
  \<open>sendRPC\<close> for one peer after another, each followed by an update \<open>g p\<close> of the connection manager's
  tags: the turns do not disturb each other.
\<close>

lemma merged_cong:
  assumes "mget (gs_control st') p = mget (gs_control st) p" "mget (gs_gossip st') p = mget (gs_gossip st) p"
    "gs_mesh st' = gs_mesh st"
  shows "merged p out st' = merged p out st"
  using assms by (simp add: merged_def with_gossip_def with_control_def piggybackControl_def split: option.split)

lemma has_room_cong:
  assumes "peers_ok st" "gs_sends st st'" "outbox st' p = outbox st p"
  shows "has_room st' p = has_room st p"
proof (cases "mget (n_peers st) p")
  case None
  then have "p \<notin> mdom (n_peers st)" by (simp add: mem_mdom)
  moreover have "mdom (n_peers st') = mdom (n_peers st)"
    using assms(2) by (intro frame_mdom_peers) (simp add: gs_sends_def gs_frame_def)
  ultimately have "p \<notin> mdom (n_peers st')" by simp
  with None show ?thesis by (simp add: has_room_def mem_mdom)
next
  case (Some c)
  moreover have "p \<in> mdom (n_peers st')"
    using assms(2) Some by (auto simp: gs_sends_def gs_frame_def frame_mdom_peers)
  then obtain c' where c': "mget (n_peers st') p = Some c'" by (auto simp: mem_mdom)
  moreover have "ch_cap c' = ch_cap c"
    using assms(2) Some c' by (auto simp: gs_sends_def gs_frame_def router_frame_def queues_extend_def)
  ultimately show ?thesis using assms(3) by (simp add: has_room_def chan_room_def outbox_def)
qed

definition sends_each ::
  "(peer \<Rightarrow> RPC) \<Rightarrow> peer list \<Rightarrow> (peer \<Rightarrow> tag_call list) \<Rightarrow> ('s, 'b, 'z) gossipsub_scheme \<Rightarrow> ('s, 'b, 'z) gossipsub_scheme \<Rightarrow> bool" where
  "sends_each out ps h st st' \<longleftrightarrow>
     gs_sends st st' \<and> n_tags st' = n_tags st @ concat (map h ps) \<and>
     (\<forall>p. outbox st' p = (if p \<in> set ps \<and> has_room st p then outbox st p @ [merged p (out p) st] else outbox st p)) \<and>
     (\<forall>p. p \<notin> set ps \<longrightarrow> mget (gs_control st') p = mget (gs_control st) p \<and>
                          mget (gs_gossip st') p = mget (gs_gossip st) p)"

lemma foldM_sends_each:
  fixes st :: "('s, 'b, 'z) gossipsub_scheme"
  assumes "peers_ok st" "distinct ps"
    and g: "\<And>p s :: ('s, 'b, 'z) gossipsub_scheme. g p s = s\<lparr>n_tags := n_tags s @ h p\<rparr>"
  shows "\<exists>st'. foldM (\<lambda>p s. map_option (g p) (sendRPC p (out p) s)) ps st = Some st' \<and> sends_each out ps h st st'"
  using assms(1,2)
proof (induction ps arbitrary: st)
  case Nil
  then show ?case by (simp add: sends_each_def)
next
  case (Cons p ps)
  obtain s where s: "sendRPC p (out p) st = Some s" "gs_sends st s" "n_tags s = n_tags st"
    and box: "outbox s = (if has_room st p then (outbox st)(p := outbox st p @ [merged p (out p) st]) else outbox st)"
    and pend: "\<And>q. q \<noteq> p \<Longrightarrow> mget (gs_gossip s) q = mget (gs_gossip st) q"
      "\<And>q. q \<noteq> p \<Longrightarrow> mget (gs_control s) q = mget (gs_control st) q"
    using sendRPC_spec [OF Cons.prems(1), of p "out p"] by auto
  let ?s = "g p s"
  have sends: "gs_sends st ?s"
    using s(2) by (rule gs_sends_trans) (simp add: g gs_sends_def gs_frame_def router_frame_def)
  have ok: "peers_ok ?s" using sends gs_frame_peers_ok [OF Cons.prems(1)] by (simp add: gs_sends_def)
  have same: "outbox ?s = outbox s" "gs_control ?s = gs_control s" "gs_gossip ?s = gs_gossip s"
    "gs_mesh ?s = gs_mesh st" using s(2) by (simp_all add: g outbox_def gs_sends_def fun_eq_iff)
  have d: "distinct ps" "p \<notin> set ps" using Cons.prems(2) by auto
  obtain st' where st': "foldM (\<lambda>p s. map_option (g p) (sendRPC p (out p) s)) ps ?s = Some st'"
    "sends_each out ps h ?s st'" using Cons.IH [OF ok d(1)] by blast
  note each = st'(2) [unfolded sends_each_def]
  have other: "has_room ?s q = has_room st q" "merged q (out q) ?s = merged q (out q) st" "outbox ?s q = outbox st q"
    if "q \<noteq> p" for q
  proof -
    show box': "outbox ?s q = outbox st q" using box that by (simp add: same)
    show "has_room ?s q = has_room st q" by (rule has_room_cong [OF Cons.prems(1) sends box'])
    show "merged q (out q) ?s = merged q (out q) st" using that by (intro merged_cong) (simp_all add: same pend)
  qed
  have "outbox st' q = (if q \<in> set (p # ps) \<and> has_room st q then outbox st q @ [merged q (out q) st] else outbox st q)" for q
    using each d(2) box by (cases "q = p") (auto simp: same(1) other)
  moreover have "n_tags st' = n_tags st @ concat (map h (p # ps))" using each s(3) by (simp add: g)
  moreover have "gs_sends st st'" using sends each gs_sends_trans by blast
  moreover have "mget (gs_control st') q = mget (gs_control st) q \<and> mget (gs_gossip st') q = mget (gs_gossip st) q"
    if "q \<notin> set (p # ps)" for q using each pend that by (simp add: same)
  ultimately have "sends_each out (p # ps) h st st'" unfolding sends_each_def by blast
  moreover have "foldM (\<lambda>p s. map_option (g p) (sendRPC p (out p) s)) (p # ps) st = Some st'" using s(1) st'(1) by simp
  ultimately show ?case by blast
qed

section \<open>Joining and leaving\<close>

lemma foldM_Some_eq: "(\<And>x s. f x s = map_option (g x) (h x s)) \<Longrightarrow> foldM f xs st = foldM (\<lambda>x s. map_option (g x) (h x s)) xs st"
  by (induction xs arbitrary: st) (auto split: Option.bind_splits)

lemma tagPeer_upd: "tagPeer p t s = s\<lparr>n_tags := n_tags s @ [TagPeer p (topicTag t) 2]\<rparr>"
  by (simp add: tagPeer_def)

lemma untagPeer_upd: "untagPeer p t s = s\<lparr>n_tags := n_tags s @ [UntagPeer p (topicTag t)]\<rparr>"
  by (simp add: untagPeer_def)

text \<open>The control messages of a round of GRAFTs and of PRUNEs.\<close>

definition graft_rpc :: "topic \<Rightarrow> RPC" where "graft_rpc t = rpcWithControl [] [] [] [mkGraft t] []"
definition prune_rpc :: "topic \<Rightarrow> RPC" where "prune_rpc t = rpcWithControl [] [] [] [] [mkPrune t]"

lemma graft_round:
  fixes s :: "('s, 'b, 'z) gossipsub_scheme"
  assumes "peers_ok s"
  shows "\<exists>ps st'. (let (ps, s2) = range_over (mkeys gmap) s
        in foldM (\<lambda>p st. map_option (tagPeer p t) (sendGraft p t st)) ps s2) = Some st' \<and>
      set ps = mdom gmap \<and> distinct ps \<and> sends_each (\<lambda>_. graft_rpc t) ps (\<lambda>p. [TagPeer p (topicTag t) 2]) s st'"
proof -
  obtain ps s2 where r: "range_over (mkeys gmap) s = (ps, s2)" by force
  note range = range_over_set [OF r]
  obtain e where s2: "s2 = s\<lparr>n_choices := e\<rparr>" using range(4) by blast
  have ok: "peers_ok s2" using assms by (simp add: s2 peers_ok_def)
  have dist: "distinct ps" using range(2) by simp
  obtain st' where st': "foldM (\<lambda>p s. map_option (tagPeer p t) (sendRPC p (graft_rpc t) s)) ps s2 = Some st'"
    "sends_each (\<lambda>_. graft_rpc t) ps (\<lambda>p. [TagPeer p (topicTag t) 2]) s2 st'"
    using foldM_sends_each [OF ok dist, where out = "\<lambda>_. graft_rpc t" and g = "\<lambda>p. tagPeer p t" and h = "\<lambda>p. [TagPeer p (topicTag t) 2]",
        OF tagPeer_upd] by blast
  have "gs_sends s s2" by (simp add: s2)
  moreover have "merged p out s2 = merged p out s" for p out by (rule merged_cong) (simp_all add: s2)
  ultimately have "sends_each (\<lambda>_. graft_rpc t) ps (\<lambda>p. [TagPeer p (topicTag t) 2]) s st'"
    using st'(2) unfolding sends_each_def by (auto simp: s2 intro: gs_sends_trans)
  then show ?thesis using st'(1) range dist r by (auto simp: sendGraft_def graft_rpc_def)
qed

lemma prune_round:
  fixes s :: "('s, 'b, 'z) gossipsub_scheme"
  assumes "peers_ok s"
  shows "\<exists>ps st'. (let (ps, s2) = range_over (mkeys gmap) s
        in foldM (\<lambda>p st. map_option (untagPeer p t) (sendPrune p t st)) ps s2) = Some st' \<and>
      set ps = mdom gmap \<and> distinct ps \<and> sends_each (\<lambda>_. prune_rpc t) ps (\<lambda>p. [UntagPeer p (topicTag t)]) s st'"
proof -
  obtain ps s2 where r: "range_over (mkeys gmap) s = (ps, s2)" by force
  note range = range_over_set [OF r]
  obtain e where s2: "s2 = s\<lparr>n_choices := e\<rparr>" using range(4) by blast
  have ok: "peers_ok s2" using assms by (simp add: s2 peers_ok_def)
  have dist: "distinct ps" using range(2) by simp
  obtain st' where st': "foldM (\<lambda>p s. map_option (untagPeer p t) (sendRPC p (prune_rpc t) s)) ps s2 = Some st'"
    "sends_each (\<lambda>_. prune_rpc t) ps (\<lambda>p. [UntagPeer p (topicTag t)]) s2 st'"
    using foldM_sends_each [OF ok dist, where out = "\<lambda>_. prune_rpc t" and g = "\<lambda>p. untagPeer p t" and h = "\<lambda>p. [UntagPeer p (topicTag t)]",
        OF untagPeer_upd] by blast
  have "gs_sends s s2" by (simp add: s2)
  moreover have "merged p out s2 = merged p out s" for p out by (rule merged_cong) (simp_all add: s2)
  ultimately have "sends_each (\<lambda>_. prune_rpc t) ps (\<lambda>p. [UntagPeer p (topicTag t)]) s st'"
    using st'(2) unfolding sends_each_def by (auto simp: s2 intro: gs_sends_trans)
  then show ?thesis using st'(1) range dist r by (auto simp: sendPrune_def prune_rpc_def)
qed

text \<open>The peers the mesh of a topic starts from.\<close>

lemma gs_Join_spec:
  fixes st :: "('s, 'b, 'z) gossipsub_scheme"
  assumes ok: "peers_ok st" and new: "t \<notin> mdom (gs_mesh st)"
  shows "\<exists>st' s ps gmap. gs_Join t st = Some st' \<and> set ps = mdom gmap \<and> distinct ps \<and>
    sends_each (\<lambda>_. graft_rpc t) ps (\<lambda>p. [TagPeer p (topicTag t) 2]) s st' \<and>
    gs_mesh s = mput t gmap (gs_mesh st) \<and> n_tags s = n_tags st \<and> n_peers s = n_peers st \<and>
    gs_control s = gs_control st \<and> gs_gossip s = gs_gossip st \<and>
    mget (gs_fanout s) = (mget (gs_fanout st))(t := None) \<and>
    (case mget (gs_fanout st) t of
       Some f \<Rightarrow> gmap = f
     | None \<Rightarrow> mdom gmap \<subseteq> gs_candidates st t (\<lambda>_. True) \<and>
               mlen gmap = min 6 (card (gs_candidates st t (\<lambda>_. True))))"
proof (cases "mget (gs_fanout st) t")
  case None
  obtain peers st1 where g: "getPeers t GossipSubD (\<lambda>p. True) st = (peers, st1)" by force
  note gp = getPeers_spec [OF g]
  obtain e where st1: "st1 = st\<lparr>n_choices := e\<rparr>" using getPeers_choices [OF g] by blast
  let ?g = "peerListToMap peers" and ?s = "st1\<lparr>gs_mesh := mput t (peerListToMap peers) (gs_mesh st1)\<rparr>"
  have "peers_ok ?s" using ok by (simp add: st1 peers_ok_def)
  from graft_round [OF this, of ?g t] obtain ps st' where
    r: "gs_Join t st = Some st'" "set ps = mdom ?g" "distinct ps"
      "sends_each (\<lambda>_. graft_rpc t) ps (\<lambda>p. [TagPeer p (topicTag t) 2]) ?s st'"
    using None new g by (auto simp: gs_Join_def Let_def)
  have card: "mlen ?g = min 6 (card (gs_candidates st t (\<lambda>_. True)))"
    using gp(1,3) by (simp add: mlen_card distinct_card GossipSubD_def)
  have fan: "mget (gs_fanout ?s) = (mget (gs_fanout st))(t := None)" using None by (simp add: st1 fun_eq_iff)
  show ?thesis
    by (rule exI [of _ st'], rule exI [of _ ?s], rule exI [of _ ps], rule exI [of _ ?g])
      (use r card gp(2) fan None in \<open>simp add: st1\<close>)
next
  case (Some f)
  let ?s = "st\<lparr>gs_mesh := mput t f (gs_mesh st), gs_fanout := mdel t (gs_fanout st),
              gs_lastpub := mdel t (gs_lastpub st)\<rparr>"
  have "peers_ok ?s" using ok by (simp add: peers_ok_def)
  from graft_round [OF this, of f t] obtain ps st' where
    r: "gs_Join t st = Some st'" "set ps = mdom f" "distinct ps"
      "sends_each (\<lambda>_. graft_rpc t) ps (\<lambda>p. [TagPeer p (topicTag t) 2]) ?s st'"
    using Some new by (auto simp: gs_Join_def Let_def)
  show ?thesis
    by (rule exI [of _ st'], rule exI [of _ ?s], rule exI [of _ ps], rule exI [of _ f])
      (use r Some in \<open>simp add: fun_eq_iff\<close>)
qed

lemma gs_Leave_spec:
  fixes st :: "('s, 'b, 'z) gossipsub_scheme"
  assumes ok: "peers_ok st" and old: "mget (gs_mesh st) t = Some gmap"
  shows "\<exists>st' ps. gs_Leave t st = Some st' \<and> set ps = mdom gmap \<and> distinct ps \<and>
    sends_each (\<lambda>_. prune_rpc t) ps (\<lambda>p. [UntagPeer p (topicTag t)]) (st\<lparr>gs_mesh := mdel t (gs_mesh st)\<rparr>) st'"
proof -
  have "peers_ok (st\<lparr>gs_mesh := mdel t (gs_mesh st)\<rparr>)" using ok by (simp add: peers_ok_def)
  from prune_round [OF this, of gmap t] old show ?thesis by (auto simp: gs_Leave_def)
qed

section \<open>Publishing\<close>

text \<open>The flooding peers of a topic, and the topic's mesh or else its fanout.\<close>

definition flood_peers :: "('s, 'b, 'z) gossipsub_scheme \<Rightarrow> topic \<Rightarrow> peer set" where
  "flood_peers st t = {p \<in> mdom (mget0 (n_topics st) t). mget (gs_peers st) p = Some FloodSubID}"

definition mesh_or_fanout :: "('s, 'b, 'z) gossipsub_scheme \<Rightarrow> topic \<Rightarrow> peer set" where
  "mesh_or_fanout st t =
     (if t \<in> mdom (gs_mesh st) then mdom (mget0 (gs_mesh st) t) else mdom (mget0 (gs_fanout st) t))"

definition recipients :: "('s, 'b, 'z) gossipsub_scheme \<Rightarrow> topic \<Rightarrow> peer set" where
  "recipients st t = (if t \<in> mdom (n_topics st) then flood_peers st t \<union> mesh_or_fanout st t else {})"

text \<open>A topic whose fanout no later publication changes.\<close>

definition settled :: "('s, 'b, 'z) gossipsub_scheme \<Rightarrow> topic \<Rightarrow> bool" where
  "settled st t \<longleftrightarrow> t \<in> mdom (gs_mesh st) \<or> mdom (mget0 (gs_fanout st) t) \<noteq> {} \<or> gs_candidates st t (\<lambda>_. True) = {}"

definition pub_keeps :: "('s, 'b, 'z) gossipsub_scheme \<Rightarrow> ('s, 'b, 'z) gossipsub_scheme \<Rightarrow> bool" where
  "pub_keeps st st' \<longleftrightarrow> (\<exists>f l e. st' = st\<lparr>gs_fanout := f, gs_lastpub := l, n_choices := e\<rparr>) \<and>
     (\<forall>t. settled st t \<longrightarrow> settled st' t \<and> mesh_or_fanout st' t = mesh_or_fanout st t)"

lemma pub_keeps_refl [simp, intro]: "pub_keeps st st"
proof -
  have "st = st\<lparr>gs_fanout := gs_fanout st, gs_lastpub := gs_lastpub st, n_choices := n_choices st\<rparr>" by simp
  then show ?thesis unfolding pub_keeps_def by blast
qed

lemma pub_keeps_trans: assumes "pub_keeps s t" "pub_keeps t u" shows "pub_keeps s u"
proof -
  obtain f l e where t: "t = s\<lparr>gs_fanout := f, gs_lastpub := l, n_choices := e\<rparr>"
    using assms(1) by (auto simp: pub_keeps_def)
  obtain f' l' e' where "u = t\<lparr>gs_fanout := f', gs_lastpub := l', n_choices := e'\<rparr>"
    using assms(2) by (auto simp: pub_keeps_def)
  then have "u = s\<lparr>gs_fanout := f', gs_lastpub := l', n_choices := e'\<rparr>" by (simp add: t)
  with assms show ?thesis unfolding pub_keeps_def by blast
qed

lemma publish_gmap_spec:
  assumes "publish_gmap t st = (gmap, st')"
  shows "pub_keeps st st'" "settled st' t" "mdom gmap = mesh_or_fanout st' t"
proof -
  have "pub_keeps st st' \<and> settled st' t \<and> mdom gmap = mesh_or_fanout st' t"
  proof (cases "mget (gs_mesh st) t")
    case (Some g)
    then have "gmap = g" "st' = st" using assms by (simp_all add: publish_gmap_def)
    with Some show ?thesis by (auto simp: settled_def mesh_or_fanout_def mem_mdom)
  next
    case None
    then have out: "t \<notin> mdom (gs_mesh st)" by (simp add: mem_mdom)
    let ?fan = "mget0 (gs_fanout st) t"
    show ?thesis
    proof (cases "mdom ?fan = {}")
      case False
      then have "t \<in> mdom (gs_fanout st)" by (auto simp: mget0_def mem_mdom split: option.splits)
      then have gmap: "gmap = ?fan" and st': "st' = st\<lparr>gs_lastpub := mput t (n_clock st) (gs_lastpub st)\<rparr>"
        using assms None False by (auto simp: publish_gmap_def Let_def)
      have "st' = st\<lparr>gs_fanout := gs_fanout st, gs_lastpub := mput t (n_clock st) (gs_lastpub st), n_choices := n_choices st\<rparr>"
        by (simp add: st')
      moreover have "settled st' u = settled st u" "mesh_or_fanout st' u = mesh_or_fanout st u" for u
        by (simp_all add: st' settled_def mesh_or_fanout_def gs_candidates_def)
      ultimately have "pub_keeps st st'" unfolding pub_keeps_def by blast
      then show ?thesis using False out by (simp add: settled_def mesh_or_fanout_def gmap st')
    next
      case True
      obtain peers st1 where g: "getPeers t GossipSubD (\<lambda>p. True) st = (peers, st1)" by force
      note gp = getPeers_spec [OF g]
      obtain e where st1: "st1 = st\<lparr>n_choices := e\<rparr>" using getPeers_choices [OF g] by blast
      have len: "length peers = min 6 (card (gs_candidates st t (\<lambda>_. True)))" using gp(3) by (simp add: GossipSubD_def)
      define f where "f = (if peers \<noteq> [] then mput t (peerListToMap peers) (gs_fanout st) else gs_fanout st)"
      have gmap: "gmap = (if peers \<noteq> [] then peerListToMap peers else ?fan)"
        and st': "st' = st\<lparr>gs_fanout := f, gs_lastpub := mput t (n_clock st) (gs_lastpub st), n_choices := e\<rparr>"
        using assms None True g by (auto simp: publish_gmap_def Let_def st1 f_def split: if_splits)
      have dom: "mdom gmap = set peers" using True by (simp add: gmap)
      have fan: "mdom (mget0 f t) = set peers" using True by (auto simp: f_def mget0_update)
      have none: "gs_candidates st t (\<lambda>_. True) = {}" if "peers = []"
      proof -
        have "card (gs_candidates st t (\<lambda>_. True)) = 0" using len that by (simp add: min_def split: if_splits)
        then show ?thesis by (simp only: card_0_eq [OF finite_candidates])
      qed
      have "gs_candidates st' = gs_candidates st" by (simp add: st' gs_candidates_def fun_eq_iff)
      then have sett: "settled st' t" using fan none by (cases peers) (auto simp: settled_def st')
      have "settled st' u \<and> mesh_or_fanout st' u = mesh_or_fanout st u" if u: "settled st u" for u
      proof (cases "u = t")
        case True
        have "gs_candidates st t (\<lambda>_. True) = {}" using u out \<open>mdom ?fan = {}\<close> True by (simp add: settled_def)
        then have "peers = []" using len by simp
        with True sett \<open>mdom ?fan = {}\<close> out fan show ?thesis by (simp add: mesh_or_fanout_def st')
      next
        case False
        then have "mget0 f u = mget0 (gs_fanout st) u" by (simp add: f_def mget0_update)
        with u show ?thesis by (simp add: st' settled_def mesh_or_fanout_def gs_candidates_def)
      qed
      then have "pub_keeps st st'" unfolding pub_keeps_def st' by blast
      then show ?thesis using sett dom fan out by (simp add: mesh_or_fanout_def st')
    qed
  qed
  then show "pub_keeps st st'" "settled st' t" "mdom gmap = mesh_or_fanout st' t" by blast+
qed

lemma pub_keeps_recipients:
  assumes "pub_keeps st st'" "settled st t \<or> t \<notin> mdom (n_topics st)" shows "recipients st' t = recipients st t"
  using assms by (auto simp: pub_keeps_def recipients_def flood_peers_def)

lemma publish_topic_spec:
  assumes "publish_topic t (tosend, st) = (tosend', st')"
  shows "pub_keeps st st'" "settled st' t \<or> t \<notin> mdom (n_topics st')"
    "mdom tosend' = mdom tosend \<union> recipients st' t"
proof -
  have "pub_keeps st st' \<and> (settled st' t \<or> t \<notin> mdom (n_topics st')) \<and>
    mdom tosend' = mdom tosend \<union> recipients st' t"
  proof (cases "mget (n_topics st) t")
    case None
    then have "tosend' = tosend" "st' = st" using assms by (simp_all add: publish_topic_def)
    with None show ?thesis by (simp add: recipients_def mem_mdom)
  next
    case (Some tmap)
    let ?ts = "fold (\<lambda>p tosend. if mget (gs_peers st) p = Some FloodSubID then mput p () tosend else tosend)
                 (mkeys tmap) tosend"
    obtain gmap st1 where g: "publish_gmap t st = (gmap, st1)" by force
    note pg = publish_gmap_spec [OF g]
    have eq: "tosend' = fold (\<lambda>p. mput p ()) (mkeys gmap) ?ts" "st' = st1"
      using assms Some g by (simp_all add: publish_topic_def Let_def)
    have "mdom (fold (\<lambda>p tosend. if P p then mput p () tosend else tosend) ps tosend) =
        {p \<in> set ps. P p} \<union> mdom tosend" for P and ps :: "peer list"
      by (induction ps arbitrary: tosend) auto
    then have "mdom ?ts = flood_peers st t \<union> mdom tosend" using Some by (simp add: flood_peers_def)
    moreover have "flood_peers st1 t = flood_peers st t" "n_topics st1 = n_topics st"
      using pg(1) by (auto simp: pub_keeps_def flood_peers_def)
    moreover have "t \<in> mdom (n_topics st)" using Some by (rule mem_mdomI)
    ultimately have rec: "recipients st' t = flood_peers st t \<union> mdom gmap" "mdom ?ts = flood_peers st t \<union> mdom tosend"
      using pg(3) by (simp_all add: eq recipients_def)
    have "mdom tosend' = mdom tosend \<union> recipients st' t"
      unfolding eq(1) rec(1) mdom_fold_mput rec(2) set_mkeys by blast
    then show ?thesis using pg(1,2) eq by simp
  qed
  then show "pub_keeps st st'" "settled st' t \<or> t \<notin> mdom (n_topics st')"
    "mdom tosend' = mdom tosend \<union> recipients st' t" by blast+
qed

lemma publish_topics_spec:
  assumes "fold publish_topic ts (tosend, st) = (tosend', st')"
  shows "pub_keeps st st' \<and> mdom tosend' = mdom tosend \<union> (\<Union>t \<in> set ts. recipients st' t)"
  using assms
proof (induction ts arbitrary: tosend st)
  case (Cons t ts)
  obtain tosend1 st1 where s: "publish_topic t (tosend, st) = (tosend1, st1)" by force
  note pt = publish_topic_spec [OF s]
  have IH: "pub_keeps st1 st' \<and> mdom tosend' = mdom tosend1 \<union> (\<Union>t \<in> set ts. recipients st' t)"
    using Cons s by simp
  then have "recipients st' t = recipients st1 t" by (intro pub_keeps_recipients [OF _ pt(2)]) simp
  moreover have "pub_keeps st st'" using pub_keeps_trans [OF pt(1)] IH by blast
  ultimately show ?case using IH pt(3) by (simp add: Un_assoc)
qed simp

lemma gs_Publish_loop:
  "foldM (\<lambda>pid st. if pid = frm \<or> pid = a then Some st else sendRPC pid out st) pids st =
   foldM (\<lambda>p s. map_option (\<lambda>s. s\<lparr>n_tags := n_tags s @ []\<rparr>) (sendRPC p out s)) (filter (\<lambda>p. p \<noteq> frm \<and> p \<noteq> a) pids) st"
  by (subst foldM_skip) (simp add: option.map_ident)

text \<open>
  The effect of \<open>Publish\<close>: the message is cached, missing fanouts are chosen, and every recipient but
  the sender and the author gets the message.
\<close>

lemma gs_Publish_spec:
  fixes st :: "('s, 'b, 'z) gossipsub_scheme"
  assumes ok: "peers_ok st" and inv: "gs_inv st"
  shows "\<exists>st' s ps mc. gs_Publish frm msg st = Some st' \<and> Put msg (gs_mcache st) = Some mc \<and>
    pub_keeps (st\<lparr>gs_mcache := mc\<rparr>) s \<and> distinct ps \<and>
    set ps = (\<Union>t \<in> set (m_TopicIDs msg). recipients s t) - {frm, GetFrom msg} \<and>
    sends_each (\<lambda>_. rpcWithMessages [msg]) ps (\<lambda>_. []) s st'"
proof -
  obtain mc where mc: "Put msg (gs_mcache st) = Some mc" "mc_ok mc"
    using Put_ok inv by (auto simp: gs_inv_def)
  let ?s0 = "st\<lparr>gs_mcache := mc\<rparr>"
  obtain tosend st1 where 1: "fold publish_topic (m_TopicIDs msg) (mempty, ?s0) = (tosend, st1)" by force
  note pts = publish_topics_spec [OF 1]
  obtain pids s where 2: "range_over (mkeys tosend) st1 = (pids, s)" by force
  note range = range_over_set [OF 2]
  obtain e where s: "s = st1\<lparr>n_choices := e\<rparr>" using range(4) by blast
  have views: "recipients s = recipients st1" "mesh_or_fanout s = mesh_or_fanout st1" "settled s = settled st1"
    by (simp_all add: s recipients_def flood_peers_def mesh_or_fanout_def settled_def gs_candidates_def fun_eq_iff)
  obtain f l e1 where "st1 = ?s0\<lparr>gs_fanout := f, gs_lastpub := l, n_choices := e1\<rparr>"
    using pts by (auto simp: pub_keeps_def)
  then have s': "s = ?s0\<lparr>gs_fanout := f, gs_lastpub := l, n_choices := e\<rparr>" by (simp add: s)
  have keeps: "pub_keeps ?s0 s"
    using pts s' unfolding pub_keeps_def views by blast
  let ?ps = "filter (\<lambda>p. p \<noteq> frm \<and> p \<noteq> GetFrom msg) pids"
  have set: "set ?ps = (\<Union>t \<in> set (m_TopicIDs msg). recipients s t) - {frm, GetFrom msg}"
    using range(1) pts by (auto simp: views)
  have dist: "distinct ?ps" using range(2) by simp
  have ok': "peers_ok s" using ok by (simp add: s' peers_ok_def)
  obtain st' where "foldM (\<lambda>p s. map_option (\<lambda>s. s\<lparr>n_tags := n_tags s @ []\<rparr>) (sendRPC p (rpcWithMessages [msg]) s)) ?ps s = Some st'"
    "sends_each (\<lambda>_. rpcWithMessages [msg]) ?ps (\<lambda>_. []) s st'"
    using foldM_sends_each [OF ok' dist, where out = "\<lambda>_. rpcWithMessages [msg]" and h = "\<lambda>_. []", OF refl] by blast
  then show ?thesis
    using mc(1) keeps set dist
    by (intro exI [of _ st'] exI [of _ s] exI [of _ ?ps] exI [of _ mc])
      (simp add: gs_Publish_def 1 2 gs_Publish_loop)
qed

end
