(* ===== verification/Heartbeat.thy ===== *)
theory Heartbeat
  imports GossipSpec
begin

text \<open>
  The heartbeat of \<open>gossipsub.go\<close>, which the router's timer sends to the pubsub loop every second:
  it flushes pending control messages and gossip, repairs the meshes, expires and repairs the fanouts,
  gossips about the cached messages, sends the coalesced GRAFTs and PRUNEs and shifts the cache.

  An entry that a failed send puts back into \<open>gs.control\<close> while \<open>flush\<close> ranges over that map may be
  visited again; the queue is still full then and the visit changes nothing (\<open>flush_again\<close>), so each
  entry is visited once here.
\<close>

section \<open>Flushing and gossiping\<close>

definition flush_gossip :: "peer \<Rightarrow> ('s, 'b, 'z) gossipsub_scheme \<Rightarrow> ('s, 'b, 'z) gossipsub_scheme option" where
  "flush_gossip p st =
     (case mget (gs_gossip st) p of
        None \<Rightarrow> Some st
      | Some ihave \<Rightarrow>
          sendRPC p (rpcWithControl [] ihave [] [] []) (st\<lparr>gs_gossip := mdel p (gs_gossip st)\<rparr>))"

definition flush_control :: "peer \<Rightarrow> ('s, 'b, 'z) gossipsub_scheme \<Rightarrow> ('s, 'b, 'z) gossipsub_scheme option" where
  "flush_control p st =
     (case mget (gs_control st) p of
        None \<Rightarrow> Some st
      | Some ctl \<Rightarrow>
          sendRPC p (rpcWithControl [] [] [] (c_Graft ctl) (c_Prune ctl))
            (st\<lparr>gs_control := mdel p (gs_control st)\<rparr>))"

definition flush :: "('s, 'b, 'z) gossipsub_scheme \<Rightarrow> ('s, 'b, 'z) gossipsub_scheme option" where
  "flush st =
     (let (ps, st) = range_over (mkeys (gs_gossip st)) st
      in do {
           st \<leftarrow> foldM flush_gossip ps st;
           let (ps, st) = range_over (mkeys (gs_control st)) st;
           foldM flush_control ps st
         })"

definition emitGossip ::
  "topic \<Rightarrow> (peer, unit) alist \<Rightarrow> ('s, 'b, 'z) gossipsub_scheme \<Rightarrow> ('s, 'b, 'z) gossipsub_scheme option" where
  "emitGossip topic peers st =
     do {
       mids \<leftarrow> GetGossipIDs topic (gs_mcache st);
       if mids = [] then Some st
       else let (gpeers, st1) = getPeers topic GossipSubD (\<lambda>p. True) st
            in Some (fold (\<lambda>p st. if mhas peers p then st else pushGossip p (mkIHave topic mids) st) gpeers st1)
     }"

section \<open>Repairing the meshes\<close>

definition append_topic :: "peer \<Rightarrow> topic \<Rightarrow> (peer, topic list) alist \<Rightarrow> (peer, topic list) alist" where
  "append_topic p topic m = mput p ((case mget m p of None \<Rightarrow> [] | Some ts \<Rightarrow> ts) @ [topic]) m"

text \<open>\<open>peers[p] = struct{}{}\<close> and \<open>delete(peers, p)\<close> on the map stored in \<open>gs.mesh[topic]\<close>.\<close>

definition add_link ::
  "topic \<Rightarrow> peer \<Rightarrow> ('s, 'b, 'z) gossipsub_scheme \<times> (peer, topic list) alist \<Rightarrow>
   ('s, 'b, 'z) gossipsub_scheme \<times> (peer, topic list) alist" where
  "add_link topic p = (\<lambda>(st, tograft).
     (tagPeer p topic (st\<lparr>gs_mesh := mput topic (mput p () (mget0 (gs_mesh st) topic)) (gs_mesh st)\<rparr>),
      append_topic p topic tograft))"

definition drop_link ::
  "topic \<Rightarrow> peer \<Rightarrow> ('s, 'b, 'z) gossipsub_scheme \<times> (peer, topic list) alist \<Rightarrow>
   ('s, 'b, 'z) gossipsub_scheme \<times> (peer, topic list) alist" where
  "drop_link topic p = (\<lambda>(st, toprune).
     (untagPeer p topic (st\<lparr>gs_mesh := mput topic (mdel p (mget0 (gs_mesh st) topic)) (gs_mesh st)\<rparr>),
      append_topic p topic toprune))"

text \<open>\<open>if len(peers) < GossipSubDlo { ... }\<close> and \<open>if len(peers) > GossipSubDhi { ... }\<close>.\<close>

definition more_links ::
  "topic \<Rightarrow> ('s, 'b, 'z) gossipsub_scheme \<times> (peer, topic list) alist \<Rightarrow>
   ('s, 'b, 'z) gossipsub_scheme \<times> (peer, topic list) alist" where
  "more_links topic = (\<lambda>(st, tograft).
     let peers = mget0 (gs_mesh st) topic
     in if int (mlen peers) < GossipSubDlo
        then let ineed = GossipSubD - int (mlen peers);
                 (plst, st1) = getPeers topic ineed (\<lambda>p. \<not> mhas peers p) st
             in fold (add_link topic) plst (st1, tograft)
        else (st, tograft))"

definition fewer_links ::
  "topic \<Rightarrow> ('s, 'b, 'z) gossipsub_scheme \<times> (peer, topic list) alist \<Rightarrow>
   ('s, 'b, 'z) gossipsub_scheme \<times> (peer, topic list) alist" where
  "fewer_links topic = (\<lambda>(st, toprune).
     let peers = mget0 (gs_mesh st) topic
     in if int (mlen peers) > GossipSubDhi
        then let idontneed = int (mlen peers) - GossipSubD;
                 (plst, st1) = peerMapToList peers st;
                 (plst, st2) = shufflePeers plst st1
             in fold (drop_link topic) (take (nat idontneed) plst) (st2, toprune)
        else (st, toprune))"

definition mesh_topic ::
  "topic \<Rightarrow> ('s, 'b, 'z) gossipsub_scheme \<times> (peer, topic list) alist \<times> (peer, topic list) alist \<Rightarrow>
   (('s, 'b, 'z) gossipsub_scheme \<times> (peer, topic list) alist \<times> (peer, topic list) alist) option" where
  "mesh_topic topic = (\<lambda>(st, tograft, toprune).
     let (st, tograft) = more_links topic (st, tograft);
         (st, toprune) = fewer_links topic (st, toprune)
     in do {
          st \<leftarrow> emitGossip topic (mget0 (gs_mesh st) topic) st;
          Some (st, tograft, toprune)
        })"

section \<open>Expiring and repairing the fanouts\<close>

definition expire_topic :: "topic \<Rightarrow> ('s, 'b, 'z) gossipsub_scheme \<Rightarrow> ('s, 'b, 'z) gossipsub_scheme" where
  "expire_topic topic st =
     (case mget (gs_lastpub st) topic of
        None \<Rightarrow> st
      | Some lastpub \<Rightarrow>
          if lastpub + GossipSubFanoutTTL < n_clock st
          then st\<lparr>gs_fanout := mdel topic (gs_fanout st), gs_lastpub := mdel topic (gs_lastpub st)\<rparr>
          else st)"

definition fanout_topic :: "topic \<Rightarrow> ('s, 'b, 'z) gossipsub_scheme \<Rightarrow> ('s, 'b, 'z) gossipsub_scheme option" where
  "fanout_topic topic st =
     (let peers = mget0 (gs_fanout st) topic;
          peers = fold (\<lambda>p peers. if mhas (mget0 (n_topics st) topic) p then peers else mdel p peers)
                    (mkeys peers) peers;
          (peers, st) =
            (if int (mlen peers) < GossipSubD
             then let ineed = GossipSubD - int (mlen peers);
                      (plst, st) = getPeers topic ineed (\<lambda>p. \<not> mhas peers p) st
                  in (fold (\<lambda>p. mput p ()) plst peers, st)
             else (peers, st));
          st = st\<lparr>gs_fanout := mput topic peers (gs_fanout st)\<rparr>
      in emitGossip topic peers st)"

section \<open>The heartbeat\<close>

definition topics_of :: "(peer, topic list) alist \<Rightarrow> peer \<Rightarrow> topic list" where
  "topics_of m p = (case mget m p of None \<Rightarrow> [] | Some ts \<Rightarrow> ts)"

definition send_graft_to ::
  "(peer, topic list) alist \<Rightarrow> peer \<Rightarrow> ('s, 'b, 'z) gossipsub_scheme \<times> (peer, topic list) alist \<Rightarrow>
   (('s, 'b, 'z) gossipsub_scheme \<times> (peer, topic list) alist) option" where
  "send_graft_to tograft p = (\<lambda>(st, toprune).
     let graft = map mkGraft (loop_var_ptrs (topics_of tograft p));
         (prune, toprune) =
           (case mget toprune p of
              None \<Rightarrow> ([], toprune)
            | Some pruning \<Rightarrow> (map mkPrune (loop_var_ptrs pruning), mdel p toprune))
     in do { st \<leftarrow> sendRPC p (rpcWithControl [] [] [] graft prune) st; Some (st, toprune) })"

definition send_prune_to ::
  "(peer, topic list) alist \<Rightarrow> peer \<Rightarrow> ('s, 'b, 'z) gossipsub_scheme \<Rightarrow> ('s, 'b, 'z) gossipsub_scheme option" where
  "send_prune_to toprune p st =
     (let prune = map mkPrune (loop_var_ptrs (topics_of toprune p))
      in sendRPC p (rpcWithControl [] [] [] [] prune) st)"

definition sendGraftPrune ::
  "(peer, topic list) alist \<Rightarrow> (peer, topic list) alist \<Rightarrow> ('s, 'b, 'z) gossipsub_scheme \<Rightarrow>
   ('s, 'b, 'z) gossipsub_scheme option" where
  "sendGraftPrune tograft toprune st =
     (let (ps, st) = range_over (mkeys tograft) st
      in do {
           (st, toprune) \<leftarrow> foldM (send_graft_to tograft) ps (st, toprune);
           let (ps, st) = range_over (mkeys toprune) st;
           foldM (send_prune_to toprune) ps st
         })"

definition heartbeat :: "('s, 'b, 'z) gossipsub_scheme \<Rightarrow> ('s, 'b, 'z) gossipsub_scheme option" where
  "heartbeat st =
     do {
       st \<leftarrow> flush st;
       let (ts, st) = range_over (mkeys (gs_mesh st)) st;
       (st, tograft, toprune) \<leftarrow> foldM mesh_topic ts (st, mempty, mempty);
       let (ts, st) = range_over (mkeys (gs_lastpub st)) st;
       let st = fold expire_topic ts st;
       let (ts, st) = range_over (mkeys (gs_fanout st)) st;
       st \<leftarrow> foldM fanout_topic ts st;
       st \<leftarrow> sendGraftPrune tograft toprune st;
       mc \<leftarrow> Shift (gs_mcache st);
       Some (st\<lparr>gs_mcache := mc\<rparr>)
     }"

section \<open>Flushing and gossiping only send\<close>

definition sends_ok :: "('s, 'b, 'z) gossipsub_scheme \<Rightarrow> ('s, 'b, 'z) gossipsub_scheme option \<Rightarrow> bool" where
  "sends_ok st m \<longleftrightarrow> (\<exists>st'. m = Some st' \<and> gs_sends st st')"

lemma gs_sends_frame: "gs_sends st st' \<Longrightarrow> gs_frame st st'"
  by (simp add: gs_sends_def)

lemma gs_sends_peers_ok: "peers_ok st \<Longrightarrow> gs_sends st st' \<Longrightarrow> peers_ok st'"
  by (blast intro: gs_frame_peers_ok gs_sends_frame)

lemma gs_sends_mcache: "gs_sends st st' \<Longrightarrow> gs_mcache st' = gs_mcache st"
  by (simp add: gs_sends_def gs_frame_def)

lemma sends_ok_trans: "gs_sends st s \<Longrightarrow> sends_ok s m \<Longrightarrow> sends_ok st m"
  by (auto simp: sends_ok_def intro: gs_sends_trans)

lemma sends_ok_sendRPC [inv_intros]: "peers_ok st \<Longrightarrow> sends_ok st (sendRPC p out st)"
  using sendRPC_spec [of st p out] by (auto simp: sends_ok_def)

lemma sends_ok_foldM:
  assumes "\<And>x s. peers_ok s \<Longrightarrow> sends_ok s (f x s)" "peers_ok st" shows "sends_ok st (foldM f xs st)"
  using assms(2)
proof (induction xs arbitrary: st)
  case (Cons x xs)
  obtain s where s: "f x st = Some s" "gs_sends st s" using assms(1) [OF Cons.prems] by (auto simp: sends_ok_def)
  then have "sends_ok s (foldM f xs s)" using Cons gs_sends_peers_ok by blast
  with s show ?case by (simp add: sends_ok_trans)
qed (simp add: sends_ok_def)

lemma peers_ok_pending [simp]:
  "peers_ok (st\<lparr>gs_gossip := g\<rparr>) = peers_ok st" "peers_ok (st\<lparr>gs_control := c\<rparr>) = peers_ok st"
  by (simp_all add: peers_ok_def)

lemma flush_gossip_ok:
  assumes "peers_ok st" shows "sends_ok st (flush_gossip p st)"
proof (cases "mget (gs_gossip st) p")
  case (Some ih)
  have "sends_ok (st\<lparr>gs_gossip := g\<rparr>) (sendRPC p out (st\<lparr>gs_gossip := g\<rparr>))" for g out
    using assms by (intro sends_ok_sendRPC) simp
  from sends_ok_trans [OF gs_sends_updates(5) this] Some show ?thesis by (simp add: flush_gossip_def)
qed (simp add: flush_gossip_def sends_ok_def)

lemma flush_control_ok:
  assumes "peers_ok st" shows "sends_ok st (flush_control p st)"
proof (cases "mget (gs_control st) p")
  case (Some ctl)
  have "sends_ok (st\<lparr>gs_control := c\<rparr>) (sendRPC p out (st\<lparr>gs_control := c\<rparr>))" for c out
    using assms by (intro sends_ok_sendRPC) simp
  from sends_ok_trans [OF gs_sends_updates(4) this] Some show ?thesis by (simp add: flush_control_def)
qed (simp add: flush_control_def sends_ok_def)

lemma sends_ok_range:
  assumes "peers_ok st" "\<And>x s. peers_ok s \<Longrightarrow> sends_ok s (f x s)"
  shows "sends_ok st (let (ps, s) = range_over ks st in foldM f ps s)"
proof -
  obtain ps s where r: "range_over ks st = (ps, s)" by force
  then have s: "gs_sends st s" by (rule range_over_sends)
  have "sends_ok s (foldM f ps s)"
    using assms(2) gs_sends_peers_ok [OF assms(1) s] by (rule sends_ok_foldM)
  with s show ?thesis by (simp add: r sends_ok_trans)
qed

lemma flush_ok: assumes "peers_ok st" shows "sends_ok st (flush st)"
proof -
  obtain s where s: "(let (ps, s) = range_over (mkeys (gs_gossip st)) st in foldM flush_gossip ps s) = Some s" "gs_sends st s"
    using sends_ok_range [OF assms flush_gossip_ok] by (force simp: sends_ok_def)
  have "sends_ok s (let (ps, s) = range_over (mkeys (gs_control s)) s in foldM flush_control ps s)"
    using gs_sends_peers_ok [OF assms s(2)] flush_control_ok by (rule sends_ok_range)
  then show ?thesis
    using s by (auto simp: flush_def intro: sends_ok_trans split: prod.splits)
qed

text \<open>Visiting an entry again that a failed send put back changes nothing.\<close>

lemma retried_flush:
  "mget (gs_control s) p = None \<Longrightarrow>
     retried (merged p (rpcWithControl [] [] [] gr pr) s) =
       (if gr = [] \<and> pr = [] then None
        else Some \<lparr>c_Ihave = [], c_Iwant = [], c_Graft = gr, c_Prune = pr, c_unrec = []\<rparr>)"
  by (simp add: retried_def merged_def with_gossip_def with_control_def piggybackGossip_def rpc_grafts_def
      rpc_prunes_def rpcWithControl_def Let_def split: option.split)

lemma flush_control_spec:
  fixes st :: "('s, 'b, 'z) gossipsub_scheme"
  assumes "peers_ok st" "flush_control p st = Some st'" "mget (gs_control st) p = Some ctl"
  shows "gs_sends st st'" "mget (gs_gossip st') = (mget (gs_gossip st))(p := None)"
    "mget (gs_control st') = (mget (gs_control st))(p :=
       if p \<in> mdom (n_peers st) \<and> \<not> has_room st p \<and> (c_Graft ctl \<noteq> [] \<or> c_Prune ctl \<noteq> [])
       then Some \<lparr>c_Ihave = [], c_Iwant = [], c_Graft = c_Graft ctl, c_Prune = c_Prune ctl, c_unrec = []\<rparr> else None)"
    "\<not> has_room st p \<Longrightarrow> outbox st' = outbox st"
proof -
  let ?s = "st\<lparr>gs_control := mdel p (gs_control st)\<rparr>"
  let ?out = "rpcWithControl [] [] [] (c_Graft ctl) (c_Prune ctl)"
  have ok: "peers_ok ?s" using assms(1) by simp
  have send: "sendRPC p ?out ?s = Some st'" using assms(2,3) by (simp add: flush_control_def)
  have view: "has_room ?s p = has_room st p" "outbox ?s = outbox st" by (simp_all add: has_room_def outbox_def fun_eq_iff)
  have ret: "retried (merged p ?out ?s) = (if c_Graft ctl = [] \<and> c_Prune ctl = [] then None
      else Some \<lparr>c_Ihave = [], c_Iwant = [], c_Graft = c_Graft ctl, c_Prune = c_Prune ctl, c_unrec = []\<rparr>)"
    by (rule retried_flush) simp
  note spec = sendRPC_spec [OF ok, of p ?out, unfolded send option.inject ret view]
  show "gs_sends st st'" using spec gs_sends_trans [OF gs_sends_updates(4)] by blast
  show "mget (gs_gossip st') = (mget (gs_gossip st))(p := None)"
    "mget (gs_control st') = (mget (gs_control st))(p :=
       if p \<in> mdom (n_peers st) \<and> \<not> has_room st p \<and> (c_Graft ctl \<noteq> [] \<or> c_Prune ctl \<noteq> [])
       then Some \<lparr>c_Ihave = [], c_Iwant = [], c_Graft = c_Graft ctl, c_Prune = c_Prune ctl, c_unrec = []\<rparr> else None)"
    using spec by (auto simp: fun_eq_iff)
  show "\<not> has_room st p \<Longrightarrow> outbox st' = outbox st" using spec by auto
qed

lemma flush_again:
  fixes st :: "('s, 'b, 'z) gossipsub_scheme"
  assumes ok: "peers_ok st" and 1: "flush_control p st = Some st1" and 2: "flush_control p st1 = Some st2"
  shows "outbox st2 = outbox st1" "mget (gs_control st2) = mget (gs_control st1)"
    "mget (gs_gossip st2) = mget (gs_gossip st1)"
proof -
  have "outbox st2 = outbox st1 \<and> mget (gs_control st2) = mget (gs_control st1) \<and> mget (gs_gossip st2) = mget (gs_gossip st1)"
  proof (cases "mget (gs_control st1) p")
    case None
    then show ?thesis using 2 by (simp add: flush_control_def)
  next
    case (Some c)
    show ?thesis
    proof (cases "mget (gs_control st) p")
      case None
      with 1 Some show ?thesis by (simp add: flush_control_def)
    next
      case (Some ctl)
      note s1 = flush_control_spec [OF ok 1 Some]
      have full: "p \<in> mdom (n_peers st)" "\<not> has_room st p"
        "c = \<lparr>c_Ihave = [], c_Iwant = [], c_Graft = c_Graft ctl, c_Prune = c_Prune ctl, c_unrec = []\<rparr>"
        "c_Graft ctl \<noteq> [] \<or> c_Prune ctl \<noteq> []"
        using s1(3) \<open>mget (gs_control st1) p = Some c\<close> by (auto split: if_splits)
      have room: "\<not> has_room st1 p"
        using has_room_cong [OF ok s1(1)] s1(4) full(2) by simp
      have dom: "p \<in> mdom (n_peers st1)"
        using frame_mdom_peers [of st st1] s1(1) full(1) by (simp add: gs_sends_def gs_frame_def)
      note s2 = flush_control_spec [OF gs_sends_peers_ok [OF ok s1(1)] 2 \<open>mget (gs_control st1) p = Some c\<close>]
      have "mget (gs_control st2) = mget (gs_control st1)"
        using s2(3) room dom full \<open>mget (gs_control st1) p = Some c\<close> by (auto simp: fun_eq_iff)
      moreover have "mget (gs_gossip st2) = mget (gs_gossip st1)" using s2(2) s1(2) by simp
      ultimately show ?thesis using s2(4) [OF room] by blast
    qed
  qed
  then show "outbox st2 = outbox st1" "mget (gs_control st2) = mget (gs_control st1)"
    "mget (gs_gossip st2) = mget (gs_gossip st1)" by blast+
qed

text \<open>Gossip about a topic: at most \<open>GossipSubD\<close> peers outside the given set get one IHAVE.\<close>

lemma push_loop_spec:
  fixes st :: "('s, 'b, 'z) gossipsub_scheme" and ps :: "peer list" and A :: "peer set" and ih :: pb_IHave
  assumes "distinct ps"
  defines "st' \<equiv> fold (\<lambda>p st. if p \<in> A then st else pushGossip p ih st) ps st"
  shows "gs_sends st st'" "gs_control st' = gs_control st" "n_peers st' = n_peers st"
    "mget (gs_gossip st') q = (if q \<in> set ps - A
       then Some ((case mget (gs_gossip st) q of None \<Rightarrow> [] | Some g \<Rightarrow> g) @ [ih]) else mget (gs_gossip st) q)"
proof -
  have "gs_sends st st' \<and> gs_control st' = gs_control st \<and> n_peers st' = n_peers st \<and>
    mget (gs_gossip st') q = (if q \<in> set ps - A
       then Some ((case mget (gs_gossip st) q of None \<Rightarrow> [] | Some g \<Rightarrow> g) @ [ih]) else mget (gs_gossip st) q)"
    using assms(1) unfolding st'_def
  proof (induction ps arbitrary: st)
    case (Cons p ps)
    let ?s = "if p \<in> A then st else pushGossip p ih st"
    have s: "gs_sends st ?s" "gs_control ?s = gs_control st" "n_peers ?s = n_peers st"
      "mget (gs_gossip ?s) r = (if r = p \<and> p \<notin> A
         then Some ((case mget (gs_gossip st) r of None \<Rightarrow> [] | Some g \<Rightarrow> g) @ [ih]) else mget (gs_gossip st) r)" for r
      using gs_sends_updates(6) by (auto simp: pushGossip_def Let_def lookup_update)
    have "p \<notin> set ps" "distinct ps" using Cons.prems by auto
    with Cons.IH [of ?s] s gs_sends_trans [OF s(1)] show ?case by auto
  qed simp
  then show "gs_sends st st'" "gs_control st' = gs_control st" "n_peers st' = n_peers st"
    "mget (gs_gossip st') q = (if q \<in> set ps - A
       then Some ((case mget (gs_gossip st) q of None \<Rightarrow> [] | Some g \<Rightarrow> g) @ [ih]) else mget (gs_gossip st) q)"
    by blast+
qed

text \<open>The identifiers of a topic in the gossip window of the cache.\<close>

definition gossip_ids :: "topic \<Rightarrow> MessageCache \<Rightarrow> gostring list" where
  "gossip_ids t mc = concat (map (slot_mids t) (take (mc_gossip mc) (mc_history mc)))"

lemma emitGossip_spec:
  fixes st :: "('s, 'b, 'z) gossipsub_scheme"
  assumes "gs_inv st"
  shows "\<exists>st' G. emitGossip t peers st = Some st' \<and> gs_sends st st' \<and> gs_control st' = gs_control st \<and>
    n_peers st' = n_peers st \<and>
    G \<subseteq> gs_candidates st t (\<lambda>_. True) \<and> card G = min 6 (card (gs_candidates st t (\<lambda>_. True))) \<and>
    (\<forall>p. mget (gs_gossip st') p =
       (if gossip_ids t (gs_mcache st) \<noteq> [] \<and> p \<in> G - mdom peers
        then Some ((case mget (gs_gossip st) p of None \<Rightarrow> [] | Some g \<Rightarrow> g) @ [mkIHave t (gossip_ids t (gs_mcache st))])
        else mget (gs_gossip st) p))"
proof -
  have ids: "GetGossipIDs t (gs_mcache st) = Some (gossip_ids t (gs_mcache st))"
    using assms by (simp add: gs_inv_def GetGossipIDs_def mc_ok_def mc_shape_def gossip_ids_def)
  obtain ps st1 where g: "getPeers t GossipSubD (\<lambda>p. True) st = (ps, st1)" by force
  note gp = getPeers_spec [OF g]
  obtain e where st1: "st1 = st\<lparr>n_choices := e\<rparr>" using getPeers_choices [OF g] by blast
  have card: "card (set ps) = min 6 (card (gs_candidates st t (\<lambda>_. True)))"
    using gp(1,3) by (simp add: distinct_card GossipSubD_def)
  show ?thesis
  proof (cases "gossip_ids t (gs_mcache st) = []")
    case True
    then have "emitGossip t peers st = Some st" using ids by (simp add: emitGossip_def)
    then show ?thesis using True gp(2) card by (intro exI [of _ st] exI [of _ "set ps"]) simp
  next
    case False
    let ?ih = "mkIHave t (gossip_ids t (gs_mcache st))"
    define st2 where "st2 = fold (\<lambda>p st. if p \<in> mdom peers then st else pushGossip p ?ih st) ps st1"
    note push = push_loop_spec [OF gp(1), where A = "mdom peers" and ih = ?ih and st = st1, folded st2_def]
    have "emitGossip t peers st = Some st2" using ids False g by (simp add: emitGossip_def st2_def)
    moreover have "gs_sends st st2" using push(1) gs_sends_trans [OF gs_sends_updates(3)] by (simp add: st1)
    ultimately show ?thesis using False gp(2) card push(2-4) by (intro exI [of _ st2] exI [of _ "set ps"]) (simp add: st1)
  qed
qed

lemma emitGossip_ok: "gs_inv st \<Longrightarrow> sends_ok st (emitGossip t peers st)"
  using emitGossip_spec [of st t peers] by (auto simp: sends_ok_def)

section \<open>The meshes after the heartbeat\<close>

lemma topics_of_append: "topics_of (append_topic p t m) q = topics_of m q @ (if q = p then [t] else [])"
  by (simp add: topics_of_def append_topic_def lookup_update)

lemma mdom_append_topic [simp]: "mdom (append_topic p t m) = insert p (mdom m)"
  by (simp add: append_topic_def)

lemma add_links_spec:
  assumes "fold (add_link t) ps (st, tg) = (st', tg')" "distinct ps"
  shows "\<exists>m tags. st' = st\<lparr>gs_mesh := m, n_tags := tags\<rparr>"
    "mdom (mget0 (gs_mesh st') t) = mdom (mget0 (gs_mesh st) t) \<union> set ps"
    "u \<noteq> t \<Longrightarrow> mget (gs_mesh st') u = mget (gs_mesh st) u"
    "t \<in> mdom (gs_mesh st) \<Longrightarrow> t \<in> mdom (gs_mesh st')"
    "topics_of tg' p = topics_of tg p @ (if p \<in> set ps then [t] else [])"
    "mdom tg' = mdom tg \<union> set ps"
proof -
  have "(\<exists>m tags. st' = st\<lparr>gs_mesh := m, n_tags := tags\<rparr>) \<and>
    mdom (mget0 (gs_mesh st') t) = mdom (mget0 (gs_mesh st) t) \<union> set ps \<and>
    (\<forall>u. u \<noteq> t \<longrightarrow> mget (gs_mesh st') u = mget (gs_mesh st) u) \<and>
    (t \<in> mdom (gs_mesh st) \<longrightarrow> t \<in> mdom (gs_mesh st')) \<and>
    topics_of tg' p = topics_of tg p @ (if p \<in> set ps then [t] else []) \<and> mdom tg' = mdom tg \<union> set ps"
    using assms
  proof (induction ps arbitrary: st tg)
    case Nil
    then have "st' = st\<lparr>gs_mesh := gs_mesh st, n_tags := n_tags st\<rparr>" by simp
    then have "\<exists>m tags. st' = st\<lparr>gs_mesh := m, n_tags := tags\<rparr>" by blast
    moreover have "st' = st" "tg' = tg" using Nil by simp_all
    ultimately show ?case by simp
  next
    case (Cons q ps)
    obtain s tg1 where s: "add_link t q (st, tg) = (s, tg1)" by force
    then have s': "s = tagPeer q t (st\<lparr>gs_mesh := mput t (mput q () (mget0 (gs_mesh st) t)) (gs_mesh st)\<rparr>)"
      and tg1: "tg1 = append_topic q t tg" by (simp_all add: add_link_def)
    have "fold (add_link t) ps (s, tg1) = (st', tg')" "distinct ps" "q \<notin> set ps" using Cons.prems s by simp_all
    note IH = Cons.IH [OF this(1,2)] and q = this(3)
    have s1: "mdom (mget0 (gs_mesh s) t) = insert q (mdom (mget0 (gs_mesh st) t))"
      "\<And>u. u \<noteq> t \<Longrightarrow> mget (gs_mesh s) u = mget (gs_mesh st) u" "t \<in> mdom (gs_mesh s)"
      by (simp_all add: s' tagPeer_def mget0_update lookup_update)
    obtain m tags where "st' = s\<lparr>gs_mesh := m, n_tags := tags\<rparr>" using IH by blast
    then have "st' = st\<lparr>gs_mesh := m, n_tags := tags\<rparr>" by (simp add: s' tagPeer_def)
    then have "\<exists>m tags. st' = st\<lparr>gs_mesh := m, n_tags := tags\<rparr>" by blast
    moreover have "mdom (mget0 (gs_mesh st') t) = mdom (mget0 (gs_mesh st) t) \<union> set (q # ps)"
      using IH s1(1) by auto
    moreover have "topics_of tg' p = topics_of tg p @ (if p \<in> set (q # ps) then [t] else [])"
      using IH q by (simp add: tg1 topics_of_append)
    ultimately show ?case using IH s1(2,3) by (simp add: tg1)
  qed
  then show "\<exists>m tags. st' = st\<lparr>gs_mesh := m, n_tags := tags\<rparr>"
    "mdom (mget0 (gs_mesh st') t) = mdom (mget0 (gs_mesh st) t) \<union> set ps"
    "u \<noteq> t \<Longrightarrow> mget (gs_mesh st') u = mget (gs_mesh st) u"
    "t \<in> mdom (gs_mesh st) \<Longrightarrow> t \<in> mdom (gs_mesh st')"
    "topics_of tg' p = topics_of tg p @ (if p \<in> set ps then [t] else [])"
    "mdom tg' = mdom tg \<union> set ps" by blast+
qed

lemma drop_links_spec:
  assumes "fold (drop_link t) ps (st, tp) = (st', tp')" "distinct ps"
  shows "\<exists>m tags. st' = st\<lparr>gs_mesh := m, n_tags := tags\<rparr>"
    "mdom (mget0 (gs_mesh st') t) = mdom (mget0 (gs_mesh st) t) - set ps"
    "u \<noteq> t \<Longrightarrow> mget (gs_mesh st') u = mget (gs_mesh st) u"
    "t \<in> mdom (gs_mesh st) \<Longrightarrow> t \<in> mdom (gs_mesh st')"
    "topics_of tp' p = topics_of tp p @ (if p \<in> set ps then [t] else [])"
    "mdom tp' = mdom tp \<union> set ps"
proof -
  have "(\<exists>m tags. st' = st\<lparr>gs_mesh := m, n_tags := tags\<rparr>) \<and>
    mdom (mget0 (gs_mesh st') t) = mdom (mget0 (gs_mesh st) t) - set ps \<and>
    (\<forall>u. u \<noteq> t \<longrightarrow> mget (gs_mesh st') u = mget (gs_mesh st) u) \<and>
    (t \<in> mdom (gs_mesh st) \<longrightarrow> t \<in> mdom (gs_mesh st')) \<and>
    topics_of tp' p = topics_of tp p @ (if p \<in> set ps then [t] else []) \<and> mdom tp' = mdom tp \<union> set ps"
    using assms
  proof (induction ps arbitrary: st tp)
    case Nil
    then have "st' = st\<lparr>gs_mesh := gs_mesh st, n_tags := n_tags st\<rparr>" by simp
    then have "\<exists>m tags. st' = st\<lparr>gs_mesh := m, n_tags := tags\<rparr>" by blast
    moreover have "st' = st" "tp' = tp" using Nil by simp_all
    ultimately show ?case by simp
  next
    case (Cons q ps)
    obtain s tp1 where s: "drop_link t q (st, tp) = (s, tp1)" by force
    then have s': "s = untagPeer q t (st\<lparr>gs_mesh := mput t (mdel q (mget0 (gs_mesh st) t)) (gs_mesh st)\<rparr>)"
      and tp1: "tp1 = append_topic q t tp" by (simp_all add: drop_link_def)
    have "fold (drop_link t) ps (s, tp1) = (st', tp')" "distinct ps" "q \<notin> set ps" using Cons.prems s by simp_all
    note IH = Cons.IH [OF this(1,2)] and q = this(3)
    have s1: "mdom (mget0 (gs_mesh s) t) = mdom (mget0 (gs_mesh st) t) - {q}"
      "\<And>u. u \<noteq> t \<Longrightarrow> mget (gs_mesh s) u = mget (gs_mesh st) u" "t \<in> mdom (gs_mesh s)"
      by (simp_all add: s' untagPeer_def mget0_update lookup_update)
    obtain m tags where "st' = s\<lparr>gs_mesh := m, n_tags := tags\<rparr>" using IH by blast
    then have "st' = st\<lparr>gs_mesh := m, n_tags := tags\<rparr>" by (simp add: s' untagPeer_def)
    then have "\<exists>m tags. st' = st\<lparr>gs_mesh := m, n_tags := tags\<rparr>" by blast
    moreover have "mdom (mget0 (gs_mesh st') t) = mdom (mget0 (gs_mesh st) t) - set (q # ps)"
      using IH s1(1) by auto
    moreover have "topics_of tp' p = topics_of tp p @ (if p \<in> set (q # ps) then [t] else [])"
      using IH q by (simp add: tp1 topics_of_append)
    ultimately show ?case using IH s1(2,3) by (simp add: tp1)
  qed
  then show "\<exists>m tags. st' = st\<lparr>gs_mesh := m, n_tags := tags\<rparr>"
    "mdom (mget0 (gs_mesh st') t) = mdom (mget0 (gs_mesh st) t) - set ps"
    "u \<noteq> t \<Longrightarrow> mget (gs_mesh st') u = mget (gs_mesh st) u"
    "t \<in> mdom (gs_mesh st) \<Longrightarrow> t \<in> mdom (gs_mesh st')"
    "topics_of tp' p = topics_of tp p @ (if p \<in> set ps then [t] else [])"
    "mdom tp' = mdom tp \<union> set ps" by blast+
qed

text \<open>What the maintenance promises for the mesh of one topic.\<close>

definition mesh_peers :: "('s, 'b, 'z) gossipsub_scheme \<Rightarrow> topic \<Rightarrow> peer set" where
  "mesh_peers st t = mdom (mget0 (gs_mesh st) t)"

definition newcomers :: "('s, 'b, 'z) gossipsub_scheme \<Rightarrow> topic \<Rightarrow> peer set" where
  "newcomers st t = gs_candidates st t (\<lambda>p. p \<notin> mesh_peers st t)"

definition mesh_repaired :: "('s, 'b, 'z) gossipsub_scheme \<Rightarrow> topic \<Rightarrow> peer set \<Rightarrow> bool" where
  "mesh_repaired st t new \<longleftrightarrow>
     (if card (mesh_peers st t) < 4
      then mesh_peers st t \<subseteq> new \<and> new - mesh_peers st t \<subseteq> newcomers st t \<and>
           card new = min 6 (card (mesh_peers st t) + card (newcomers st t))
      else if card (mesh_peers st t) > 12 then new \<subseteq> mesh_peers st t \<and> card new = 6
      else new = mesh_peers st t)"

lemma finite_mesh_peers [simp]: "finite (mesh_peers st t)"
  by (simp add: mesh_peers_def)

lemma finite_newcomers [simp]: "finite (newcomers st t)"
  by (simp add: newcomers_def)

text \<open>\<open>gs_links t st st'\<close>: of the router's state, only the mesh of \<open>t\<close> and what sending changes differ.\<close>

definition gs_links :: "topic set \<Rightarrow> ('s, 'b, 'z) gossipsub_scheme \<Rightarrow> ('s, 'b, 'z) gossipsub_scheme \<Rightarrow> bool" where
  "gs_links T st st' \<longleftrightarrow>
     gs_frame st st' \<and> gs_peers st' = gs_peers st \<and> gs_fanout st' = gs_fanout st \<and> gs_lastpub st' = gs_lastpub st \<and>
     (\<forall>u. u \<notin> T \<longrightarrow> mget (gs_mesh st') u = mget (gs_mesh st) u) \<and>
     mdom (gs_mesh st) \<subseteq> mdom (gs_mesh st')"

lemma gs_links_trans: "gs_links T s t \<Longrightarrow> gs_links U t u \<Longrightarrow> gs_links (T \<union> U) s u"
  by (auto simp: gs_links_def intro: gs_frame_trans)

lemma gs_links_same: "gs_links T s t \<Longrightarrow> gs_links T t u \<Longrightarrow> gs_links T s u"
  using gs_links_trans [of T s t T u] by simp

lemma gs_sends_links: "gs_sends s t \<Longrightarrow> gs_links T s t"
  by (simp add: gs_sends_def gs_links_def)

lemma gs_links_refl [simp]: "gs_links T s s"
  by (simp add: gs_sends_links)

lemma gs_links_frame: "gs_links T st st' \<Longrightarrow> gs_frame st st'"
  by (simp add: gs_links_def)

lemma gs_links_views:
  assumes "gs_links T st st'" "u \<notin> T"
  shows "mesh_peers st' u = mesh_peers st u" "newcomers st' u = newcomers st u"
    "mesh_repaired st' u = mesh_repaired st u"
proof -
  show m: "mesh_peers st' u = mesh_peers st u"
    using assms by (simp add: gs_links_def mesh_peers_def mget0_def)
  show n: "newcomers st' u = newcomers st u"
    using assms(1) m by (simp add: newcomers_def gs_candidates_def gs_links_def gs_frame_def router_frame_def)
  show "mesh_repaired st' u = mesh_repaired st u" by (simp add: mesh_repaired_def m n fun_eq_iff)
qed

text \<open>Bookkeeping: the topics noted for a peer are those of the set \<open>N\<close> of peers.\<close>

definition noted :: "topic \<Rightarrow> peer set \<Rightarrow> (peer, topic list) alist \<Rightarrow> (peer, topic list) alist \<Rightarrow> bool" where
  "noted t N m m' \<longleftrightarrow> mdom m' = mdom m \<union> N \<and>
     (\<forall>p. topics_of m' p = topics_of m p @ (if p \<in> N then [t] else []))"

lemma noted_empty [simp]: "noted t {} m m"
  by (simp add: noted_def)

lemma more_links_spec:
  assumes "more_links t (st, tg) = (st', tg')" "t \<in> mdom (gs_mesh st)"
  shows "gs_links {t} st st'" "noted t (mesh_peers st' t - mesh_peers st t) tg tg'"
    "if card (mesh_peers st t) < 4 then mesh_repaired st t (mesh_peers st' t) else mesh_peers st' t = mesh_peers st t"
proof -
  let ?old = "mesh_peers st t"
  let ?P = "if card ?old < 4 then mesh_repaired st t (mesh_peers st' t) else mesh_peers st' t = ?old"
  have "gs_links {t} st st' \<and> noted t (mesh_peers st' t - ?old) tg tg' \<and> ?P"
  proof (cases "card ?old < 4")
    case False
    then have "st' = st" "tg' = tg"
      using assms(1) by (simp_all add: more_links_def mesh_peers_def mlen_card GossipSubDlo_def)
    with False show ?thesis by simp
  next
    case True
    let ?n = "6 - int (card ?old)"
    obtain ps s where g: "getPeers t ?n (\<lambda>p. p \<notin> ?old) st = (ps, s)" by force
    note gp = getPeers_spec [OF g]
    have f: "fold (add_link t) ps (s, tg) = (st', tg')"
      using assms(1) True g by (simp add: more_links_def mesh_peers_def mlen_card GossipSubDlo_def GossipSubD_def)
    note al = add_links_spec [OF f gp(1)]
    obtain e where s: "s = st\<lparr>n_choices := e\<rparr>" using getPeers_choices [OF g] by blast
    obtain m tags where st': "st' = st\<lparr>n_choices := e, gs_mesh := m, n_tags := tags\<rparr>" using al(1) by (auto simp: s)
    have dom: "mesh_peers st' t = ?old \<union> set ps" using al(2) by (simp add: mesh_peers_def s)
    have sub: "set ps \<subseteq> newcomers st t" using gp(2) by (simp add: newcomers_def)
    then have disj: "?old \<inter> set ps = {}" by (auto simp: newcomers_def gs_candidates_def)
    have "length ps = min (6 - card ?old) (card (newcomers st t))"
      using gp(3) True by (simp add: newcomers_def nat_diff_distrib)
    then have "card (set ps) = min (6 - card ?old) (card (newcomers st t))" using gp(1) by (simp add: distinct_card)
    then have "card (mesh_peers st' t) = min 6 (card ?old + card (newcomers st t))"
      using True disj by (simp add: dom card_Un_disjoint)
    then have "mesh_repaired st t (mesh_peers st' t)" using True sub by (auto simp: mesh_repaired_def dom)
    moreover have "mdom (gs_mesh st) \<subseteq> mdom (gs_mesh st')"
    proof
      fix u assume "u \<in> mdom (gs_mesh st)"
      then show "u \<in> mdom (gs_mesh st')" using al(3) [of u] al(4) assms(2) by (cases "u = t") (simp_all add: s mem_mdom)
    qed
    then have "gs_links {t} st st'" using al(3) by (auto simp: gs_links_def st' s gs_frame_def router_frame_def)
    moreover have "mesh_peers st' t - ?old = set ps" using disj by (auto simp: dom)
    then have "noted t (mesh_peers st' t - ?old) tg tg'" using al(5,6) by (simp add: noted_def)
    ultimately show ?thesis using True by simp
  qed
  then show "gs_links {t} st st'" "noted t (mesh_peers st' t - mesh_peers st t) tg tg'" ?P by blast+
qed

lemma fewer_links_spec:
  assumes "fewer_links t (st, tp) = (st', tp')" "t \<in> mdom (gs_mesh st)"
  shows "gs_links {t} st st'" "noted t (mesh_peers st t - mesh_peers st' t) tp tp'"
    "if card (mesh_peers st t) > 12 then mesh_repaired st t (mesh_peers st' t) else mesh_peers st' t = mesh_peers st t"
proof -
  let ?old = "mesh_peers st t"
  let ?P = "if card ?old > 12 then mesh_repaired st t (mesh_peers st' t) else mesh_peers st' t = ?old"
  have "gs_links {t} st st' \<and> noted t (?old - mesh_peers st' t) tp tp' \<and> ?P"
  proof (cases "card ?old > 12")
    case False
    then have "st' = st" "tp' = tp"
      using assms(1) by (simp_all add: fewer_links_def mesh_peers_def mlen_card GossipSubDhi_def)
    with False show ?thesis by simp
  next
    case True
    obtain qs s1 where l: "peerMapToList (mget0 (gs_mesh st) t) st = (qs, s1)" by force
    obtain rs s where sh: "shufflePeers qs s1 = (rs, s)" by force
    note r = range_over_set [OF l [unfolded peerMapToList_def]] and sf = shufflePeers_set [OF sh]
    let ?ps = "take (card ?old - 6) rs"
    have rs: "distinct rs" "set rs = ?old" "length rs = card ?old"
      using r sf by (simp_all add: mesh_peers_def mlen_card)
    have f: "fold (drop_link t) ?ps (s, tp) = (st', tp')"
      using assms(1) True l sh
      by (simp add: fewer_links_def mesh_peers_def mlen_card GossipSubDhi_def GossipSubD_def nat_diff_distrib)
    have dist: "distinct ?ps" using rs(1) by simp
    note dl = drop_links_spec [OF f dist]
    obtain e where s: "s = st\<lparr>n_choices := e\<rparr>" using r(4) shufflePeers_mset(2) [OF sh] by auto
    obtain m tags where st': "st' = st\<lparr>n_choices := e, gs_mesh := m, n_tags := tags\<rparr>" using dl(1) by (auto simp: s)
    have dom: "mesh_peers st' t = ?old - set ?ps" using dl(2) by (simp add: mesh_peers_def s)
    have sub: "set ?ps \<subseteq> ?old" using set_take_subset [of _ rs] rs(2) by metis
    have "card (set ?ps) = card ?old - 6" using distinct_card [OF dist] rs(3) by simp
    then have "card (mesh_peers st' t) = 6" using True sub by (simp add: dom card_Diff_subset)
    then have "mesh_repaired st t (mesh_peers st' t)" using True by (auto simp: mesh_repaired_def dom)
    moreover have "mdom (gs_mesh st) \<subseteq> mdom (gs_mesh st')"
    proof
      fix u assume "u \<in> mdom (gs_mesh st)"
      then show "u \<in> mdom (gs_mesh st')" using dl(3) [of u] dl(4) assms(2) by (cases "u = t") (simp_all add: s mem_mdom)
    qed
    then have "gs_links {t} st st'" using dl(3) by (auto simp: gs_links_def st' s gs_frame_def router_frame_def)
    moreover have "?old - mesh_peers st' t = set ?ps" using sub by (auto simp: dom)
    then have "noted t (?old - mesh_peers st' t) tp tp'" using dl(5,6) by (simp add: noted_def)
    ultimately show ?thesis using True by simp
  qed
  then show "gs_links {t} st st'" "noted t (mesh_peers st t - mesh_peers st' t) tp tp'" ?P by blast+
qed

lemma mesh_topic_spec:
  assumes "gs_inv st" "t \<in> mdom (gs_mesh st)"
  shows "\<exists>st' tg' tp'. mesh_topic t (st, tg, tp) = Some (st', tg', tp') \<and> gs_links {t} st st' \<and>
    mesh_repaired st t (mesh_peers st' t) \<and>
    noted t (mesh_peers st' t - mesh_peers st t) tg tg' \<and> noted t (mesh_peers st t - mesh_peers st' t) tp tp'"
proof -
  obtain s1 tg1 where m: "more_links t (st, tg) = (s1, tg1)" by force
  note ml = more_links_spec [OF m assms(2)]
  have t1: "t \<in> mdom (gs_mesh s1)" using ml(1) assms(2) by (auto simp: gs_links_def)
  obtain s2 tp1 where f: "fewer_links t (s1, tp) = (s2, tp1)" by force
  note fl = fewer_links_spec [OF f t1]
  have l2: "gs_links {t} st s2" using ml(1) fl(1) by (rule gs_links_same)
  have inv: "gs_inv s2" using assms(1) l2 by (simp add: gs_inv_def gs_links_def gs_frame_def)
  obtain s3 where e: "emitGossip t (mget0 (gs_mesh s2) t) s2 = Some s3" "gs_sends s2 s3"
    using emitGossip_ok [OF inv] by (auto simp: sends_ok_def)
  have m3: "mesh_peers s3 t = mesh_peers s2 t" using e(2) by (simp add: gs_sends_def mesh_peers_def)
  have run: "mesh_topic t (st, tg, tp) = Some (s3, tg1, tp1)" using m f e(1) by (simp add: mesh_topic_def)
  have links: "gs_links {t} st s3" using l2 gs_sends_links [OF e(2)] by (rule gs_links_same)
  have "mesh_repaired st t (mesh_peers s3 t) \<and> noted t (mesh_peers s3 t - mesh_peers st t) tg tg1 \<and>
    noted t (mesh_peers st t - mesh_peers s3 t) tp tp1"
  proof (cases "card (mesh_peers st t) < 4")
    case True
    then have r: "mesh_repaired st t (mesh_peers s1 t)" using ml(3) by simp
    then have "card (mesh_peers s1 t) \<le> 6" "mesh_peers st t \<subseteq> mesh_peers s1 t"
      using True by (auto simp: mesh_repaired_def)
    then have same: "mesh_peers s2 t = mesh_peers s1 t" using fl(3) by simp
    have tp1: "noted t {} tp tp1" using fl(2) same by simp
    have "mesh_peers st t - mesh_peers s3 t = {}" using same m3 \<open>mesh_peers st t \<subseteq> mesh_peers s1 t\<close> by auto
    then have "noted t (mesh_peers st t - mesh_peers s3 t) tp tp1" using tp1 by (simp only:)
    then show ?thesis using r ml(2) same m3 by simp
  next
    case False
    then have s1: "s1 = st" "tg1 = tg"
      using m by (simp_all add: more_links_def mesh_peers_def mlen_card GossipSubDlo_def)
    show ?thesis
    proof (cases "card (mesh_peers st t) > 12")
      case True
      then have r: "mesh_repaired st t (mesh_peers s2 t)" using fl(3) s1 by simp
      then have "mesh_peers s2 t - mesh_peers st t = {}" using False True by (auto simp: mesh_repaired_def)
      then have "noted t (mesh_peers s3 t - mesh_peers st t) tg tg1" using s1(2) m3 by (metis noted_empty)
      then show ?thesis using r fl(2) s1 m3 by simp
    next
      case mid: False
      then have "mesh_peers s2 t = mesh_peers st t" using fl(3) s1 by simp
      moreover have "mesh_repaired st t (mesh_peers st t)" using mid False by (simp add: mesh_repaired_def)
      ultimately show ?thesis using fl(2) s1 m3 by simp
    qed
  qed
  with run links show ?thesis by blast
qed

text \<open>The loop over all meshes, in any order.\<close>

definition mesh_round ::
  "topic set \<Rightarrow> ('s, 'b, 'z) gossipsub_scheme \<Rightarrow> ('s, 'b, 'z) gossipsub_scheme \<Rightarrow>
   (peer, topic list) alist \<Rightarrow> (peer, topic list) alist \<Rightarrow> (peer, topic list) alist \<Rightarrow> (peer, topic list) alist \<Rightarrow> bool" where
  "mesh_round T st st' tg tg' tp tp' \<longleftrightarrow>
     gs_links T st st' \<and> (\<forall>t \<in> T. mesh_repaired st t (mesh_peers st' t)) \<and>
     (\<forall>p. set (topics_of tg' p) = set (topics_of tg p) \<union> {t \<in> T. p \<in> mesh_peers st' t - mesh_peers st t}) \<and>
     (\<forall>p. set (topics_of tp' p) = set (topics_of tp p) \<union> {t \<in> T. p \<in> mesh_peers st t - mesh_peers st' t}) \<and>
     (\<forall>p. length (topics_of tg' p) = length (topics_of tg p) + card {t \<in> T. p \<in> mesh_peers st' t - mesh_peers st t}) \<and>
     (\<forall>p. length (topics_of tp' p) = length (topics_of tp p) + card {t \<in> T. p \<in> mesh_peers st t - mesh_peers st' t})"

lemma mesh_loop_spec:
  assumes "gs_inv st" "distinct ts" "set ts \<subseteq> mdom (gs_mesh st)"
  shows "\<exists>st' tg' tp'. foldM mesh_topic ts (st, tg, tp) = Some (st', tg', tp') \<and>
    mesh_round (set ts) st st' tg tg' tp tp'"
  using assms
proof (induction ts arbitrary: st tg tp)
  case Nil
  then show ?case by (simp add: mesh_round_def)
next
  case (Cons t ts)
  obtain s tg1 tp1 where s: "mesh_topic t (st, tg, tp) = Some (s, tg1, tp1)" "gs_links {t} st s"
    "mesh_repaired st t (mesh_peers s t)"
    "noted t (mesh_peers s t - mesh_peers st t) tg tg1" "noted t (mesh_peers st t - mesh_peers s t) tp tp1"
    using mesh_topic_spec [OF Cons.prems(1), of t tg tp] Cons.prems(3) by auto
  have inv: "gs_inv s" using Cons.prems(1) s(2) by (simp add: gs_inv_def gs_links_def gs_frame_def)
  have d: "distinct ts" "t \<notin> set ts" using Cons.prems(2) by auto
  have "set ts \<subseteq> mdom (gs_mesh s)" using Cons.prems(3) s(2) by (auto simp: gs_links_def)
  from Cons.IH [OF inv d(1) this, of tg1 tp1] obtain st' tg' tp' where
    st': "foldM mesh_topic ts (s, tg1, tp1) = Some (st', tg', tp')" "mesh_round (set ts) s st' tg1 tg' tp1 tp'"
    by blast
  note r = st'(2) [unfolded mesh_round_def]
  have old: "mesh_peers s u = mesh_peers st u" "mesh_repaired s u = mesh_repaired st u" if "u \<in> set ts" for u
    using gs_links_views [OF s(2), of u] that d(2) by auto
  have new: "mesh_peers st' t = mesh_peers s t" using gs_links_views(1) [of "set ts" s st' t] r d(2) by blast
  have sets: "{u \<in> set (t # ts). p \<in> mesh_peers st' u - mesh_peers st u} =
      {u \<in> set ts. p \<in> mesh_peers st' u - mesh_peers s u} \<union> (if p \<in> mesh_peers s t - mesh_peers st t then {t} else {})"
    "{u \<in> set (t # ts). p \<in> mesh_peers st u - mesh_peers st' u} =
      {u \<in> set ts. p \<in> mesh_peers s u - mesh_peers st' u} \<union> (if p \<in> mesh_peers st t - mesh_peers s t then {t} else {})" for p
    using old(1) by (auto simp: new)
  have cards: "card ({u \<in> set ts. P u} \<union> (if b then {t} else {})) = card {u \<in> set ts. P u} + (if b then 1 else 0)" for P b
    using d(2) by simp
  have run: "foldM mesh_topic (t # ts) (st, tg, tp) = Some (st', tg', tp')" using s(1) st'(1) by simp
  have "gs_links (set (t # ts)) st st'" using gs_links_trans [OF s(2)] r by fastforce
  moreover have "\<forall>u \<in> set (t # ts). mesh_repaired st u (mesh_peers st' u)" using r old(2) s(3) new by auto
  moreover have n: "topics_of tg1 p = topics_of tg p @ (if p \<in> mesh_peers s t - mesh_peers st t then [t] else [])"
    "topics_of tp1 p = topics_of tp p @ (if p \<in> mesh_peers st t - mesh_peers s t then [t] else [])" for p
    using s(4,5) by (simp_all add: noted_def)
  have "set (topics_of tg' p) = set (topics_of tg p) \<union> {u \<in> set (t # ts). p \<in> mesh_peers st' u - mesh_peers st u}"
    "length (topics_of tg' p) = length (topics_of tg p) + card {u \<in> set (t # ts). p \<in> mesh_peers st' u - mesh_peers st u}" for p
  proof -
    have "set (topics_of tg' p) = set (topics_of tg1 p) \<union> {u \<in> set ts. p \<in> mesh_peers st' u - mesh_peers s u}"
      "length (topics_of tg' p) = length (topics_of tg1 p) + card {u \<in> set ts. p \<in> mesh_peers st' u - mesh_peers s u}"
      using r by blast+
    then show "set (topics_of tg' p) = set (topics_of tg p) \<union> {u \<in> set (t # ts). p \<in> mesh_peers st' u - mesh_peers st u}"
      "length (topics_of tg' p) = length (topics_of tg p) + card {u \<in> set (t # ts). p \<in> mesh_peers st' u - mesh_peers st u}"
      unfolding sets cards n by (cases "p \<in> mesh_peers s t - mesh_peers st t", auto)+
  qed
  moreover have "set (topics_of tp' p) = set (topics_of tp p) \<union> {u \<in> set (t # ts). p \<in> mesh_peers st u - mesh_peers st' u}"
    "length (topics_of tp' p) = length (topics_of tp p) + card {u \<in> set (t # ts). p \<in> mesh_peers st u - mesh_peers st' u}" for p
  proof -
    have "set (topics_of tp' p) = set (topics_of tp1 p) \<union> {u \<in> set ts. p \<in> mesh_peers s u - mesh_peers st' u}"
      "length (topics_of tp' p) = length (topics_of tp1 p) + card {u \<in> set ts. p \<in> mesh_peers s u - mesh_peers st' u}"
      using r by blast+
    then show "set (topics_of tp' p) = set (topics_of tp p) \<union> {u \<in> set (t # ts). p \<in> mesh_peers st u - mesh_peers st' u}"
      "length (topics_of tp' p) = length (topics_of tp p) + card {u \<in> set (t # ts). p \<in> mesh_peers st u - mesh_peers st' u}"
      unfolding sets cards n by (cases "p \<in> mesh_peers st t - mesh_peers s t", auto)+
  qed
  ultimately have "mesh_round (set (t # ts)) st st' tg tg' tp tp'"
    unfolding mesh_round_def by blast
  with run show ?case by blast
qed

section \<open>The fanouts after the heartbeat\<close>

definition fanout_peers :: "('s, 'b, 'z) gossipsub_scheme \<Rightarrow> topic \<Rightarrow> peer set" where
  "fanout_peers st t = mdom (mget0 (gs_fanout st) t)"

definition fanout_kept :: "('s, 'b, 'z) gossipsub_scheme \<Rightarrow> topic \<Rightarrow> peer set" where
  "fanout_kept st t = fanout_peers st t \<inter> mdom (mget0 (n_topics st) t)"

definition fanout_repaired :: "('s, 'b, 'z) gossipsub_scheme \<Rightarrow> topic \<Rightarrow> peer set \<Rightarrow> bool" where
  "fanout_repaired st t new \<longleftrightarrow>
     (if card (fanout_kept st t) < 6
      then fanout_kept st t \<subseteq> new \<and> new - fanout_kept st t \<subseteq> gs_candidates st t (\<lambda>p. p \<notin> fanout_kept st t) \<and>
           card new = min 6 (card (fanout_kept st t) + card (gs_candidates st t (\<lambda>p. p \<notin> fanout_kept st t)))
      else new = fanout_kept st t)"

definition gs_fans :: "topic set \<Rightarrow> ('s, 'b, 'z) gossipsub_scheme \<Rightarrow> ('s, 'b, 'z) gossipsub_scheme \<Rightarrow> bool" where
  "gs_fans T st st' \<longleftrightarrow>
     gs_frame st st' \<and> gs_peers st' = gs_peers st \<and> gs_mesh st' = gs_mesh st \<and> gs_lastpub st' = gs_lastpub st \<and>
     (\<forall>u. u \<notin> T \<longrightarrow> mget (gs_fanout st') u = mget (gs_fanout st) u) \<and>
     mdom (gs_fanout st) \<subseteq> mdom (gs_fanout st')"

lemma gs_fans_refl [simp]: "gs_fans T s s"
  by (simp add: gs_fans_def)

lemma gs_fans_trans: "gs_fans T s t \<Longrightarrow> gs_fans U t u \<Longrightarrow> gs_fans (T \<union> U) s u"
  by (auto simp: gs_fans_def intro: gs_frame_trans)

lemma gs_fans_views:
  assumes "gs_fans T st st'" "u \<notin> T"
  shows "fanout_peers st' u = fanout_peers st u" "fanout_repaired st' u = fanout_repaired st u"
proof -
  show m: "fanout_peers st' u = fanout_peers st u"
    using assms by (simp add: gs_fans_def fanout_peers_def mget0_def)
  have "n_topics st' = n_topics st" "gs_peers st' = gs_peers st"
    using assms(1) by (simp_all add: gs_fans_def gs_frame_def router_frame_def)
  then show "fanout_repaired st' u = fanout_repaired st u"
    by (simp add: fanout_repaired_def fanout_kept_def gs_candidates_def m fun_eq_iff)
qed

lemma fanout_topic_spec:
  fixes st :: "('s, 'b, 'z) gossipsub_scheme"
  assumes "gs_inv st"
  shows "\<exists>st'. fanout_topic t st = Some st' \<and> gs_fans {t} st st' \<and> fanout_repaired st t (fanout_peers st' t)"
proof -
  let ?peers = "mget0 (gs_fanout st) t"
  define kept where "kept = fold (\<lambda>p peers. if mhas (mget0 (n_topics st) t) p then peers else mdel p peers) (mkeys ?peers) ?peers"
  have "mdom (fold (\<lambda>p peers. if p \<in> A then peers else mdel p peers) ps m) = mdom m - (set ps - A)" for A ps and m :: "(peer, unit) alist"
    by (induction ps arbitrary: m) auto
  then have kept: "mdom kept = fanout_kept st t" by (auto simp: kept_def fanout_kept_def fanout_peers_def)
  define run where "run = (if int (mlen kept) < GossipSubD
      then let ineed = GossipSubD - int (mlen kept); (plst, st) = getPeers t ineed (\<lambda>p. \<not> mhas kept p) st
           in (fold (\<lambda>p. mput p ()) plst kept, st)
      else (kept, st))"
  obtain new s where run: "run = (new, s)" by force
  have r: "(\<exists>e. s = st\<lparr>n_choices := e\<rparr>) \<and> fanout_repaired st t (mdom new)"
  proof (cases "card (fanout_kept st t) < 6")
    case False
    then have "new = kept" "s = st" using run by (simp_all add: run_def mlen_card kept GossipSubD_def)
    moreover have "\<exists>e. st = st\<lparr>n_choices := e\<rparr>" by (rule exI [of _ "n_choices st"]) simp
    moreover have "fanout_repaired st t (mdom kept)" using False by (simp add: fanout_repaired_def kept)
    ultimately show ?thesis by blast
  next
    case True
    obtain ps s1 where g: "getPeers t (6 - int (card (fanout_kept st t))) (\<lambda>p. p \<notin> fanout_kept st t) st = (ps, s1)" by force
    note gp = getPeers_spec [OF g]
    have eq: "new = fold (\<lambda>p. mput p ()) ps kept" "s = s1"
      using run True g by (simp_all add: run_def mlen_card kept GossipSubD_def)
    have dom: "mdom new = fanout_kept st t \<union> set ps" by (auto simp: eq mdom_fold_mput kept)
    have disj: "fanout_kept st t \<inter> set ps = {}" using gp(2) by (auto simp: gs_candidates_def)
    have fin: "finite (fanout_kept st t)" by (simp add: fanout_kept_def)
    have "card (set ps) = min (6 - card (fanout_kept st t)) (card (gs_candidates st t (\<lambda>p. p \<notin> fanout_kept st t)))"
      using gp(1,3) True by (simp add: distinct_card nat_diff_distrib)
    then have "fanout_repaired st t (mdom new)"
      using True disj gp(2) fin by (auto simp: fanout_repaired_def dom card_Un_disjoint)
    then show ?thesis using getPeers_choices [OF g] eq by blast
  qed
  then obtain e where s: "s = st\<lparr>n_choices := e\<rparr>" by blast
  let ?s = "s\<lparr>gs_fanout := mput t new (gs_fanout s)\<rparr>"
  have f: "gs_fans {t} st ?s" by (auto simp: s gs_fans_def gs_frame_def router_frame_def lookup_update)
  have inv: "gs_inv ?s" using assms by (simp add: gs_inv_def s)
  obtain s3 where e: "emitGossip t new ?s = Some s3" "gs_sends ?s s3"
    using emitGossip_ok [OF inv] by (auto simp: sends_ok_def)
  have "gs_fans {} ?s s3" using e(2) by (simp add: gs_fans_def gs_sends_def)
  from gs_fans_trans [OF f this] have "gs_fans {t} st s3" by simp
  moreover have "fanout_peers s3 t = mdom new" using e(2) by (simp add: gs_sends_def fanout_peers_def mget0_update)
  moreover have "fanout_topic t st = Some s3"
    using run e(1) unfolding fanout_topic_def Let_def run_def kept_def by simp
  ultimately show ?thesis using r by auto
qed

lemma fanout_loop_spec:
  fixes st :: "('s, 'b, 'z) gossipsub_scheme"
  assumes "gs_inv st" "distinct ts"
  shows "\<exists>st'. foldM fanout_topic ts st = Some st' \<and> gs_fans (set ts) st st' \<and>
    (\<forall>t \<in> set ts. fanout_repaired st t (fanout_peers st' t))"
  using assms
proof (induction ts arbitrary: st)
  case (Cons t ts)
  obtain s where s: "fanout_topic t st = Some s" "gs_fans {t} st s" "fanout_repaired st t (fanout_peers s t)"
    using fanout_topic_spec [OF Cons.prems(1)] by blast
  have inv: "gs_inv s" using Cons.prems(1) s(2) by (simp add: gs_inv_def gs_fans_def gs_frame_def)
  have d: "distinct ts" "t \<notin> set ts" using Cons.prems(2) by auto
  obtain st' where st': "foldM fanout_topic ts s = Some st'" "gs_fans (set ts) s st'"
    "\<forall>u \<in> set ts. fanout_repaired s u (fanout_peers st' u)" using Cons.IH [OF inv d(1)] by blast
  have "fanout_peers st' t = fanout_peers s t" using gs_fans_views(1) [OF st'(2) d(2)] .
  moreover have "fanout_repaired s u = fanout_repaired st u" if "u \<in> set ts" for u
    using gs_fans_views(2) [OF s(2), of u] that d(2) by auto
  moreover have "gs_fans (set (t # ts)) st st'" using gs_fans_trans [OF s(2) st'(2)] by simp
  ultimately show ?case using s(1,3) st'(1,3) by auto
qed simp

text \<open>A fanout expires when nothing was published to its topic for \<open>GossipSubFanoutTTL\<close>.\<close>

definition expired :: "('s, 'b, 'z) gossipsub_scheme \<Rightarrow> topic \<Rightarrow> bool" where
  "expired st t \<longleftrightarrow> (\<exists>l. mget (gs_lastpub st) t = Some l \<and> l + GossipSubFanoutTTL < n_clock st)"

lemma expire_loop_spec:
  fixes st :: "('s, 'b, 'z) gossipsub_scheme"
  defines "st' ts \<equiv> fold expire_topic ts st"
  shows "mget (gs_fanout (st' ts)) t = (if t \<in> set ts \<and> expired st t then None else mget (gs_fanout st) t)"
    "mget (gs_lastpub (st' ts)) t = (if t \<in> set ts \<and> expired st t then None else mget (gs_lastpub st) t)"
    "\<exists>f l. st' ts = st\<lparr>gs_fanout := f, gs_lastpub := l\<rparr>"
proof -
  have "(\<forall>t. mget (gs_fanout (fold expire_topic ts st)) t = (if t \<in> set ts \<and> expired st t then None else mget (gs_fanout st) t) \<and>
      mget (gs_lastpub (fold expire_topic ts st)) t = (if t \<in> set ts \<and> expired st t then None else mget (gs_lastpub st) t)) \<and>
      (\<exists>f l. fold expire_topic ts st = st\<lparr>gs_fanout := f, gs_lastpub := l\<rparr>)"
  proof (induction ts rule: rev_induct)
    case Nil
    have "st = st\<lparr>gs_fanout := gs_fanout st, gs_lastpub := gs_lastpub st\<rparr>" by simp
    then have "\<exists>f l. st = st\<lparr>gs_fanout := f, gs_lastpub := l\<rparr>" by blast
    then show ?case by simp
  next
    case (snoc u ts)
    let ?s = "fold expire_topic ts st"
    obtain f l where s: "?s = st\<lparr>gs_fanout := f, gs_lastpub := l\<rparr>" using snoc by blast
    have last: "mget (gs_lastpub ?s) u = (if u \<in> set ts \<and> expired st u then None else mget (gs_lastpub st) u)"
      and clock: "n_clock ?s = n_clock st" using snoc s by simp_all
    have e: "expire_topic u ?s = (if expired st u \<and> u \<notin> set ts
        then ?s\<lparr>gs_fanout := mdel u (gs_fanout ?s), gs_lastpub := mdel u (gs_lastpub ?s)\<rparr> else ?s)"
      unfolding expire_topic_def last clock by (auto simp: expired_def split: option.split)
    have "\<exists>f l. expire_topic u ?s = st\<lparr>gs_fanout := f, gs_lastpub := l\<rparr>"
      using s by (auto simp: expire_topic_def split: option.split)
    moreover have "mget (gs_fanout (expire_topic u ?s)) t =
        (if t \<in> set (ts @ [u]) \<and> expired st t then None else mget (gs_fanout st) t)"
      "mget (gs_lastpub (expire_topic u ?s)) t =
        (if t \<in> set (ts @ [u]) \<and> expired st t then None else mget (gs_lastpub st) t)" for t
      unfolding e using snoc by auto
    ultimately show ?case by simp
  qed
  then show "mget (gs_fanout (st' ts)) t = (if t \<in> set ts \<and> expired st t then None else mget (gs_fanout st) t)"
    "mget (gs_lastpub (st' ts)) t = (if t \<in> set ts \<and> expired st t then None else mget (gs_lastpub st) t)"
    "\<exists>f l. st' ts = st\<lparr>gs_fanout := f, gs_lastpub := l\<rparr>" unfolding st'_def by blast+
qed

section \<open>The coalesced GRAFTs and PRUNEs\<close>

text \<open>What the peer \<open>p\<close> is sent: the addresses of the loop variables, hence the last topic every time.\<close>

definition graft_prune_rpc :: "(peer, topic list) alist \<Rightarrow> (peer, topic list) alist \<Rightarrow> peer \<Rightarrow> RPC" where
  "graft_prune_rpc tograft toprune p =
     rpcWithControl [] [] [] (map mkGraft (loop_var_ptrs (topics_of tograft p)))
       (map mkPrune (loop_var_ptrs (topics_of toprune p)))"

lemma loop_var_ptrs_Nil [simp]: "loop_var_ptrs [] = []"
  by (simp add: loop_var_ptrs_def)

lemma topics_of_none: "p \<notin> mdom m \<Longrightarrow> topics_of m p = []"
  by (auto simp: topics_of_def split: option.split)

lemma mdel_none: "mget m k = None \<Longrightarrow> mdel k m = m"
  by transfer (simp add: AList.delete_id map_of_eq_None_iff)

lemma send_grafts_eq:
  fixes st :: "('s, 'b, 'z) gossipsub_scheme"
  assumes "distinct ps" "\<And>p. p \<in> set ps \<Longrightarrow> topics_of tp p = topics_of tp0 p"
  shows "foldM (send_graft_to tg) ps (st, tp) =
    map_option (\<lambda>st'. (st', fold mdel ps tp)) (foldM (\<lambda>p. sendRPC p (graft_prune_rpc tg tp0 p)) ps st)"
  using assms
proof (induction ps arbitrary: st tp)
  case (Cons p ps)
  have step: "send_graft_to tg p (st, tp) = map_option (\<lambda>st'. (st', mdel p tp)) (sendRPC p (graft_prune_rpc tg tp p) st)"
    by (cases "mget tp p") (auto simp: send_graft_to_def graft_prune_rpc_def topics_of_def map_conv_bind_option mem_mdom
        mdel_none split: Option.bind_split)
  have out: "graft_prune_rpc tg tp p = graft_prune_rpc tg tp0 p" using Cons.prems(2) by (simp add: graft_prune_rpc_def)
  have IH: "foldM (send_graft_to tg) ps (s, mdel p tp) =
      map_option (\<lambda>st'. (st', fold mdel ps (mdel p tp))) (foldM (\<lambda>p. sendRPC p (graft_prune_rpc tg tp0 p)) ps s)"
    for s :: "('s, 'b, 'z) gossipsub_scheme"
  proof (rule Cons.IH)
    fix q assume "q \<in> set ps"
    moreover from this have "q \<noteq> p" using Cons.prems(1) by auto
    ultimately show "topics_of (mdel p tp) q = topics_of tp0 q" using Cons.prems(2) by (simp add: topics_of_def)
  qed (use Cons.prems(1) in simp)
  show ?case by (cases "sendRPC p (graft_prune_rpc tg tp0 p) st") (simp_all add: step out IH)
qed simp

lemma foldM_sends_each':
  fixes st :: "('s, 'b, 'z) gossipsub_scheme"
  assumes "peers_ok st" "distinct ps"
  shows "\<exists>st'. foldM (\<lambda>p. sendRPC p (out p)) ps st = Some st' \<and> sends_each out ps (\<lambda>_. []) st st'"
  using foldM_sends_each [OF assms, where h = "\<lambda>_. []" and out = out, OF refl] by (simp add: option.map_ident)

lemma sends_each_append:
  fixes s t u :: "('s, 'b, 'z) gossipsub_scheme"
  assumes "peers_ok s" "sends_each out ps h s t" "sends_each out qs h t u" "set ps \<inter> set qs = {}"
  shows "sends_each out (ps @ qs) h s u"
proof -
  note 1 = assms(2) [unfolded sends_each_def] and 2 = assms(3) [unfolded sends_each_def]
  have sends: "gs_sends s t" using 1 by blast
  have other: "outbox t p = outbox s p" "has_room t p = has_room s p" "merged p (out p) t = merged p (out p) s"
    if "p \<notin> set ps" for p
  proof -
    show box: "outbox t p = outbox s p" using 1 that by simp
    show "has_room t p = has_room s p" by (rule has_room_cong [OF assms(1) sends box])
    show "merged p (out p) t = merged p (out p) s" using 1 that by (intro merged_cong) (auto simp: gs_sends_def)
  qed
  have "outbox u p = (if p \<in> set (ps @ qs) \<and> has_room s p then outbox s p @ [merged p (out p) s] else outbox s p)" for p
  proof (cases "p \<in> set ps")
    case True
    then have "p \<notin> set qs" using assms(4) by blast
    with True show ?thesis using 1 2 by simp
  next
    case False
    then show ?thesis using 2 by (simp add: other)
  qed
  moreover have "gs_sends s u" using 1 2 gs_sends_trans by blast
  ultimately show ?thesis using 1 2 unfolding sends_each_def by simp
qed

lemma sends_each_range:
  fixes s :: "('s, 'b, 'z) gossipsub_scheme"
  assumes "range_over ks s = (ps, s')" "sends_each out ps h s' t" shows "sends_each out ps h s t"
proof -
  obtain e where s': "s' = s\<lparr>n_choices := e\<rparr>" using range_over_set(4) [OF assms(1)] by blast
  have "merged p o' s' = merged p o' s" for p o' by (rule merged_cong) (simp_all add: s')
  moreover have "gs_sends s s'" by (simp add: s')
  ultimately show ?thesis using assms(2) unfolding sends_each_def by (auto simp: s' intro: gs_sends_trans)
qed

lemma sendGraftPrune_spec:
  fixes st :: "('s, 'b, 'z) gossipsub_scheme"
  assumes "peers_ok st"
  shows "\<exists>st' ps. sendGraftPrune tg tp st = Some st' \<and> set ps = mdom tg \<union> mdom tp \<and> distinct ps \<and>
    sends_each (graft_prune_rpc tg tp) ps (\<lambda>_. []) st st'"
proof -
  obtain ps s1 where r1: "range_over (mkeys tg) st = (ps, s1)" by force
  have ok1: "peers_ok s1" using range_over_sends [OF r1] by (rule gs_sends_peers_ok [OF assms])
  have ps: "distinct ps" "set ps = mdom tg" using range_over_set [OF r1] by simp_all
  obtain s2 where f1: "foldM (\<lambda>p. sendRPC p (graft_prune_rpc tg tp p)) ps s1 = Some s2"
    and e1: "sends_each (graft_prune_rpc tg tp) ps (\<lambda>_. []) s1 s2"
    using foldM_sends_each' [OF ok1 ps(1)] by blast
  have ok2: "peers_ok s2" using e1 gs_sends_peers_ok [OF ok1] by (simp add: sends_each_def)
  let ?tp = "fold mdel ps tp"
  obtain qs s3 where r2: "range_over (mkeys ?tp) s2 = (qs, s3)" by force
  have ok3: "peers_ok s3" using range_over_sends [OF r2] by (rule gs_sends_peers_ok [OF ok2])
  have qs: "distinct qs" "set qs = mdom tp - mdom tg" using range_over_set [OF r2] ps by (simp_all add: mdom_fold_mdel)
  obtain s4 where f2: "foldM (\<lambda>p. sendRPC p (graft_prune_rpc tg tp p)) qs s3 = Some s4"
    and e2: "sends_each (graft_prune_rpc tg tp) qs (\<lambda>_. []) s3 s4"
    using foldM_sends_each' [OF ok3 qs(1)] by blast
  have same: "mget (fold mdel xs m) p = mget m p" if "p \<notin> set xs" for xs p and m :: "(peer, topic list) alist"
    using that by (induction xs arbitrary: m) auto
  have eq: "send_prune_to ?tp p s = sendRPC p (graft_prune_rpc tg tp p) s" if "p \<in> set qs" for p and s :: "('s, 'b, 'z) gossipsub_scheme"
  proof -
    have "p \<notin> mdom tg" "topics_of ?tp p = topics_of tp p" using that qs(2) ps(2) by (auto simp: topics_of_def same)
    then show ?thesis by (simp add: send_prune_to_def graft_prune_rpc_def topics_of_none)
  qed
  have cong: "foldM f xs s = foldM g xs s" if "\<And>x s. x \<in> set xs \<Longrightarrow> f x s = g x s" for f g xs and s :: "('s, 'b, 'z) gossipsub_scheme"
    using that by (induction xs arbitrary: s) (auto intro!: Option.bind_cong)
  have "foldM (send_prune_to ?tp) qs s3 = Some s4"
    using cong [of qs "send_prune_to ?tp" "\<lambda>p. sendRPC p (graft_prune_rpc tg tp p)" s3] eq f2 by simp
  then have run: "sendGraftPrune tg tp st = Some s4"
    using f1 ps(1) by (simp add: sendGraftPrune_def r1 send_grafts_eq [where tp = tp and tp0 = tp] r2)
  have "sends_each (graft_prune_rpc tg tp) (ps @ qs) (\<lambda>_. []) st s4"
    by (rule sends_each_append [OF assms sends_each_range [OF r1 e1] sends_each_range [OF r2 e2]])
      (use ps qs in auto)
  moreover have "distinct (ps @ qs)" "set (ps @ qs) = mdom tg \<union> mdom tp" using ps qs by auto
  ultimately show ?thesis using run by blast
qed

section \<open>The whole heartbeat\<close>

lemma heartbeat_spec:
  fixes st :: "('s, 'b, 'z) gossipsub_scheme"
  assumes ok: "peers_ok st" and inv: "gs_inv st"
  shows "\<exists>st'. heartbeat st = Some st' \<and> router_frame st st' \<and> gs_inv st' \<and> Shift (gs_mcache st) = Some (gs_mcache st') \<and>
    gs_peers st' = gs_peers st \<and>
    mdom (gs_mesh st') = mdom (gs_mesh st) \<and> (\<forall>t \<in> mdom (gs_mesh st). mesh_repaired st t (mesh_peers st' t)) \<and>
    mdom (gs_fanout st') = {t \<in> mdom (gs_fanout st). \<not> expired st t} \<and>
    (\<forall>t \<in> mdom (gs_fanout st'). fanout_repaired st t (fanout_peers st' t)) \<and>
    (\<forall>t. mget (gs_lastpub st') t = (if expired st t then None else mget (gs_lastpub st) t))"
proof -
  obtain s1 where 1: "flush st = Some s1" "gs_sends st s1" using flush_ok [OF ok] by (auto simp: sends_ok_def)
  obtain ts s2 where 2: "range_over (mkeys (gs_mesh s1)) s1 = (ts, s2)" by force
  have e2: "gs_sends st s2" using 1(2) range_over_sends [OF 2] by (rule gs_sends_trans)
  have ts: "distinct ts" "set ts = mdom (gs_mesh st)" "set ts \<subseteq> mdom (gs_mesh s2)"
    using range_over_set [OF 2] 1(2) e2 by (simp_all add: gs_sends_def)
  have inv2: "gs_inv s2" using inv gs_sends_mcache [OF e2] by (simp add: gs_inv_def)
  obtain s3 tg tp where 3: "foldM mesh_topic ts (s2, mempty, mempty) = Some (s3, tg, tp)"
    "mesh_round (set ts) s2 s3 mempty tg mempty tp" using mesh_loop_spec [OF inv2 ts(1,3)] by blast
  have l3: "gs_links (set ts) st s3" using gs_links_same [OF gs_sends_links [OF e2]] 3(2) by (auto simp: mesh_round_def)
  obtain us s4 where 4: "range_over (mkeys (gs_lastpub s3)) s3 = (us, s4)" by force
  have e4: "gs_links (set ts) st s4" using l3 gs_sends_links [OF range_over_sends [OF 4]] by (rule gs_links_same)
  define s5 where "s5 = fold expire_topic us s4"
  note ex = expire_loop_spec [where st = s4 and ts = us, folded s5_def]
  obtain f l where s5: "s5 = s4\<lparr>gs_fanout := f, gs_lastpub := l\<rparr>" using ex(3) by blast
  obtain vs s6 where 6: "range_over (mkeys (gs_fanout s5)) s5 = (vs, s6)" by force
  note e6 = range_over_sends [OF 6]
  have fr6: "gs_frame st s6"
    by (rule gs_frame_trans [OF gs_links_frame [OF e4] gs_frame_trans [OF _ gs_sends_frame [OF e6]]])
      (simp add: s5 gs_frame_def router_frame_def)
  have inv6: "gs_inv s6" using inv fr6 by (simp add: gs_inv_def gs_frame_def)
  have vs: "distinct vs" "set vs = mdom (gs_fanout s5)" using range_over_set [OF 6] by simp_all
  obtain s7 where 7: "foldM fanout_topic vs s6 = Some s7" "gs_fans (set vs) s6 s7"
    "\<forall>t \<in> set vs. fanout_repaired s6 t (fanout_peers s7 t)" using fanout_loop_spec [OF inv6 vs(1)] by blast
  have fr7: "gs_frame st s7" using fr6 7(2) gs_frame_trans by (auto simp: gs_fans_def)
  obtain s8 where 8: "sendGraftPrune tg tp s7 = Some s8" "gs_sends s7 s8"
    using sendGraftPrune_spec [OF gs_frame_peers_ok [OF ok fr7], of tg tp] unfolding sends_each_def by blast
  have fr8: "gs_frame st s8" using fr7 gs_sends_frame [OF 8(2)] by (rule gs_frame_trans)
  then have mc8: "gs_mcache s8 = gs_mcache st" by (simp add: gs_frame_def)
  obtain mc where mc: "Shift (gs_mcache st) = Some mc" "mc_ok mc" using Shift_ok inv by (auto simp: gs_inv_def)
  let ?st' = "s8\<lparr>gs_mcache := mc\<rparr>"
  have run: "heartbeat st = Some ?st'"
    by (simp add: heartbeat_def 1 2 3 4 6 7 8 mc mc8 s5_def [symmetric])
  have frame: "router_frame st ?st'" using fr8 by (simp add: gs_frame_def router_frame_def)
  have fields: "gs_mesh ?st' = gs_mesh s3" "gs_fanout ?st' = gs_fanout s7" "gs_lastpub ?st' = gs_lastpub s5"
    "gs_peers ?st' = gs_peers st"
    using 8(2) 7(2) e6 range_over_sends [OF 4] l3 by (simp_all add: gs_sends_def gs_fans_def s5 gs_links_def)
  have "mget (gs_mesh s3) u = mget (gs_mesh st) u" if "u \<notin> set ts" for u using l3 that by (simp add: gs_links_def)
  then have meshdom: "mdom (gs_mesh ?st') = mdom (gs_mesh st)"
    using l3 ts(2) by (auto simp: fields gs_links_def mem_mdom)
  have mesh: "mesh_repaired st t (mesh_peers ?st' t)" if "t \<in> mdom (gs_mesh st)" for t
  proof -
    have "mesh_repaired s2 t (mesh_peers s3 t)" using 3(2) that ts(2) by (simp add: mesh_round_def)
    moreover have "mesh_peers ?st' t = mesh_peers s3 t" by (simp add: mesh_peers_def fields)
    ultimately show ?thesis using gs_links_views(3) [OF gs_sends_links [OF e2], of t "{}"] by simp
  qed
  have s4: "gs_fanout s4 = gs_fanout st" "gs_lastpub s4 = gs_lastpub st" "n_clock s4 = n_clock st"
    using e4 by (simp_all add: gs_links_def gs_frame_def router_frame_def)
  have exp: "expired s4 t = expired st t" "expired st t \<Longrightarrow> t \<in> set us" for t
  proof -
    show "expired s4 t = expired st t" by (simp add: expired_def s4)
    have "set us = mdom (gs_lastpub st)" using range_over_set(1) [OF 4] l3 by (simp add: gs_links_def)
    then show "expired st t \<Longrightarrow> t \<in> set us" by (auto simp: expired_def)
  qed
  have fan5: "mget (gs_fanout s5) t = (if expired st t then None else mget (gs_fanout st) t)" for t
    using ex(1) [of t] exp by (auto simp: s4)
  have last: "mget (gs_lastpub ?st') t = (if expired st t then None else mget (gs_lastpub st) t)" for t
    using ex(2) [of t] exp by (auto simp: s4 fields)
  have same56: "gs_fanout s6 = gs_fanout s5" using e6 by (simp add: gs_sends_def)
  have fandom: "mdom (gs_fanout ?st') = set vs"
  proof -
    have "mget (gs_fanout s7) u = mget (gs_fanout s6) u" if "u \<notin> set vs" for u using 7(2) that by (simp add: gs_fans_def)
    then show ?thesis using 7(2) vs(2) by (auto simp: fields gs_fans_def mem_mdom same56)
  qed
  have fan: "fanout_repaired st t (fanout_peers ?st' t)" if t: "t \<in> mdom (gs_fanout ?st')" for t
  proof -
    have "t \<in> mdom (gs_fanout s5)" using t fandom vs(2) by simp
    then have "mget (gs_fanout s6) t = mget (gs_fanout st) t" using fan5 [of t] by (auto simp: mem_mdom same56)
    then have "fanout_peers s6 t = fanout_peers st t" by (simp add: fanout_peers_def mget0_def)
    moreover have "n_topics s6 = n_topics st" "gs_peers s6 = gs_peers st"
      using fr6 fields 8(2) 7(2) by (simp_all add: gs_frame_def router_frame_def gs_sends_def gs_fans_def)
    ultimately have "fanout_repaired s6 t = fanout_repaired st t"
      by (simp add: fanout_repaired_def fanout_kept_def gs_candidates_def fun_eq_iff)
    moreover have "fanout_peers ?st' t = fanout_peers s7 t" by (simp add: fanout_peers_def fields)
    moreover have "fanout_repaired s6 t (fanout_peers s7 t)" using 7(3) t fandom by blast
    ultimately show ?thesis by simp
  qed
  have "mdom (gs_fanout ?st') = {t \<in> mdom (gs_fanout st). \<not> expired st t}"
    unfolding fandom vs(2) using fan5 by (auto simp: mem_mdom split: if_splits)
  with run frame mc(2) mc(1) fields(4) meshdom mesh fan last show ?thesis
    by (intro exI [of _ ?st']) (simp add: gs_inv_def)
qed

end
