(* ===== verification/PubSubSafety.thy ===== *)
theory PubSubSafety
  imports Pipeline FloodSub RandomSub Heartbeat
begin

text \<open>
  The loop's invariant and its freedom from panics, for every router and every blacklist that keep their
  contracts. The locale \<open>pubsub\<close> joins the interfaces; it is interpreted on the three routers with the
  map blacklist.
\<close>

section \<open>The invariant of the loop's state\<close>

text \<open>
  The subscription objects: the indices are an initial segment, an object is open exactly as long as its
  topic's entry refers to it, no topic has an empty entry, and an entry refers to objects of its topic.
\<close>

definition sub_ok :: "bool \<Rightarrow> Subscription \<Rightarrow> bool" where
  "sub_ok live sub \<longleftrightarrow> length (ch_buf (s_ch sub)) \<le> ch_cap (s_ch sub) \<and>
     ch_closed (s_ch sub) = (\<not> live) \<and> s_cancelled sub = (\<not> live)"

definition subs_ok :: "(nat, Subscription) alist \<Rightarrow> (topic, (nat, unit) alist) alist \<Rightarrow> bool" where
  "subs_ok H T \<longleftrightarrow> mdom H = {..<mlen H} \<and>
     (\<forall>i sub. mget H i = Some sub \<longrightarrow> sub_ok (i \<in> mdom (mget0 T (s_topic sub))) sub) \<and>
     (\<forall>t ss. mget T t = Some ss \<longrightarrow> mdom ss \<noteq> {} \<and>
        (\<forall>i \<in> mdom ss. \<exists>sub. mget H i = Some sub \<and> s_topic sub = t))"

definition no_blacklisted :: "'b blacklist_methods \<Rightarrow> ('s, 'b, 'z) node_scheme \<Rightarrow> bool" where
  "no_blacklisted bl st \<longleftrightarrow> (\<forall>p \<in> mdom (n_peers st). \<not> bl_Contains bl (n_blacklist st) p)"

definition node_inv :: "'b blacklist_methods \<Rightarrow> ('s pipe \<Rightarrow> bool) \<Rightarrow> ('s, 'b, 'z) node_scheme \<Rightarrow> bool" where
  "node_inv bl J st \<longleftrightarrow> peers_ok st \<and> no_blacklisted bl st \<and> subs_ok (n_subs st) (n_myTopics st) \<and> J (pipe_of st)"

lemma node_inv_frame [inv_intros]:
  assumes "node_inv bl J st" "router_frame st st'" shows "node_inv bl J st'"
proof -
  have "peers_ok st'" using assms frame_peers_ok by (auto simp: node_inv_def)
  moreover have "mdom (n_peers st') = mdom (n_peers st)" by (rule frame_mdom_peers [OF assms(2)])
  moreover have "J (pipe_of st')"
    using assms(1) by (simp add: node_inv_def pipe_of_frame [OF assms(2)])
  ultimately show ?thesis using assms by (simp add: node_inv_def no_blacklisted_def router_frame_def)
qed

text \<open>The objects a fold over a topic's entry may update.\<close>

lemma sub_ok_notify [simp]: "sub_ok live (sendNotification evt sub) = sub_ok live sub"
  by (auto simp: sub_ok_def sendNotification_def addToEventLog_def signal_def split: option.split)

lemma topic_notify [simp]: "s_topic (sendNotification evt sub) = s_topic sub"
  by (auto simp: sendNotification_def addToEventLog_def signal_def split: option.split)

lemma subs_okD:
  assumes "subs_ok H T"
  shows "mdom H = {..<mlen H}"
    "mget H i = Some sub \<Longrightarrow> sub_ok (i \<in> mdom (mget0 T (s_topic sub))) sub"
    "mget T t = Some ss \<Longrightarrow> mdom ss \<noteq> {}"
    "mget T t = Some ss \<Longrightarrow> i \<in> mdom ss \<Longrightarrow> \<exists>sub. mget H i = Some sub \<and> s_topic sub = t"
  using assms by (auto simp: subs_ok_def)

lemma subs_okI:
  assumes "mdom H = {..<mlen H}"
    and "\<And>i sub. mget H i = Some sub \<Longrightarrow> sub_ok (i \<in> mdom (mget0 T (s_topic sub))) sub"
    and "\<And>t ss. mget T t = Some ss \<Longrightarrow> mdom ss \<noteq> {}"
    and "\<And>t ss i. mget T t = Some ss \<Longrightarrow> i \<in> mdom ss \<Longrightarrow> \<exists>sub. mget H i = Some sub \<and> s_topic sub = t"
  shows "subs_ok H T"
  using assms by (auto simp: subs_ok_def)

lemma subs_ok_live:
  "subs_ok H T \<Longrightarrow> i \<in> mdom (mget0 T t) \<Longrightarrow> \<exists>sub. mget H i = Some sub \<and> s_topic sub = t \<and> sub_ok True sub"
  using subs_okD(2,4) by (cases "mget T t") (fastforce)+

lemma subs_ok_update:
  assumes "subs_ok H T" "mget H i = Some sub" "s_topic sub' = s_topic sub"
    "sub_ok (i \<in> mdom (mget0 T (s_topic sub))) sub'"
  shows "subs_ok (mput i sub' H) T"
proof (rule subs_okI)
  show "mdom (mput i sub' H) = {..<mlen (mput i sub' H)}"
    using subs_okD(1) [OF assms(1)] mem_mdomI [OF assms(2)] by (simp add: mlen_update insert_absorb)
  show "sub_ok (j \<in> mdom (mget0 T (s_topic x))) x" if "mget (mput i sub' H) j = Some x" for j x
    using that assms(3,4) subs_okD(2) [OF assms(1)] by (auto simp: lookup_update split: if_splits)
  show "mdom ss \<noteq> {}" if "mget T t = Some ss" for t ss using that by (rule subs_okD(3) [OF assms(1)])
  show "\<exists>x. mget (mput i sub' H) j = Some x \<and> s_topic x = t" if "mget T t = Some ss" "j \<in> mdom ss" for t ss j
    using subs_okD(4) [OF assms(1) that] assms(2,3) by (auto simp: lookup_update)
qed

lemma subs_ok_add:
  assumes "subs_ok H T" "s_topic sub = t" "sub_ok True sub"
  shows "subs_ok (mput (mlen H) sub H) (mput t (mput (mlen H) () (mget0 T t)) T)"
proof (rule subs_okI)
  have new: "mlen H \<notin> mdom H" using subs_okD(1) [OF assms(1)] by simp
  show "mdom (mput (mlen H) sub H) = {..<mlen (mput (mlen H) sub H)}"
    using subs_okD(1) [OF assms(1)] new by (simp add: mlen_update lessThan_Suc)
  show "sub_ok (j \<in> mdom (mget0 (mput t (mput (mlen H) () (mget0 T t)) T) (s_topic x))) x"
    if "mget (mput (mlen H) sub H) j = Some x" for j x
    using that assms(2,3) subs_okD(2) [OF assms(1), of j x] new
    by (auto simp: lookup_update mget0_update mem_mdom split: if_splits)
  show "mdom ss \<noteq> {}" if "mget (mput t (mput (mlen H) () (mget0 T t)) T) u = Some ss" for u ss
    using that subs_okD(3) [OF assms(1)] by (auto simp: lookup_update split: if_splits)
  show "\<exists>x. mget (mput (mlen H) sub H) j = Some x \<and> s_topic x = u"
    if "mget (mput t (mput (mlen H) () (mget0 T t)) T) u = Some ss" "j \<in> mdom ss" for u ss j
  proof (cases "j = mlen H")
    case True
    have "u = t"
    proof (rule ccontr)
      assume "u \<noteq> t"
      then have "mget T u = Some ss" using that(1) by (simp add: lookup_update)
      from subs_okD(4) [OF assms(1) this that(2)] have "\<exists>x. mget H j = Some x" by blast
      with True new show False by (auto simp: mem_mdom)
    qed
    with True assms(2) show ?thesis by (simp add: lookup_update)
  next
    case False
    then have "j \<in> mdom (mget0 T u)" using that by (auto simp: lookup_update mget0_def split: if_splits)
    with False show ?thesis using subs_ok_live [OF assms(1)] by (auto simp: lookup_update)
  qed
qed

text \<open>Closing one live object and taking it from its topic's entry.\<close>

lemma subs_ok_remove:
  assumes "subs_ok H T" "mget T t = Some ss" "i \<in> mdom ss" "s_topic sub = t" "sub_ok False sub"
  shows "subs_ok (mput i sub H) (if mlen (mdel i ss) = 0 then mdel t T else mput t (mdel i ss) T)" (is "subs_ok _ ?T")
proof (rule subs_okI)
  obtain old where old: "mget H i = Some old" "s_topic old = t" using subs_okD(4) [OF assms(1-3)] by blast
  have T: "mget0 ?T u = (if u = t then mdel i ss else mget0 T u)" if "u = t \<longrightarrow> mlen (mdel i ss) \<noteq> 0" for u
    using that by (auto simp: mget0_update mget0_delete)
  have T': "mdom (mget0 ?T u) = (if u = t then mdom ss - {i} else mdom (mget0 T u))" for u
    by (auto simp: mget0_update mget0_delete)
  show "mdom (mput i sub H) = {..<mlen (mput i sub H)}"
    using subs_okD(1) [OF assms(1)] mem_mdomI [OF old(1)] by (simp add: mlen_update insert_absorb)
  have iff: "j \<in> mdom (mget0 ?T (s_topic x)) \<longleftrightarrow> j \<in> mdom (mget0 T (s_topic x))" if "j \<noteq> i" for j x
    unfolding T' using that assms(2) by auto
  show "sub_ok (j \<in> mdom (mget0 ?T (s_topic x))) x" if x: "mget (mput i sub H) j = Some x" for j x
  proof (cases "j = i")
    case True
    then have "x = sub" using x by (simp add: lookup_update)
    with True assms(4,5) show ?thesis by (simp add: T')
  next
    case False
    then have "mget H j = Some x" using x by (simp add: lookup_update)
    then show ?thesis using subs_okD(2) [OF assms(1)] by (simp only: iff [OF False])
  qed
  show "mdom us \<noteq> {}" if "mget ?T u = Some us" for u us
    using that subs_okD(3) [OF assms(1)] by (auto simp: lookup_update simp del: mdom_delete simp flip: mlen_0_iff split: if_splits)
  show "\<exists>x. mget (mput i sub H) j = Some x \<and> s_topic x = u" if us: "mget ?T u = Some us" "j \<in> mdom us" for u us j
  proof -
    have "j \<in> mdom (mget0 ?T u)" using us by simp
    then have u: "j \<in> mdom (mget0 T u)" "\<not> (j = i \<and> u = t)"
      unfolding T' using assms(2) by (auto split: if_splits)
    obtain x where x: "mget H j = Some x" "s_topic x = u" using subs_ok_live [OF assms(1) u(1)] by blast
    have "j \<noteq> i" using u(2) x old by auto
    with x show ?thesis by (simp add: lookup_update)
  qed
qed

text \<open>\<open>same_but_subs\<close>: only subscription objects were changed, and their shape was kept.\<close>

definition same_but_subs :: "('s, 'b, 'z) node_scheme \<Rightarrow> ('s, 'b, 'z) node_scheme \<Rightarrow> bool" where
  "same_but_subs st st' \<longleftrightarrow> (\<exists>H. st' = st\<lparr>n_subs := H\<rparr>) \<and>
     (subs_ok (n_subs st) (n_myTopics st) \<longrightarrow> subs_ok (n_subs st') (n_myTopics st'))"

lemma same_but_subs_refl [simp]: "same_but_subs st st"
proof -
  have "st = st\<lparr>n_subs := n_subs st\<rparr>" by simp
  then show ?thesis unfolding same_but_subs_def by blast
qed

lemma same_but_subs_trans: "same_but_subs s t \<Longrightarrow> same_but_subs t u \<Longrightarrow> same_but_subs s u"
  by (auto simp: same_but_subs_def)

lemma same_but_subs_inv [inv_intros]: "node_inv bl J st \<Longrightarrow> same_but_subs st st' \<Longrightarrow> node_inv bl J st'"
  by (auto simp: same_but_subs_def node_inv_def peers_ok_def no_blacklisted_def)

lemma same_but_subs_more: "same_but_subs st st' \<Longrightarrow> node.more st' = node.more st"
  by (auto simp: same_but_subs_def)

lemma upd_sub_same: "same_but_subs st (upd_sub i (sendNotification evt) st)"
proof (cases "mget (n_subs st) i")
  case (Some sub)
  have "subs_ok (mput i (sendNotification evt sub) (n_subs st)) (n_myTopics st)"
    if "subs_ok (n_subs st) (n_myTopics st)"
    using that Some subs_okD(2) [OF that Some] by (intro subs_ok_update) simp_all
  with Some show ?thesis by (auto simp: upd_sub_def same_but_subs_def)
qed (simp add: upd_sub_def)

lemma fold_same:
  "(\<And>x s. same_but_subs s (f x s)) \<Longrightarrow> same_but_subs st (fold f xs st)"
  by (induction xs arbitrary: st) (auto intro: same_but_subs_trans)

lemma notify_topic_same: "same_but_subs st (notify_topic t evt st)"
  by (auto simp: notify_topic_def split: option.split intro!: fold_same upd_sub_same)

section \<open>Delivering and announcing\<close>

lemma deliver_ok:
  assumes "subs_ok (n_subs st) (n_myTopics st)" "i \<in> mdom (mget0 (n_myTopics st) t)"
  shows "\<exists>st'. deliver msg i st = Some st' \<and> same_but_subs st st'"
proof -
  obtain sub where sub: "mget (n_subs st) i = Some sub" "s_topic sub = t" "sub_ok True sub"
    using subs_ok_live [OF assms] by blast
  have "subs_ok (mput i (sub\<lparr>s_ch := (s_ch sub)\<lparr>ch_buf := ch_buf (s_ch sub) @ [msg]\<rparr>\<rparr>) (n_subs st)) (n_myTopics st)"
    if "chan_room (s_ch sub)"
    using that sub assms by (intro subs_ok_update [OF assms(1) sub(1)]) (auto simp: sub_ok_def chan_room_def)
  then show ?thesis
    using sub chan_send_open [of "s_ch sub" msg] by (auto simp: deliver_def sub_ok_def same_but_subs_def [of st "st\<lparr>n_subs := _\<rparr>"])
qed

lemma same_but_subs_views:
  "same_but_subs st st' \<Longrightarrow> n_myTopics st' = n_myTopics st"
  "same_but_subs st st' \<Longrightarrow> subs_ok (n_subs st) (n_myTopics st) \<Longrightarrow> subs_ok (n_subs st') (n_myTopics st)"
  by (auto simp: same_but_subs_def)

lemma deliver_all_ok:
  assumes "subs_ok (n_subs st) (n_myTopics st)" "set is \<subseteq> mdom (mget0 (n_myTopics st) t)"
  shows "\<exists>st'. foldM (deliver msg) is st = Some st' \<and> same_but_subs st st'"
  using assms
proof (induction "is" arbitrary: st)
  case (Cons i "is")
  obtain s where s: "deliver msg i st = Some s" "same_but_subs st s"
    using deliver_ok [OF Cons.prems(1), of i t] Cons.prems(2) by auto
  note v = same_but_subs_views [OF s(2)]
  obtain st' where "foldM (deliver msg) is s = Some st'" "same_but_subs s st'"
    using Cons.IH [of s] Cons.prems v by auto
  with s show ?case by (auto intro: same_but_subs_trans)
qed simp

lemma notifySubs_ok [inv_intros]:
  assumes "subs_ok (n_subs st) (n_myTopics st)"
  shows "\<exists>st'. notifySubs msg st = Some st' \<and> same_but_subs st st'"
proof -
  let ?f = "\<lambda>topic st. foldM (deliver msg) (mkeys (mget0 (n_myTopics st) topic)) st"
  have "\<exists>st'. foldM ?f ts s = Some st' \<and> same_but_subs s st'"
    if "subs_ok (n_subs s) (n_myTopics s)" for ts and s :: "('a, 'b, 'c) node_scheme"
    using that
  proof (induction ts arbitrary: s)
    case (Cons t ts)
    obtain u where u: "?f t s = Some u" "same_but_subs s u"
      using deliver_all_ok [OF Cons.prems, of "mkeys (mget0 (n_myTopics s) t)" t] by auto
    note v = same_but_subs_views [OF u(2)]
    obtain st' where "foldM ?f ts u = Some st'" "same_but_subs u st'" using Cons.IH [of u] v Cons.prems by auto
    with u show ?case by (auto intro: same_but_subs_trans)
  qed simp
  from this [OF assms] show ?thesis by (simp add: notifySubs_def)
qed

text \<open>What announcing changes.\<close>

definition queue_frame :: "('s, 'b, 'z) node_scheme \<Rightarrow> ('s, 'b, 'z) node_scheme \<Rightarrow> bool" where
  "queue_frame st st' \<longleftrightarrow>
     (\<exists>P R C. st' = st\<lparr>n_peers := P, n_retries := R, n_choices := C\<rparr>) \<and> queues_extend (n_peers st) (n_peers st')"

lemma queue_frameI: "queues_extend (n_peers st) P \<Longrightarrow> queue_frame st (st\<lparr>n_peers := P, n_retries := R, n_choices := C\<rparr>)"
  by (auto simp: queue_frame_def)

lemma queue_frame_refl [simp]: "queue_frame st st"
  using queue_frameI [OF queues_extend_refl, where st = st and R = "n_retries st" and C = "n_choices st"] by simp

lemma queue_frame_trans: assumes "queue_frame s t" "queue_frame t u" shows "queue_frame s u"
proof -
  obtain P R C where t: "t = s\<lparr>n_peers := P, n_retries := R, n_choices := C\<rparr>" using assms(1) by (auto simp: queue_frame_def)
  obtain P' R' C' where u: "u = t\<lparr>n_peers := P', n_retries := R', n_choices := C'\<rparr>" using assms(2) by (auto simp: queue_frame_def)
  have "queues_extend (n_peers s) (n_peers u)" using assms queues_extend_trans by (auto simp: queue_frame_def)
  then have "queues_extend (n_peers s) P'" by (simp add: u)
  then have "queue_frame s (s\<lparr>n_peers := P', n_retries := R', n_choices := C'\<rparr>)" by (rule queue_frameI)
  then show ?thesis by (simp add: u t)
qed

lemma queue_frame_peers_ok:
  assumes "peers_ok st" "queue_frame st st'" shows "peers_ok st'"
  unfolding peers_ok_def
proof (intro allI impI)
  fix p c' assume c': "mget (n_peers st') p = Some c'"
  then have "p \<in> mdom (n_peers st)" using assms(2) by (auto simp: queue_frame_def queues_extend_def)
  then obtain c where "mget (n_peers st) p = Some c" by (auto simp: mem_mdom)
  with c' assms show "chan_ok c'" unfolding peers_ok_def queue_frame_def queues_extend_def by blast
qed

lemma queue_frame_inv [inv_intros]:
  assumes "node_inv bl J st" "queue_frame st st'" shows "node_inv bl J st'"
proof -
  have "mdom (n_peers st') = mdom (n_peers st)" using assms(2) by (simp add: queue_frame_def queues_extend_def)
  moreover have "peers_ok st'" using assms queue_frame_peers_ok by (auto simp: node_inv_def)
  ultimately show ?thesis using assms by (auto simp: node_inv_def no_blacklisted_def queue_frame_def)
qed

lemma queue_frame_more: "queue_frame st st' \<Longrightarrow> node.more st' = node.more st"
  by (auto simp: queue_frame_def)

lemma range_over_queue_frame: "range_over ks st = (ks', st') \<Longrightarrow> queue_frame st st'"
proof -
  assume "range_over ks st = (ks', st')"
  then obtain e where "st' = st\<lparr>n_choices := e\<rparr>" using range_over_set(4) by blast
  then show ?thesis using queue_frameI [OF queues_extend_refl, where st = st and R = "n_retries st" and C = e] by simp
qed

lemma doAnnounceRetry_ok:
  assumes "peers_ok st"
  shows "\<exists>st'. doAnnounceRetry pid t sub st = Some st' \<and> queue_frame st st'"
proof -
  obtain r s where s: "try_send pid (rpcWithSubs [mkSubOpts t sub]) st = Some (r, s)"
    using try_send_total [OF assms] by blast
  have ext: "queues_extend (n_peers st) (n_peers s)" using try_send_frame [OF s] by (simp add: router_frame_def)
  obtain P where P: "s = st\<lparr>n_peers := P\<rparr>"
  proof -
    have "st = st\<lparr>n_peers := n_peers st\<rparr>" by simp
    then show thesis using try_send_cases [OF assms s] that by metis
  qed
  have "queue_frame st (s\<lparr>n_retries := R\<rparr>)" for R
    using queue_frameI [where st = st and P = P and R = R and C = "n_choices st"] ext by (simp add: P)
  moreover from this [of "n_retries st"] have "queue_frame st s" by (simp add: P)
  ultimately show ?thesis by (simp add: doAnnounceRetry_def s split: send_result.split)
qed

lemma announce_ok [inv_intros]:
  assumes "peers_ok st" shows "\<exists>st'. announce t sub st = Some st' \<and> queue_frame st st'"
proof -
  obtain pids s where r: "range_over (mkeys (n_peers st)) st = (pids, s)" by force
  have f: "queue_frame st s" by (rule range_over_queue_frame [OF r])
  have "\<exists>u. foldM (\<lambda>pid. doAnnounceRetry pid t sub) pids s = Some u \<and> (queue_frame st u \<and> peers_ok u)"
    using doAnnounceRetry_ok queue_frame_trans queue_frame_peers_ok f queue_frame_peers_ok [OF assms f]
    by (intro foldM_total) blast+
  then show ?thesis by (auto simp: announce_def r)
qed

lemma announceRetry_ok [inv_intros]:
  "peers_ok st \<Longrightarrow> \<exists>st'. announceRetry pid t sub st = Some st' \<and> queue_frame st st'"
  by (auto simp: announceRetry_def Let_def intro: doAnnounceRetry_ok)

section \<open>Every turn of the loop returns and keeps the invariant\<close>

definition good :: "'b blacklist_methods \<Rightarrow> ('s pipe \<Rightarrow> bool) \<Rightarrow> (('s, 'b, 'z) node_scheme \<Rightarrow> bool) \<Rightarrow> ('s, 'b, 'z) node_scheme \<Rightarrow> bool" where
  "good bl J I st \<longleftrightarrow> node_inv bl J st \<and> I st"

definition stays ::
  "'b blacklist_methods \<Rightarrow> ('s pipe \<Rightarrow> bool) \<Rightarrow> (('s, 'b, 'z) node_scheme \<Rightarrow> bool) \<Rightarrow>
   ('s, 'b, 'z) node_scheme option \<Rightarrow> bool" where
  "stays bl J I m \<longleftrightarrow> (\<exists>st'. m = Some st' \<and> good bl J I st')"

text \<open>A subscription is cancelled at most once; every other input is possible at any time.\<close>

definition valid_event :: "('s, 'b, 'z) node_scheme \<Rightarrow> loop_event \<Rightarrow> bool" where
  "valid_event st ev \<longleftrightarrow>
     (\<forall>i. ev = CancelSub i \<longrightarrow> (\<exists>sub. mget (n_subs st) i = Some sub \<and> \<not> s_cancelled sub))"

text \<open>The messages an input gives to the loop.\<close>

definition given :: "loop_event \<Rightarrow> pb_Message set" where
  "given ev = (case ev of Incoming rpc \<Rightarrow> set (r_Publish rpc) | PublishMsg m \<Rightarrow> {m} | _ \<Rightarrow> {})"

lemma given_simps [simp]: "given (Incoming rpc) = set (r_Publish rpc)" "given (PublishMsg m) = {m}"
  by (simp_all add: given_def)

lemma stays_Some [simp]: "stays bl J I (Some st) \<longleftrightarrow> good bl J I st"
  by (simp add: stays_def)

lemma stays_bind: "stays bl J I m \<Longrightarrow> (\<And>s. good bl J I s \<Longrightarrow> stays bl J I (f s)) \<Longrightarrow> stays bl J I (Option.bind m f)"
  by (auto simp: stays_def)

lemma stays_foldM: "(\<And>x s. x \<in> set xs \<Longrightarrow> good bl J I s \<Longrightarrow> stays bl J I (f x s)) \<Longrightarrow> good bl J I st \<Longrightarrow> stays bl J I (foldM f xs st)"
  by (induction xs arbitrary: st) (auto intro: stays_bind)

lemma good_fold: "(\<And>x s. good bl J I s \<Longrightarrow> good bl J I (f x s)) \<Longrightarrow> good bl J I st \<Longrightarrow> good bl J I (fold f xs st)"
  by (induction xs arbitrary: st) auto

lemma good_peers_ok: "good bl J I st \<Longrightarrow> peers_ok st"
  by (simp add: good_def node_inv_def)

lemma mdel_mput: "mdel k (mput k v m) = mdel k m"
  by transfer (rule AList.delete_update_same)

locale pubsub_offered = router rt rt_inv + blacklist bl + pipeline tc J adm
  for rt :: "('s, 'b, 'z) router_methods" and rt_inv and bl :: "'b blacklist_methods"
    and tc :: "'s seen_methods" and J and adm +
  fixes hb :: "('s, 'b, 'z) node_scheme \<Rightarrow> ('s, 'b, 'z) node_scheme option"
  assumes heartbeat: "rt_inv st \<Longrightarrow> peers_ok st \<Longrightarrow> keeps_frame rt_inv st (hb st)"
begin

lemma good_inv: "good bl J rt_inv st \<Longrightarrow> node_inv bl J st" "good bl J rt_inv st \<Longrightarrow> rt_inv st"
  by (simp_all add: good_def)

lemma good_step:
  assumes "good bl J rt_inv st" "node_inv bl J st \<Longrightarrow> node_inv bl J st'" "node.more st' = node.more st"
  shows "good bl J rt_inv st'"
  using assms inv_own by (auto simp: good_def)

lemma stays_router: "good bl J rt_inv st \<Longrightarrow> keeps_frame rt_inv st m \<Longrightarrow> stays bl J rt_inv m"
  by (auto simp: keeps_frame_def stays_def good_def intro: node_inv_frame)

lemma good_frame: "good bl J rt_inv st \<Longrightarrow> router_frame st st' \<and> rt_inv st' \<Longrightarrow> good bl J rt_inv st'"
  by (auto simp: good_def intro: node_inv_frame)

lemma good_subs: assumes "good bl J rt_inv st" "same_but_subs st st'" shows "good bl J rt_inv st'"
  using assms(1) by (rule good_step) (use assms(2) same_but_subs_inv same_but_subs_more in auto)

lemma good_queue: assumes "good bl J rt_inv st" "queue_frame st st'" shows "good bl J rt_inv st'"
  using assms(1) by (rule good_step) (use assms(2) queue_frame_inv queue_frame_more in auto)

lemma publishMessage_stays:
  assumes "good bl J rt_inv (st\<lparr>n_published := n_published st @ [msg]\<rparr>)"
  shows "stays bl J rt_inv (publishMessage rt src msg st)"
proof -
  let ?st = "st\<lparr>n_published := n_published st @ [msg]\<rparr>"
  obtain s where s: "notifySubs msg ?st = Some s" "same_but_subs ?st s"
    using notifySubs_ok [of ?st msg] assms by (auto simp: good_def node_inv_def)
  have g: "good bl J rt_inv s" using assms s(2) by (rule good_subs)
  have "keeps_frame rt_inv s (rt_Publish rt src msg s)"
    by (rule publish [OF good_inv(2) [OF g] good_peers_ok [OF g]])
  with g show ?thesis using stays_router by (simp add: publishMessage_def s(1))
qed

text \<open>A change of the pipeline's state that keeps its invariant.\<close>

lemma good_pipe:
  assumes "good bl J rt_inv st" "J (pipe_of st) \<Longrightarrow> J (pipe_of st')"
    and "n_peers st' = n_peers st" "n_blacklist st' = n_blacklist st" "n_subs st' = n_subs st"
      "n_myTopics st' = n_myTopics st" "node.more st' = node.more st"
  shows "good bl J rt_inv st'"
  by (rule good_step [OF assms(1) _ assms(7)])
    (use assms(2-6) in \<open>auto simp: node_inv_def peers_ok_def no_blacklisted_def\<close>)

lemma pushMsg_stays:
  assumes g: "good bl J rt_inv st" and adm: "adm msg" shows "stays bl J rt_inv (pushMsg rt bl tc src msg st)"
proof -
  have J: "J (pipe_of st)" using g by (simp add: good_def node_inv_def)
  show ?thesis
  proof (cases "n_signStrict st \<and> m_Signature msg = None")
    case True
    then show ?thesis using g by (simp add: pushMsg_def)
  next
    case False
    then have signed: "pi_strict (pipe_of st) \<longrightarrow> m_Signature msg \<noteq> None" by simp
    obtain ok v where v: "Push src msg (n_val st) = Some (ok, v)" "J ((pipe_of st)\<lparr>pi_val := v\<rparr>)"
      using offer [OF J signed adm, of src] by auto
    have 1: "good bl J rt_inv (st\<lparr>n_val := v\<rparr>)" by (rule good_pipe [OF g]) (use v(2) in auto)
    let ?s = "st\<lparr>n_val := v, n_seen := tc_Add tc (msgID msg) (n_seen st)\<rparr>"
    have "stays bl J rt_inv (publishMessage rt src msg ?s)" if "\<not> tc_Has tc (n_seen st) (msgID msg)" "ok"
    proof (rule publishMessage_stays, rule good_pipe [OF g])
      have "v = n_val st" using v(1) that(2) by (auto simp: Push_def Let_def split: if_splits option.splits sent.splits)
      then have "J ((pipe_of st)\<lparr>pi_val := v, pi_seen := tc_Add tc (msgID msg) (n_seen st),
          pi_published := n_published st @ [msg]\<rparr>)"
        using publish_fresh [OF v(2), of msg src] that signed adm v(1) by simp
      then show "J (pipe_of (?s\<lparr>n_published := n_published ?s @ [msg]\<rparr>))" by simp
    qed simp_all
    then show ?thesis
      using g 1 by (auto simp: pushMsg_def Let_def v(1) markSeen_def seenMessage_def)
  qed
qed

lemma topics_good: assumes "good bl J rt_inv st" shows "good bl J rt_inv (st\<lparr>n_topics := T\<rparr>)"
  using assms by (rule good_step) (auto simp: node_inv_def peers_ok_def no_blacklisted_def)

lemma notify_good: "good bl J rt_inv st \<Longrightarrow> good bl J rt_inv (notify_topic t evt st)"
  using good_subs notify_topic_same by blast

lemma handle_subopt_good: "good bl J rt_inv st \<Longrightarrow> good bl J rt_inv (handle_subopt src so st)"
  by (auto simp: handle_subopt_def Let_def notifyLeave_def topics_good notify_good split: option.split)

lemma handleIncomingRPC_stays:
  assumes "good bl J rt_inv st" "\<forall>m \<in> set (r_Publish rpc). adm m"
  shows "stays bl J rt_inv (handleIncomingRPC rt bl tc rpc st)"
  unfolding handleIncomingRPC_def Let_def
proof (rule stays_bind)
  show "stays bl J rt_inv (foldM (\<lambda>pmsg st. if \<not> subscribedToMsg pmsg st then Some st
      else pushMsg rt bl tc (r_from rpc) pmsg st) (r_Publish rpc) (fold (handle_subopt (r_from rpc)) (r_Subscriptions rpc) st))"
    using assms by (intro stays_foldM good_fold) (auto simp: pushMsg_stays handle_subopt_good)
  show "stays bl J rt_inv (rt_HandleRPC rt rpc s)" if "good bl J rt_inv s" for s
    using that handle_rpc [OF good_inv(2) good_peers_ok] by (rule stays_router) (use that in auto)
qed

lemma drop_peer_good:
  assumes g: "good bl J rt_inv st" shows "good bl J rt_inv (drop_peer rt p st)"
proof -
  have "good bl J rt_inv (st\<lparr>n_peers := mdel p (n_peers st)\<rparr>)"
    using g by (rule good_step) (auto simp: node_inv_def peers_ok_def no_blacklisted_def)
  then have "good bl J rt_inv (fold (leave_topic p) ts (st\<lparr>n_peers := mdel p (n_peers st)\<rparr>))" for ts
    by (intro good_fold) (auto simp: leave_topic_def Let_def notifyLeave_def topics_good notify_good)
  then show ?thesis
    unfolding drop_peer_def Let_def using good_frame remove_peer good_inv(2) by blast
qed

lemma spawn_writer_good:
  assumes "good bl J rt_inv st" "\<not> bl_Contains bl (n_blacklist st) p"
  shows "good bl J rt_inv (spawn_writer p st)"
  using assms(1)
  by (rule good_step)
    (use assms(2) in \<open>auto simp: spawn_writer_def getHelloPacket_def range_over_def node_inv_def peers_ok_def
      no_blacklisted_def Let_def lookup_update chan_ok_def make_chan_def split: prod.splits\<close>)

lemma add_peer_good: "good bl J rt_inv st \<Longrightarrow> good bl J rt_inv (rt_AddPeer rt p proto st)"
  using good_frame add_peer good_inv(2) by blast

lemma close_open: "good bl J rt_inv st \<Longrightarrow> mget (n_peers st) p = Some ch \<Longrightarrow> \<exists>ch'. chan_close ch = Some ch'"
  using good_peers_ok by (fastforce simp: peers_ok_def chan_ok_def chan_close_def)

lemma onPeerDead_stays: "good bl J rt_inv st \<Longrightarrow> stays bl J rt_inv (onPeerDead rt p c st)"
proof (cases "mget (n_peers st) p")
  case (Some ch)
  assume g: "good bl J rt_inv st"
  then have "\<not> bl_Contains bl (n_blacklist st) p"
    using Some by (auto simp: good_def node_inv_def no_blacklisted_def)
  then show ?thesis
    using close_open [OF g Some] Some g by (auto simp: onPeerDead_def spawn_writer_good drop_peer_good)
qed (simp add: onPeerDead_def)

lemma connected_not_blacklisted:
  "good bl J rt_inv st \<Longrightarrow> mget (n_peers st) p = Some ch \<Longrightarrow> \<not> bl_Contains bl (n_blacklist st) p"
  by (auto simp: good_def node_inv_def no_blacklisted_def)

lemma onNewPeerStream_stays: "good bl J rt_inv st \<Longrightarrow> stays bl J rt_inv (onNewPeerStream rt bl p proto st)"
  using connected_not_blacklisted [of st p] add_peer_good by (simp add: onNewPeerStream_def split: option.split)

lemma onBlacklistPeer_stays:
  assumes "good bl J rt_inv st" shows "stays bl J rt_inv (onBlacklistPeer rt bl p st)"
proof (cases "mget (n_peers st) p")
  case None
  then have "p \<notin> mdom (n_peers st)" by (simp add: mem_mdom)
  then have "good bl J rt_inv (st\<lparr>n_blacklist := bl_Add bl p (n_blacklist st)\<rparr>)"
    by (intro good_step [OF assms])
      (auto simp: node_inv_def peers_ok_def no_blacklisted_def dest: contains_only)
  with None show ?thesis by (simp add: onBlacklistPeer_def)
next
  case (Some ch)
  let ?s = "st\<lparr>n_blacklist := bl_Add bl p (n_blacklist st), n_peers := mdel p (n_peers st)\<rparr>"
  have "good bl J rt_inv ?s"
    by (intro good_step [OF assms]) (auto simp: node_inv_def peers_ok_def no_blacklisted_def dest: contains_only)
  then have "good bl J rt_inv (drop_peer rt p ?s)" by (rule drop_peer_good)
  moreover have "drop_peer rt p ?s = drop_peer rt p (st\<lparr>n_blacklist := bl_Add bl p (n_blacklist st)\<rparr>)"
    by (simp add: drop_peer_def mdel_none)
  ultimately show ?thesis
    using close_open [OF assms Some] Some by (auto simp: onBlacklistPeer_def)
qed

lemma announce_stays: "good bl J rt_inv st \<Longrightarrow> stays bl J rt_inv (announce t b st)"
  using announce_ok [OF good_peers_ok, of bl J rt_inv st t b] good_queue by (auto simp: stays_def)

lemma handleAddSubscription_stays:
  assumes "good bl J rt_inv st"
  shows "stays bl J rt_inv (map_option snd (handleAddSubscription rt (newSubscription t) st))"
proof -
  have g1: "stays bl J rt_inv (if mlen (mget0 (n_myTopics st) t) = 0
      then do { st \<leftarrow> announce t True st; rt_Join rt t st } else Some st)"
    using assms join [OF good_inv(2) good_peers_ok] by (auto intro!: stays_bind announce_stays intro: stays_router)
  then obtain s where s: "(if mlen (mget0 (n_myTopics st) t) = 0
      then do { st \<leftarrow> announce t True st; rt_Join rt t st } else Some st) = Some s" "good bl J rt_inv s"
    by (auto simp: stays_def)
  let ?sub = "newSubscription t\<lparr>s_evtLog := fold (\<lambda>p. mput p PeerJoin) (mkeys (mget0 (n_topics s) t)) (s_evtLog (newSubscription t))\<rparr>"
  let ?s = "s\<lparr>n_subs := mput (mlen (n_subs s)) ?sub (n_subs s),
              n_myTopics := mput t (mput (mlen (n_subs s)) () (mget0 (n_myTopics s) t)) (n_myTopics s)\<rparr>"
  have "sub_ok True ?sub" by (simp add: sub_ok_def newSubscription_def make_chan_def)
  then have "subs_ok (n_subs ?s) (n_myTopics ?s)" if "subs_ok (n_subs s) (n_myTopics s)"
    using subs_ok_add [OF that, of ?sub t] by (simp add: newSubscription_def)
  then have "good bl J rt_inv ?s"
    by (intro good_step [OF s(2)]) (auto simp: node_inv_def peers_ok_def no_blacklisted_def)
  then show ?thesis
    using s(1) by (simp add: handleAddSubscription_def Let_def newSubscription_def)
qed

lemma handleRemoveSubscription_stays:
  assumes g: "good bl J rt_inv st" and i: "mget (n_subs st) i = Some sub" "\<not> s_cancelled sub"
  shows "stays bl J rt_inv (handleRemoveSubscription rt i st)"
proof -
  let ?t = "s_topic sub"
  have ok: "subs_ok (n_subs st) (n_myTopics st)" using g by (simp add: good_def node_inv_def)
  have live: "i \<in> mdom (mget0 (n_myTopics st) ?t)" "sub_ok True sub"
    using subs_okD(2) [OF ok i(1)] i(2) by (auto simp: sub_ok_def)
  then obtain ss where ss: "mget (n_myTopics st) ?t = Some ss" "i \<in> mdom ss"
    by (cases "mget (n_myTopics st) ?t") auto
  let ?sub = "sub\<lparr>s_cancelled := True, s_ch := (s_ch sub)\<lparr>ch_closed := True\<rparr>\<rparr>"
  have close: "close_sub (sub\<lparr>s_cancelled := True\<rparr>) = Some ?sub"
    using live(2) by (simp add: close_sub_def chan_close_def sub_ok_def)
  have "sub_ok False ?sub" using live(2) by (simp add: sub_ok_def)
  then have rem: "subs_ok (mput i ?sub (n_subs st))
      (if mlen (mdel i ss) = 0 then mdel ?t (n_myTopics st) else mput ?t (mdel i ss) (n_myTopics st))"
    by (intro subs_ok_remove [OF ok ss]) simp_all
  show ?thesis
  proof (cases "mlen (mdel i ss) = 0")
    case False
    let ?s = "st\<lparr>n_subs := mput i ?sub (n_subs st), n_myTopics := mput ?t (mdel i ss) (n_myTopics st)\<rparr>"
    have "good bl J rt_inv ?s"
      by (intro good_step [OF g]) (use rem False in \<open>auto simp: node_inv_def peers_ok_def no_blacklisted_def\<close>)
    then show ?thesis using False i(1) ss(1) by (simp add: handleRemoveSubscription_def Let_def close)
  next
    case True
    let ?s = "st\<lparr>n_subs := mput i ?sub (n_subs st), n_myTopics := mdel ?t (n_myTopics st)\<rparr>"
    have "good bl J rt_inv ?s"
      by (intro good_step [OF g]) (use rem True in \<open>auto simp: node_inv_def peers_ok_def no_blacklisted_def\<close>)
    then have "stays bl J rt_inv (do { st \<leftarrow> announce ?t False ?s; rt_Leave rt ?t st })"
      using leave [OF good_inv(2) good_peers_ok] by (auto intro!: stays_bind announce_stays intro: stays_router)
    moreover have "mdel ?t (mput ?t (mdel i ss) (n_myTopics st)) = mdel ?t (n_myTopics st)"
      by (rule mdel_mput)
    ultimately show ?thesis using True i(1) ss(1) by (simp add: handleRemoveSubscription_def Let_def close)
  qed
qed

lemma onSendMsg_stays:
  assumes g: "good bl J rt_inv st" shows "stays bl J rt_inv (onSendMsg rt st)"
proof (cases "ch_buf (n_sendMsg st)")
  case (Cons req reqs)
  let ?s = "st\<lparr>n_sendMsg := (n_sendMsg st)\<lparr>ch_buf := reqs\<rparr>\<rparr>"
  have "good bl J rt_inv (?s\<lparr>n_published := n_published ?s @ [sr_msg req]\<rparr>)"
    by (rule good_pipe [OF g]) (use publish_validated [of "pipe_of st" req reqs] Cons in auto)
  then have "stays bl J rt_inv (publishMessage rt (sr_from req) (sr_msg req) ?s)" by (rule publishMessage_stays)
  with Cons show ?thesis by (simp add: onSendMsg_def)
qed (simp add: onSendMsg_def g)

lemma loop_turn_stays:
  assumes g: "good bl J rt_inv st" and v: "valid_event st ev" and offered: "\<forall>m \<in> given ev. adm m"
  shows "stays bl J rt_inv (loop_turn rt bl tc hb ev st)"
proof (cases ev)
  case (NewPeer p)
  then show ?thesis using g by (simp add: loop_turn_def onNewPeers_def spawn_writer_good)
next
  case (NewPeerError p)
  have "good bl J rt_inv (st\<lparr>n_peers := mdel p (n_peers st)\<rparr>)"
    using g by (rule good_step) (auto simp: node_inv_def peers_ok_def no_blacklisted_def)
  with NewPeerError show ?thesis by (simp add: loop_turn_def onNewPeerError_def)
next
  case GetTopics
  have "good bl J rt_inv (snd (range_over ks st))" for ks :: "topic list"
    using good_queue [OF g range_over_queue_frame] by (metis prod.collapse)
  with GetTopics show ?thesis by (simp add: loop_turn_def onGetTopics_def)
next
  case (GetPeers t)
  have "good bl J rt_inv (snd (range_over ks st))" for ks :: "peer list"
    using good_queue [OF g range_over_queue_frame] by (metis prod.collapse)
  with GetPeers g show ?thesis by (auto simp: loop_turn_def onGetPeers_def split: prod.split) (metis snd_conv)
next
  case (AddVal req)
  have "good bl J rt_inv (st\<lparr>n_val := snd (AddValidator req (n_val st))\<rparr>)"
    by (rule good_pipe [OF g]) (use register [of "pipe_of st" req] in auto)
  with AddVal show ?thesis by (simp add: loop_turn_def onAddVal_def case_prod_unfold Let_def)
next
  case (RmVal t)
  have "good bl J rt_inv (st\<lparr>n_val := snd (RemoveValidator t (n_val st))\<rparr>)"
    by (rule good_pipe [OF g]) (use remove [of "pipe_of st" t] in auto)
  with RmVal show ?thesis by (simp add: loop_turn_def onRmVal_def case_prod_unfold Let_def)
next
  case (EvalRetry k)
  obtain p t b where r: "n_retries st ! k = (p, t, b)" by (metis prod_cases3)
  let ?s = "st\<lparr>n_retries := take k (n_retries st) @ drop (Suc k) (n_retries st)\<rparr>"
  have s: "good bl J rt_inv ?s"
    using g by (rule good_step) (auto simp: node_inv_def peers_ok_def no_blacklisted_def)
  then have "stays bl J rt_inv (announceRetry p t b ?s)"
    using announceRetry_ok [OF good_peers_ok [OF s], of p t b] good_queue by (auto simp: stays_def)
  with EvalRetry r g show ?thesis by (simp add: loop_turn_def)
next
  case EvalHeartbeat
  then show ?thesis
    using stays_router [OF g heartbeat [OF good_inv(2) [OF g] good_peers_ok [OF g]]] by (simp add: loop_turn_def)
next
  case (CancelSub i)
  then show ?thesis using g v handleRemoveSubscription_stays by (auto simp: loop_turn_def valid_event_def)
qed (use g offered in \<open>simp_all add: loop_turn_def onNewPeerStream_stays onPeerDead_stays handleAddSubscription_stays
    handleIncomingRPC_stays pushMsg_stays onSendMsg_stays onBlacklistPeer_stays\<close>)

end

text \<open>The usual contract: nothing is asked of the messages.\<close>

locale pubsub = pubsub_offered rt rt_inv bl tc J "\<lambda>_. True" hb
  for rt :: "('s, 'b, 'z) router_methods" and rt_inv and bl :: "'b blacklist_methods"
    and tc :: "'s seen_methods" and J and hb

end
