(* ===== verification/PipelineInv.thy ===== *)
theory PipelineInv
  imports Pipeline
begin

text \<open>
  The invariant of the validation pipeline, \<open>pipe_ok\<close>: the registry is well formed, and every throttle
  counts exactly the goroutines that hold one of its tokens, so the bounds of \<open>validation.go\<close> on
  concurrent validations hold and no token is lost.
\<close>

section \<open>Tokens\<close>

definition held_of :: "asyncVal \<Rightarrow> nat list" where
  "held_of a = (case as_held a of None \<Rightarrow> [] | Some (held, ok) \<Rightarrow> held)"

definition held_count :: "asyncVal list \<Rightarrow> nat \<Rightarrow> nat" where
  "held_count as r = sum_list (map (\<lambda>a. count_list (held_of a) r) as)"

definition async_ok :: "nat \<Rightarrow> asyncVal \<Rightarrow> bool" where
  "async_ok n a \<longleftrightarrow> (\<forall>r \<in> set (as_vals a). r < n) \<and> set (held_of a) \<subseteq> set (as_vals a)"

definition tokens_ok :: "topicVal list \<Rightarrow> asyncVal list \<Rightarrow> bool" where
  "tokens_ok heap as \<longleftrightarrow>
     (\<forall>a \<in> set as. async_ok (length heap) a) \<and>
     (\<forall>r < length heap. th_used (tv_throttle (heap ! r)) = held_count as r)"

definition pipe_ok :: "'s pipe \<Rightarrow> bool" where
  "pipe_ok p \<longleftrightarrow> val_inv (pi_val p) \<and> chan_ok (pi_sendMsg p) \<and>
     th_used (v_throttle (pi_val p)) = length (pi_async p) + length (filter snd (pi_waiting p)) \<and>
     tokens_ok (v_heap (pi_val p)) (pi_async p)"

text \<open>Two heaps whose validators differ in nothing but tokens in use.\<close>

definition heap_like :: "topicVal list \<Rightarrow> topicVal list \<Rightarrow> bool" where
  "heap_like h h' \<longleftrightarrow> length h' = length h \<and>
     (\<forall>r < length h. \<exists>u. h' ! r = (h ! r)\<lparr>tv_throttle := (tv_throttle (h ! r))\<lparr>th_used := u\<rparr>\<rparr>)"

lemma heap_like_refl [simp]: "heap_like h h"
proof -
  have "x = x\<lparr>tv_throttle := (tv_throttle x)\<lparr>th_used := th_used (tv_throttle x)\<rparr>\<rparr>" for x by simp
  then show ?thesis unfolding heap_like_def by blast
qed

lemma heap_like_trans: "heap_like h h1 \<Longrightarrow> heap_like h1 h2 \<Longrightarrow> heap_like h h2"
  by (fastforce simp: heap_like_def)

lemma heap_like_set:
  "r < length h \<Longrightarrow> heap_like h (h[r := (h ! r)\<lparr>tv_throttle := (tv_throttle (h ! r))\<lparr>th_used := u\<rparr>\<rparr>])"
proof -
  assume r: "r < length h"
  have "\<exists>u'. h[r := (h ! r)\<lparr>tv_throttle := (tv_throttle (h ! r))\<lparr>th_used := u\<rparr>\<rparr>] ! i =
      (h ! i)\<lparr>tv_throttle := (tv_throttle (h ! i))\<lparr>th_used := u'\<rparr>\<rparr>" if "i < length h" for i
  proof (cases "i = r")
    case True
    then show ?thesis using that by auto
  next
    case False
    then have "h[r := (h ! r)\<lparr>tv_throttle := (tv_throttle (h ! r))\<lparr>th_used := u\<rparr>\<rparr>] ! i =
      (h ! i)\<lparr>tv_throttle := (tv_throttle (h ! i))\<lparr>th_used := th_used (tv_throttle (h ! i))\<rparr>\<rparr>" by simp
    then show ?thesis by blast
  qed
  then show ?thesis by (simp add: heap_like_def)
qed

lemma heap_like_sel:
  assumes "heap_like h h'"
  shows "length h' = length h"
    "r < length h \<Longrightarrow> tv_topic (h' ! r) = tv_topic (h ! r)"
    "r < length h \<Longrightarrow> tv_inline (h' ! r) = tv_inline (h ! r)"
    "r < length h \<Longrightarrow> th_cap (tv_throttle (h' ! r)) = th_cap (tv_throttle (h ! r))"
    "r < length h \<Longrightarrow> validateMsg (h' ! r) src msg = validateMsg (h ! r) src msg"
proof -
  show "length h' = length h" using assms by (simp add: heap_like_def)
  have "\<exists>u. h' ! r = (h ! r)\<lparr>tv_throttle := (tv_throttle (h ! r))\<lparr>th_used := u\<rparr>\<rparr>" if "r < length h"
    using assms that by (simp add: heap_like_def)
  then show "r < length h \<Longrightarrow> tv_topic (h' ! r) = tv_topic (h ! r)"
    "r < length h \<Longrightarrow> tv_inline (h' ! r) = tv_inline (h ! r)"
    "r < length h \<Longrightarrow> th_cap (tv_throttle (h' ! r)) = th_cap (tv_throttle (h ! r))"
    "r < length h \<Longrightarrow> validateMsg (h' ! r) src msg = validateMsg (h ! r) src msg"
    by (force simp: validateMsg_def)+
qed

lemma acquire_vals_spec:
  assumes "acquire_vals rs h = (held, ok, h')" "\<forall>r \<in> set rs. r < length h"
    "\<forall>r < length h. throttle_ok (tv_throttle (h ! r))"
  shows "heap_like h h' \<and> set held \<subseteq> set rs \<and> (ok \<longleftrightarrow> held = rs) \<and>
    (\<forall>r < length h. th_used (tv_throttle (h' ! r)) = th_used (tv_throttle (h ! r)) + count_list held r \<and>
                    throttle_ok (tv_throttle (h' ! r)))"
  using assms
proof (induction rs arbitrary: h held ok h')
  case (Cons r rs)
  have r: "r < length h" using Cons.prems(2) by simp
  show ?case
  proof (cases "acquire (tv_throttle (h ! r))")
    case None
    with Cons.prems show ?thesis by auto
  next
    case (Some t)
    then have t: "t = (tv_throttle (h ! r))\<lparr>th_used := Suc (th_used (tv_throttle (h ! r)))\<rparr>" "th_used t \<le> th_cap t"
      by (auto simp: acquire_def split: if_splits)
    let ?h = "h[r := (h ! r)\<lparr>tv_throttle := t\<rparr>]"
    obtain held1 ok1 h1 where a: "acquire_vals rs ?h = (held1, ok1, h1)" by (metis prod_cases3)
    have eq: "held = r # held1" "ok = ok1" "h' = h1" using Cons.prems(1) Some a by auto
    have "\<forall>i < length ?h. throttle_ok (tv_throttle (?h ! i))"
      using Cons.prems(3) t(2) r by (auto simp: nth_list_update throttle_ok_def)
    with Cons.IH [OF a] Cons.prems(2) have IH: "heap_like ?h h1" "set held1 \<subseteq> set rs" "ok1 \<longleftrightarrow> held1 = rs"
      "\<And>i. i < length h \<Longrightarrow> th_used (tv_throttle (h1 ! i)) = th_used (tv_throttle (?h ! i)) + count_list held1 i \<and>
         throttle_ok (tv_throttle (h1 ! i))" by auto
    have "heap_like h ?h" unfolding t(1) by (rule heap_like_set [OF r])
    then have "heap_like h h1" using IH(1) by (rule heap_like_trans)
    moreover have "th_used (tv_throttle (h1 ! i)) = th_used (tv_throttle (h ! i)) + count_list (r # held1) i"
      if "i < length h" for i using IH(4) [OF that] r that by (auto simp: nth_list_update t(1))
    ultimately show ?thesis using IH by (auto simp: eq)
  qed
qed auto

lemma release_vals_spec:
  assumes "\<forall>r \<in> set held. r < length h"
  shows "heap_like h (release_vals held h) \<and>
    (\<forall>r < length h. th_used (tv_throttle (release_vals held h ! r)) = th_used (tv_throttle (h ! r)) - count_list held r)"
  using assms
proof (induction held arbitrary: h)
  case (Cons r held)
  let ?h = "h[r := (h ! r)\<lparr>tv_throttle := release (tv_throttle (h ! r))\<rparr>]"
  have r: "r < length h" using Cons.prems by simp
  have like: "heap_like h ?h" unfolding release_def by (rule heap_like_set [OF r])
  have IH: "heap_like ?h (release_vals held ?h)"
    "\<And>i. i < length h \<Longrightarrow> th_used (tv_throttle (release_vals held ?h ! i)) = th_used (tv_throttle (?h ! i)) - count_list held i"
    using Cons.IH [of ?h] Cons.prems by auto
  have "release_vals (r # held) h = release_vals held ?h" by (simp add: release_vals_def)
  moreover have "th_used (tv_throttle (?h ! i)) - count_list held i = th_used (tv_throttle (h ! i)) - count_list (r # held) i"
    if "i < length h" for i using r that by (auto simp: nth_list_update release_def)
  ultimately show ?case using IH heap_like_trans [OF like IH(1)] by simp
qed (simp add: release_vals_def)

text \<open>A well-formed registry stays so when only tokens change within the capacities.\<close>

lemma val_inv_heap:
  assumes "val_inv v" "heap_like (v_heap v) h" "\<forall>r < length h. throttle_ok (tv_throttle (h ! r))"
  shows "val_inv (v\<lparr>v_heap := h\<rparr>)"
proof -
  note l = heap_like_sel [OF assms(2)]
  have "0 < th_cap (tv_throttle tv) \<and> throttle_ok (tv_throttle tv)" if "tv \<in> set h" for tv
  proof -
    obtain r where "r < length h" "tv = h ! r" using \<open>tv \<in> set h\<close> by (metis in_set_conv_nth)
    then show ?thesis using assms(1,3) l(1) l(4) [of r] by (auto simp: val_inv_def)
  qed
  moreover have "r < length h \<and> tv_topic (h ! r) = t" if "mget (v_topicVals v) t = Some r" for t r
    using assms(1) that l(1) l(2) [of r] by (auto simp: val_inv_def)
  moreover have "r < length h \<and> tv_topic (h ! r) \<in> set (m_TopicIDs (vr_msg req))"
    if "req \<in> set (ch_buf (v_validateQ v))" "r \<in> set (vr_vals req)" for req r
    using assms(1) that l(1) l(2) [of r] by (auto simp: val_inv_def)
  ultimately show ?thesis using assms(1) by (simp add: val_inv_def)
qed

section \<open>The loop's moves keep the pipeline's invariant\<close>

lemma held_count_snoc [simp]: "held_count (as @ [a]) r = held_count as r + count_list (held_of a) r"
  by (simp add: held_count_def)

lemma held_count_out: "\<forall>a \<in> set as. async_ok n a \<Longrightarrow> n \<le> r \<Longrightarrow> held_count as r = 0"
proof (induction as)
  case (Cons a as)
  then have "r \<notin> set (held_of a)" by (fastforce simp: async_ok_def)
  with Cons show ?case by (simp add: held_count_def count_list_0_iff)
qed (simp add: held_count_def)

lemma Push_val:
  "Push src msg v = Some (ok, v') \<Longrightarrow> (\<exists>q. v' = v\<lparr>v_validateQ := q\<rparr>)"
proof -
  have same: "\<exists>q. v = v\<lparr>v_validateQ := q\<rparr>" by (rule exI [of _ "v_validateQ v"]) simp
  assume "Push src msg v = Some (ok, v')"
  then have "v' = v \<or> (\<exists>q. v' = v\<lparr>v_validateQ := q\<rparr>)"
    by (auto simp: Push_def Let_def split: if_splits option.splits sent.splits)
  with same show ?thesis by blast
qed

lemma pipe_ok_offer:
  assumes "pipe_ok p" shows "\<exists>ok v. Push src msg (pi_val p) = Some (ok, v) \<and> pipe_ok (p\<lparr>pi_val := v\<rparr>)"
proof -
  obtain ok v where v: "Push src msg (pi_val p) = Some (ok, v)" "val_inv v"
    using val_inv_push [of "pi_val p" src msg] assms by (auto simp: pipe_ok_def)
  obtain q where "v = (pi_val p)\<lparr>v_validateQ := q\<rparr>" using Push_val [OF v(1)] by blast
  with v assms show ?thesis by (auto simp: pipe_ok_def)
qed

lemma AddValidator_heap:
  "AddValidator r v = (resp, v') \<Longrightarrow> v_throttle v' = v_throttle v \<and> v_validateQ v' = v_validateQ v \<and>
     (v_heap v' = v_heap v \<or> (\<exists>x. v_heap v' = v_heap v @ [x] \<and> th_used (tv_throttle x) = 0))"
  by (auto simp: AddValidator_def Let_def split: if_splits)

lemma pipe_ok_register:
  assumes "pipe_ok p" shows "pipe_ok (p\<lparr>pi_val := snd (AddValidator r (pi_val p))\<rparr>)"
proof -
  obtain resp v where a: "AddValidator r (pi_val p) = (resp, v)" by force
  have inv: "val_inv v" using val_inv_add [OF _ a] assms by (simp add: pipe_ok_def)
  note h = AddValidator_heap [OF a]
  have "tokens_ok (v_heap v) (pi_async p)"
  proof (cases "v_heap v = v_heap (pi_val p)")
    case True
    then show ?thesis using assms by (simp add: pipe_ok_def)
  next
    case False
    then obtain x where x: "v_heap v = v_heap (pi_val p) @ [x]" "th_used (tv_throttle x) = 0" using h by blast
    have t: "tokens_ok (v_heap (pi_val p)) (pi_async p)" using assms by (simp add: pipe_ok_def)
    have "held_count (pi_async p) (length (v_heap (pi_val p))) = 0"
      using t held_count_out by (force simp: tokens_ok_def)
    then show ?thesis using t x by (auto simp: tokens_ok_def async_ok_def nth_append less_Suc_eq)
  qed
  with inv h assms show ?thesis by (simp add: a pipe_ok_def)
qed

lemma pipe_ok_remove:
  assumes "pipe_ok p" shows "pipe_ok (p\<lparr>pi_val := snd (RemoveValidator t (pi_val p))\<rparr>)"
proof -
  obtain resp v where a: "RemoveValidator t (pi_val p) = (resp, v)" by force
  have "val_inv v" using val_inv_remove [OF _ a] assms by (simp add: pipe_ok_def)
  moreover have "v_heap v = v_heap (pi_val p)" "v_throttle v = v_throttle (pi_val p)"
    using a by (auto simp: RemoveValidator_def split: if_splits)
  ultimately show ?thesis using assms by (simp add: a pipe_ok_def)
qed

interpretation pipe_inv: pipeline tc pipe_ok adm for tc adm
proof unfold_locales
  show "pipe_ok (p\<lparr>pi_sendMsg := (pi_sendMsg p)\<lparr>ch_buf := reqs\<rparr>, pi_published := pi_published p @ [sr_msg req]\<rparr>)"
    if "pipe_ok p" "ch_buf (pi_sendMsg p) = req # reqs" for p :: "'a pipe" and req reqs
    using that by (simp add: pipe_ok_def chan_ok_def)
  show "pipe_ok (p\<lparr>pi_seen := tc_Add tc (msgID msg) (pi_seen p), pi_published := pi_published p @ [msg]\<rparr>)"
    if "pipe_ok p" for p :: "'a pipe" and msg
    using that by (simp add: pipe_ok_def)
qed (auto intro: pipe_ok_offer pipe_ok_register pipe_ok_remove)

section \<open>The messages on the way\<close>

text \<open>The messages behind the workers: in the send queue, waiting for it, being validated.\<close>

definition under_way :: "'s pipe \<Rightarrow> pb_Message multiset" where
  "under_way p = mset (map sr_msg (ch_buf (pi_sendMsg p))) + mset (map (sr_msg \<circ> fst) (pi_waiting p)) +
     mset (map as_msg (pi_async p))"

section \<open>The goroutines keep it, too\<close>

text \<open>What a goroutine's move leaves alone: everything that is not the pipeline's.\<close>

definition outside_pipe :: "('s, 'b, 'z) node_scheme \<Rightarrow> ('s, 'b, 'z) node_scheme \<Rightarrow> bool" where
  "outside_pipe st st' \<longleftrightarrow>
     n_counter st' = n_counter st \<and> n_host st' = n_host st \<and> n_myTopics st' = n_myTopics st \<and>
     n_subs st' = n_subs st \<and> n_topics st' = n_topics st \<and> n_blacklist st' = n_blacklist st \<and>
     n_peers st' = n_peers st \<and> n_signKey st' = n_signKey st \<and> n_signID st' = n_signID st \<and>
     n_signStrict st' = n_signStrict st \<and> n_published st' = n_published st \<and> n_retries st' = n_retries st \<and>
     n_spawned st' = n_spawned st \<and> n_tags st' = n_tags st \<and> n_clock st' = n_clock st \<and>
     node.more st' = node.more st"

lemma validateWorker_outside: "validateWorker tc verify st = Some st' \<Longrightarrow> outside_pipe st st'"
  by (auto simp: validateWorker_def validate_def markSeen_def Let_def outside_pipe_def
      split: list.splits if_splits option.splits)

lemma begin_outside: "begin_validateTopic k st = Some st' \<Longrightarrow> outside_pipe st st'"
  by (auto simp: begin_validateTopic_def Let_def outside_pipe_def split: if_splits prod.splits)

lemma end_outside: "end_validateTopic k st = Some st' \<Longrightarrow> outside_pipe st st'"
  by (auto simp: end_validateTopic_def Let_def outside_pipe_def split: if_splits prod.splits option.splits)

lemma send_outside: "send_waiting k st = Some st' \<Longrightarrow> outside_pipe st st'"
  by (auto simp: send_waiting_def Let_def outside_pipe_def split: if_splits prod.splits)

text \<open>Taking the \<open>k\<close>-th element out of a list.\<close>

lemma mset_drop_nth: "k < length xs \<Longrightarrow> add_mset (xs ! k) (mset (drop_nth k xs)) = mset xs"
  by (metis add_mset_add_single append_take_drop_id drop_nth_def Cons_nth_drop_Suc mset.simps(2) mset_append
      union_mset_add_mset_right)

lemma set_drop_nth: "set (drop_nth k xs) \<subseteq> set xs"
  unfolding drop_nth_def by (auto dest: in_set_takeD in_set_dropD)

lemma length_drop_nth: "k < length xs \<Longrightarrow> length xs = Suc (length (drop_nth k xs))"
  by (simp add: drop_nth_def)

lemma map_drop_nth: "map f (drop_nth k xs) = drop_nth k (map f xs)"
  by (simp add: drop_nth_def take_map drop_map)

lemma sum_drop_nth:
  "k < length xs \<Longrightarrow> sum_list (map f xs) = f (xs ! k) + (sum_list (map f (drop_nth k xs)) :: nat)"
proof -
  assume "k < length xs"
  then have "sum_list (map f (take k xs @ xs ! k # drop (Suc k) xs)) = sum_list (map f xs)"
    by (simp add: id_take_nth_drop [symmetric])
  then show ?thesis by (simp add: drop_nth_def)
qed

lemma filter_drop_nth:
  "k < length xs \<Longrightarrow> length (filter P xs) = (if P (xs ! k) then 1 else 0) + length (filter P (drop_nth k xs))"
proof -
  assume "k < length xs"
  then have "length (filter P (take k xs @ xs ! k # drop (Suc k) xs)) = length (filter P xs)"
    by (simp add: id_take_nth_drop [symmetric])
  then show ?thesis by (simp add: drop_nth_def split: if_splits)
qed

lemma mset_map_drop_nth:
  "k < length xs \<Longrightarrow> mset (map f xs) = add_mset (f (xs ! k)) (mset (map f (drop_nth k xs)))"
  using mset_drop_nth [of k "map f xs"] by (simp add: map_drop_nth)

text \<open>The outcomes of \<open>validate\<close>.\<close>

lemma validate_cases:
  fixes st :: "('s, 'b, 'z) node_scheme" and tc :: "'s seen_methods"
    and verify :: "pb_Message \<Rightarrow> bool" and vals :: "nat list" and src :: peer and msg :: pb_Message
  defines "p \<equiv> pipe_of st" and "p' \<equiv> pipe_of (validate tc verify vals src msg st)"
  shows "p' = p \<or> \<not> tc_Has tc (pi_seen p) (msgID msg) \<and>
    (m_Signature msg \<noteq> None \<longrightarrow> verify msg) \<and>
    (p' = p\<lparr>pi_seen := tc_Add tc (msgID msg) (pi_seen p)\<rparr> \<or>
     (\<exists>t as. acquire (v_throttle (pi_val p)) = Some t \<and> set as \<subseteq> set vals \<and>
        p' = p\<lparr>pi_seen := tc_Add tc (msgID msg) (pi_seen p), pi_val := (pi_val p)\<lparr>v_throttle := t\<rparr>,
               pi_async := pi_async p @ [\<lparr>as_vals = as, as_src = src, as_msg = msg, as_held = None\<rparr>]\<rparr>) \<or>
     p' = p\<lparr>pi_seen := tc_Add tc (msgID msg) (pi_seen p),
            pi_waiting := pi_waiting p @ [(\<lparr>sr_from = src, sr_msg = msg\<rparr>, False)]\<rparr>)"
proof (cases "m_Signature msg \<noteq> None \<and> \<not> validateSignature verify msg \<or> tc_Has tc (n_seen st) (msgID msg)")
  case True
  then have "p' = p" unfolding p_def p'_def validate_def markSeen_def Let_def by auto
  then show ?thesis ..
next
  case False
  let ?heap = "v_heap (n_val st)"
  let ?in = "filter (\<lambda>r. tv_inline (?heap ! r)) vals" and ?as = "filter (\<lambda>r. \<not> tv_inline (?heap ! r)) vals"
  have sub: "set ?as \<subseteq> set vals" by auto
  have v: "validate tc verify vals src msg st =
      (let st = st\<lparr>n_seen := tc_Add tc (msgID msg) (n_seen st)\<rparr>
       in if \<not> list_all (\<lambda>r. validateMsg (?heap ! r) src msg) ?in then st
          else if length ?as > 0
          then (case acquire (v_throttle (n_val st)) of
                  Some t \<Rightarrow> st\<lparr>n_val := (n_val st)\<lparr>v_throttle := t\<rparr>,
                    n_async := n_async st @ [\<lparr>as_vals = ?as, as_src = src, as_msg = msg, as_held = None\<rparr>]\<rparr>
                | None \<Rightarrow> st)
          else st\<lparr>n_waiting := n_waiting st @ [(\<lparr>sr_from = src, sr_msg = msg\<rparr>, False)]\<rparr>)"
    using False unfolding validate_def markSeen_def Let_def by (auto split: option.split)
  have fresh: "\<not> tc_Has tc (pi_seen p) (msgID msg)" "m_Signature msg \<noteq> None \<longrightarrow> verify msg"
    using False by (auto simp: p_def validateSignature_def)
  show ?thesis
  proof (cases "list_all (\<lambda>r. validateMsg (?heap ! r) src msg) ?in")
    case False
    then show ?thesis using fresh unfolding p'_def v p_def by simp
  next
    case True
    note pass = True
    show ?thesis
    proof (cases "length ?as > 0")
      case False
      then show ?thesis using fresh pass unfolding p'_def v p_def by (simp add: Let_def)
    next
      case True
      show ?thesis
      proof (cases "acquire (v_throttle (n_val st))")
        case None
        then show ?thesis using fresh pass True unfolding p'_def v p_def by (simp add: Let_def)
      next
        case (Some t)
        then have "p' = p\<lparr>pi_seen := tc_Add tc (msgID msg) (pi_seen p), pi_val := (pi_val p)\<lparr>v_throttle := t\<rparr>,
               pi_async := pi_async p @ [\<lparr>as_vals = ?as, as_src = src, as_msg = msg, as_held = None\<rparr>]\<rparr>"
          using pass True unfolding p'_def v p_def by (simp add: Let_def)
        moreover have "acquire (v_throttle (pi_val p)) = Some t" using Some by (simp add: p_def)
        ultimately show ?thesis using fresh sub by blast
      qed
    qed
  qed
qed

lemma acquire_Some: "acquire t = Some t' \<Longrightarrow> th_used t' = Suc (th_used t) \<and> (throttle_ok t \<longrightarrow> throttle_ok t')"
  by (auto simp: acquire_def throttle_ok_def split: if_splits)

lemma pipe_ok_validate:
  assumes "pipe_ok (pipe_of st)" "\<forall>r \<in> set vals. r < length (v_heap (n_val st))"
  shows "pipe_ok (pipe_of (validate tc verify vals src msg st))"
proof -
  let ?p = "pipe_of st"
  have ok: "pipe_ok ?p" by (rule assms(1))
  have "pipe_ok (?p\<lparr>pi_seen := sn\<rparr>)" "pipe_ok (?p\<lparr>pi_seen := sn, pi_waiting := pi_waiting ?p @ [(r, False)]\<rparr>)" for sn r
    using ok by (simp_all add: pipe_ok_def)
  moreover have "pipe_ok (?p\<lparr>pi_seen := sn, pi_val := (pi_val ?p)\<lparr>v_throttle := t\<rparr>,
      pi_async := pi_async ?p @ [\<lparr>as_vals = as, as_src = src, as_msg = msg, as_held = None\<rparr>]\<rparr>)"
    if "acquire (v_throttle (pi_val ?p)) = Some t" "set as \<subseteq> set vals" for sn t as
    using ok acquire_Some [OF that(1)] that(2) assms(2)
    by (auto simp: pipe_ok_def val_inv_def tokens_ok_def async_ok_def held_of_def)
  ultimately show ?thesis
    using validate_cases [where tc = tc and st = st and verify = verify and msg = msg and vals = vals and src = src] ok by auto
qed

text \<open>A worker takes a request.\<close>

lemma pipe_ok_pop:
  assumes "pipe_ok (pipe_of st)" "ch_buf (v_validateQ (n_val st)) = req # reqs"
  defines "s \<equiv> st\<lparr>n_val := (n_val st)\<lparr>v_validateQ := (v_validateQ (n_val st))\<lparr>ch_buf := reqs\<rparr>\<rparr>\<rparr>"
  shows "pipe_ok (pipe_of s)" "\<forall>r \<in> set (vr_vals req). r < length (v_heap (n_val s))"
proof -
  have v: "val_inv (n_val st)" using assms(1) by (simp add: pipe_ok_def)
  then show "\<forall>r \<in> set (vr_vals req). r < length (v_heap (n_val s))"
    using assms(2) by (simp add: val_inv_def s_def)
  have "val_inv ((n_val st)\<lparr>v_validateQ := (v_validateQ (n_val st))\<lparr>ch_buf := reqs\<rparr>\<rparr>)"
    using v assms(2) by (simp add: val_inv_def chan_ok_def)
  then show "pipe_ok (pipe_of s)" using assms(1) by (simp add: pipe_ok_def s_def)
qed

lemma worker_ok:
  assumes "pipe_ok (pipe_of st)" "validateWorker tc verify st = Some st'" shows "pipe_ok (pipe_of st')"
proof -
  obtain req reqs where q: "ch_buf (v_validateQ (n_val st)) = req # reqs"
    using assms(2) by (auto simp: validateWorker_def split: list.splits)
  with assms(2) show ?thesis
    using pipe_ok_validate [OF pipe_ok_pop [OF assms(1) q]] by (auto simp: validateWorker_def)
qed

text \<open>Taking the throttles: the tokens taken are recorded.\<close>

lemma held_count_update:
  "k < length as \<Longrightarrow> held_of (as ! k) = [] \<Longrightarrow>
     held_count (as[k := a]) r = held_count as r + count_list (held_of a) r"
proof -
  assume k: "k < length as" "held_of (as ! k) = []"
  have "held_count (take k as @ a # drop (Suc k) as) r =
      held_count (take k as @ as ! k # drop (Suc k) as) r + count_list (held_of a) r"
    using k(2) by (simp add: held_count_def)
  then show ?thesis using k(1) by (simp add: upd_conv_take_nth_drop id_take_nth_drop [symmetric])
qed

lemma begin_ok:
  assumes ok: "pipe_ok (pipe_of st)" and b: "begin_validateTopic k st = Some st'"
  shows "pipe_ok (pipe_of st') \<and> under_way (pipe_of st') = under_way (pipe_of st) \<and> n_seen st' = n_seen st \<and>
    v_validateQ (n_val st') = v_validateQ (n_val st)"
proof -
  let ?h = "v_heap (n_val st)" and ?a = "n_async st ! k"
  have k: "k < length (n_async st)" "as_held ?a = None" using b by (auto simp: begin_validateTopic_def split: if_splits)
  obtain held good h where acq: "acquire_vals (as_vals ?a) ?h = (held, good, h)" by (metis prod_cases3)
  let ?a' = "?a\<lparr>as_held := Some (held, good)\<rparr>"
  have st': "st' = st\<lparr>n_val := (n_val st)\<lparr>v_heap := h\<rparr>, n_async := (n_async st)[k := ?a']\<rparr>"
    using b k acq by (simp add: begin_validateTopic_def Let_def)
  have tok: "tokens_ok ?h (n_async st)" and v: "val_inv (n_val st)" using ok by (simp_all add: pipe_ok_def)
  have a: "async_ok (length ?h) ?a" using tok k(1) by (simp add: tokens_ok_def)
  have thr: "\<forall>r < length ?h. throttle_ok (tv_throttle (?h ! r))" using v by (simp add: val_inv_def)
  have "\<forall>r \<in> set (as_vals ?a). r < length ?h" using a by (simp add: async_ok_def)
  note sp = acquire_vals_spec [OF acq this thr]
  have len: "length h = length ?h" using sp heap_like_sel(1) by blast
  have "val_inv ((n_val st)\<lparr>v_heap := h\<rparr>)" using sp len by (intro val_inv_heap [OF v]) auto
  moreover have "tokens_ok h ((n_async st)[k := ?a'])"
  proof -
    have "async_ok (length h) x" if "x \<in> set ((n_async st)[k := ?a'])" for x
    proof -
      have "x = ?a' \<or> x \<in> set (n_async st)" using that set_update_subset_insert by fast
      then show ?thesis
      proof (elim disjE)
        assume 1: "x = ?a'"
        show ?thesis unfolding 1 using a sp by (simp add: async_ok_def held_of_def len)
      next
        assume "x \<in> set (n_async st)"
        then show ?thesis using tok by (simp add: tokens_ok_def len)
      qed
    qed
    moreover have "th_used (tv_throttle (h ! r)) = held_count ((n_async st)[k := ?a']) r" if "r < length h" for r
    proof -
      have "held_count ((n_async st)[k := ?a']) r = held_count (n_async st) r + count_list held r"
        using held_count_update [OF k(1), of ?a' r] k(2) by (simp add: held_of_def)
      moreover have "th_used (tv_throttle (?h ! r)) = held_count (n_async st) r"
        using tok that by (simp add: tokens_ok_def len)
      ultimately show ?thesis using sp that by (simp add: len)
    qed
    ultimately show ?thesis by (simp add: tokens_ok_def)
  qed
  moreover have "map as_msg ((n_async st)[k := ?a']) = map as_msg (n_async st)"
    using k(1) by (simp add: map_update list_update_same_conv)
  then have "mset (map as_msg ((n_async st)[k := ?a'])) = mset (map as_msg (n_async st))" by (rule arg_cong)
  ultimately show ?thesis using ok by (simp add: st' pipe_ok_def under_way_def)
qed

text \<open>The validators have answered: every token taken is given back.\<close>

lemma end_async:
  assumes "tokens_ok h as" "k < length as" "\<forall>r < length h. throttle_ok (tv_throttle (h ! r))"
  defines "h' \<equiv> release_vals (held_of (as ! k)) h"
  shows "heap_like h h'" "tokens_ok h' (drop_nth k as)" "\<forall>r < length h'. throttle_ok (tv_throttle (h' ! r))"
proof -
  have "async_ok (length h) (as ! k)" using assms(1,2) by (simp add: tokens_ok_def)
  then have "\<forall>r \<in> set (held_of (as ! k)). r < length h" by (auto simp: async_ok_def)
  note sp = release_vals_spec [OF this, folded h'_def]
  then show like: "heap_like h h'" by blast
  note l = heap_like_sel [OF like]
  have used: "th_used (tv_throttle (h' ! r)) = held_count (drop_nth k as) r" if "r < length h" for r
  proof -
    have "th_used (tv_throttle (h ! r)) = held_count as r" using assms(1) that by (simp add: tokens_ok_def)
    then show ?thesis using sp that sum_drop_nth [OF assms(2), of "\<lambda>a. count_list (held_of a) r"]
      by (simp add: held_count_def)
  qed
  then show "tokens_ok h' (drop_nth k as)"
    using assms(1) set_drop_nth [of k as] l(1) by (auto simp: tokens_ok_def)
  have "th_used (tv_throttle (h' ! r)) \<le> th_used (tv_throttle (h ! r))" if "r < length h" for r
    using sp that by simp
  then show "\<forall>r < length h'. throttle_ok (tv_throttle (h' ! r))"
    using assms(3) l(1,4) by (metis le_trans throttle_ok_def)
qed

lemma end_ok:
  assumes ok: "pipe_ok (pipe_of st)" and e: "end_validateTopic k st = Some st'"
  shows "pipe_ok (pipe_of st') \<and> under_way (pipe_of st') \<subseteq># under_way (pipe_of st) \<and> n_seen st' = n_seen st \<and>
    v_validateQ (n_val st') = v_validateQ (n_val st)"
proof -
  let ?h = "v_heap (n_val st)" and ?a = "n_async st ! k"
  obtain held good where k: "k < length (n_async st)" "as_held ?a = Some (held, good)"
    using e by (cases "as_held ?a") (auto simp: end_validateTopic_def Let_def split: if_splits)
  then have held: "held_of ?a = held" by (simp add: held_of_def)
  have tok: "tokens_ok ?h (n_async st)" and v: "val_inv (n_val st)" using ok by (simp_all add: pipe_ok_def)
  then have thr: "\<forall>r < length ?h. throttle_ok (tv_throttle (?h ! r))" by (simp add: val_inv_def)
  note e_a = end_async [OF tok k(1) thr, unfolded held]
  let ?v = "(n_val st)\<lparr>v_heap := release_vals held ?h\<rparr>"
  have vi: "val_inv ?v" by (rule val_inv_heap [OF v e_a(1,3)])
  have len: "length (n_async st) = Suc (length (drop_nth k (n_async st)))" by (rule length_drop_nth [OF k(1)])
  have used: "th_used (v_throttle (n_val st)) = length (n_async st) + length (filter snd (n_waiting st))"
    using ok by (simp add: pipe_ok_def)
  have ids: "mset (map as_msg (n_async st)) = add_mset (as_msg ?a) (mset (map as_msg (drop_nth k (n_async st))))"
    by (rule mset_map_drop_nth [OF k(1)])
  have rel: "val_inv (?v\<lparr>v_throttle := release (v_throttle (n_val st))\<rparr>)"
    using vi by (simp add: val_inv_def release_def throttle_ok_def le_diff_conv)
  let ?s1 = "st\<lparr>n_val := ?v, n_async := drop_nth k (n_async st),
      n_waiting := n_waiting st @ [(\<lparr>sr_from = as_src ?a, sr_msg = as_msg ?a\<rparr>, True)]\<rparr>"
  let ?s2 = "st\<lparr>n_val := ?v\<lparr>v_throttle := release (v_throttle (n_val st))\<rparr>, n_async := drop_nth k (n_async st)\<rparr>"
  have "st' = ?s1 \<or> st' = ?s2"
    using e k by (auto simp: end_validateTopic_def Let_def)
  moreover have "pipe_ok (pipe_of ?s1) \<and> under_way (pipe_of ?s1) \<subseteq># under_way (pipe_of st)"
    using ok vi e_a(2) used len ids by (simp add: pipe_ok_def under_way_def)
  moreover have "pipe_ok (pipe_of ?s2) \<and> under_way (pipe_of ?s2) \<subseteq># under_way (pipe_of st)"
    using ok rel e_a(2) used len ids by (simp add: pipe_ok_def under_way_def release_def)
  ultimately show ?thesis by auto
qed

text \<open>The blocking send goes through.\<close>

lemma send_ok:
  assumes ok: "pipe_ok (pipe_of st)" and s: "send_waiting k st = Some st'"
  shows "pipe_ok (pipe_of st') \<and> under_way (pipe_of st') = under_way (pipe_of st) \<and> n_seen st' = n_seen st \<and>
    v_validateQ (n_val st') = v_validateQ (n_val st)"
proof -
  have k: "k < length (n_waiting st)" and room: "chan_room (n_sendMsg st)"
    using s by (auto simp: send_waiting_def split: if_splits)
  obtain req token where w: "n_waiting st ! k = (req, token)" by force
  let ?v = "if token then (n_val st)\<lparr>v_throttle := release (v_throttle (n_val st))\<rparr> else n_val st"
  have st': "st' = st\<lparr>n_sendMsg := (n_sendMsg st)\<lparr>ch_buf := ch_buf (n_sendMsg st) @ [req]\<rparr>,
      n_waiting := drop_nth k (n_waiting st), n_val := ?v\<rparr>"
    using s k room w by (simp add: send_waiting_def Let_def)
  have ids: "mset (map (sr_msg \<circ> fst) (n_waiting st)) =
      add_mset (sr_msg req) (mset (map (sr_msg \<circ> fst) (drop_nth k (n_waiting st))))"
    using mset_map_drop_nth [OF k, of "sr_msg \<circ> fst"] w by simp
  have used: "th_used (v_throttle (n_val st)) = length (n_async st) + length (filter snd (n_waiting st))"
    using ok by (simp add: pipe_ok_def)
  have flt: "length (filter snd (n_waiting st)) = (if token then 1 else 0) + length (filter snd (drop_nth k (n_waiting st)))"
    using filter_drop_nth [OF k, of snd] w by simp
  have vi: "val_inv ?v" using ok by (simp add: pipe_ok_def val_inv_def release_def throttle_ok_def le_diff_conv)
  have q: "chan_ok ((n_sendMsg st)\<lparr>ch_buf := ch_buf (n_sendMsg st) @ [req]\<rparr>)"
    using ok room by (simp add: pipe_ok_def chan_ok_def chan_room_def)
  have "pipe_ok (pipe_of st')"
    using ok vi q used flt by (simp add: st' pipe_ok_def release_def)
  moreover have "under_way (pipe_of st') = under_way (pipe_of st)"
    using ids by (simp add: st' under_way_def)
  ultimately show ?thesis by (simp add: st')
qed

end
