(* ===== verification/Codec.thy ===== *)
theory Codec
  imports Wire
begin

text \<open>
  The wire format of \<open>pb/rpc.pb.go\<close>: \<open>Marshal\<close>, \<open>Size\<close> and \<open>Unmarshal\<close> of the messages that nodes exchange and
  sign. \<open>MarshalTo\<close> fills an array from index 0; here it returns the bytes it writes, in order.
  \<open>Unmarshal\<close> moves an index through an array, as in the code: every index and slice expression has its range
  check, sums of an \<open>int\<close> wrap around at 64 bits, and a panic is a value. \<open>skipRpc\<close> calls itself on nested groups;
  the stack of a goroutine is taken to be large enough for that (the readers take at most 1 MiB).
\<close>

unbundle bit_operations_syntax

section \<open>Encoding\<close>

text \<open>\<open>for v >= 1<<7 { ... = uint8(v&0x7f | 0x80); v >>= 7 }; ... = uint8(v)\<close>.\<close>

function encodeVarintRpc :: "64 word \<Rightarrow> gostring" where
  "encodeVarintRpc v =
     (if v \<ge> 128 then ucast (v AND 0x7F OR 0x80) # encodeVarintRpc (drop_bit 7 v) else [ucast v])"
  by pat_completeness auto

lemma unat_shift7: "unat (drop_bit 7 (v :: 64 word)) = unat v div 128"
  unfolding unat_drop_bit_eq by (simp add: drop_bit_eq_div)

termination encodeVarintRpc
proof (relation "measure unat")
  fix v :: "64 word" assume "128 \<le> v"
  then have "128 \<le> unat v" by (simp add: word_le_nat_alt)
  then show "(drop_bit 7 v, v) \<in> measure unat" by (simp add: unat_shift7)
qed simp

declare encodeVarintRpc.simps [simp del]

text \<open>\<open>for { n++; x >>= 7; if x == 0 { break } }\<close>.\<close>

function sovRpc :: "64 word \<Rightarrow> nat" where
  "sovRpc x = (if drop_bit 7 x = 0 then 1 else 1 + sovRpc (drop_bit 7 x))"
  by pat_completeness auto
termination
proof (relation "measure unat")
  fix x :: "64 word" assume "drop_bit 7 x \<noteq> 0"
  then have "unat x div 128 \<noteq> 0" using unat_shift7 [of x] by (metis unat_eq_zero)
  then show "(drop_bit 7 x, x) \<in> measure unat" by (simp add: unat_shift7)
qed simp

declare sovRpc.simps [simp del]

text \<open>A length-delimited field: its tag, the length, the bytes.\<close>

definition delim :: "byte \<Rightarrow> gostring \<Rightarrow> gostring" where
  "delim tag bs = tag # encodeVarintRpc (of_nat (length bs)) @ bs"

definition delim_opt :: "byte \<Rightarrow> gostring option \<Rightarrow> gostring" where
  "delim_opt tag b = (case b of None \<Rightarrow> [] | Some bs \<Rightarrow> delim tag bs)"

definition Message_MarshalTo :: "pb_Message \<Rightarrow> gostring" where
  "Message_MarshalTo m =
     delim_opt 0x0A (m_From m) @ delim_opt 0x12 (m_Data m) @ delim_opt 0x1A (m_Seqno m) @
     concat (map (delim 0x22) (m_TopicIDs m)) @
     delim_opt 0x2A (m_Signature m) @ delim_opt 0x32 (m_Key m) @ m_unrec m"

definition size_delim :: "gostring \<Rightarrow> nat" where
  "size_delim bs = (let l = length bs in 1 + l + sovRpc (of_nat l))"

definition size_opt :: "gostring option \<Rightarrow> nat" where
  "size_opt b = (case b of None \<Rightarrow> 0 | Some bs \<Rightarrow> size_delim bs)"

definition Message_Size :: "pb_Message \<Rightarrow> nat" where
  "Message_Size m =
     size_opt (m_From m) + size_opt (m_Data m) + size_opt (m_Seqno m) +
     sum_list (map size_delim (m_TopicIDs m)) +
     size_opt (m_Signature m) + size_opt (m_Key m) + length (m_unrec m)"

text \<open>
  \<open>Marshal\<close>: an array of \<open>Size()\<close> bytes is filled; more bytes than that would panic (or be cut, if they
  belonged to the last \<open>copy\<close> only), which never happens.
\<close>

definition Message_Marshal :: "pb_Message \<Rightarrow> gostring option" where
  "Message_Marshal m =
     (let size = Message_Size m; bs = Message_MarshalTo m
      in if length bs \<le> size then Some bs else None)"

section \<open>Decoding\<close>

text \<open>
  How a decoder ends without a value: with one of its errors, or with a panic of the run-time system (an index
  or a slice out of range) or of its own (\<open>panic("unreachable")\<close>). \<open>NoProgress\<close> is not in the code: it stands for
  a loop that would not end, and \<open>Unmarshal_total\<close> shows that there is none.
\<close>

datatype go_panic = IndexOutOfRange | SliceOutOfRange | UnreachableCode

datatype wire_error =
    IntOverflow | UnexpectedEOF | InvalidLength | EndGroup | IllegalTag int | WrongWireType nat
  | IllegalWireType nat | Panic go_panic | NoProgress

text \<open>
  \<open>bs[i]\<close> and \<open>bs[i:j]\<close>, with the checks of the run-time system. The code may slice up to the capacity of an
  array; here it may not even pass its length.
\<close>

definition go_index :: "gostring \<Rightarrow> int \<Rightarrow> wire_error + byte" where
  "go_index bs i =
     (if 0 \<le> i \<and> i < int (length bs) then Inr (bs ! nat i) else Inl (Panic IndexOutOfRange))"

definition go_slice :: "gostring \<Rightarrow> int \<Rightarrow> int \<Rightarrow> wire_error + gostring" where
  "go_slice bs i j =
     (if 0 \<le> i \<and> i \<le> j \<and> j \<le> int (length bs) then Inr (take (nat (j - i)) (drop (nat i) bs))
      else Inl (Panic SliceOutOfRange))"

text \<open>The value that an \<open>int\<close> of 64 bits keeps of a sum.\<close>

definition go_int :: "int \<Rightarrow> int" where
  "go_int k = signed_take_bit 63 k"

text \<open>
  \<open>for shift := uint(0); ; shift += 7 { if shift >= 64 {...}; if iNdEx >= l {...}; b := dAtA[iNdEx]; iNdEx++;
  x |= uint64(b&0x7F) << shift; if b < 0x80 { break } }\<close>, from a given turn on. The increment follows the check
  against the length, so it cannot wrap around.
\<close>

function getVarint :: "gostring \<Rightarrow> nat \<Rightarrow> 64 word \<Rightarrow> int \<Rightarrow> wire_error + 64 word \<times> int" where
  "getVarint dAtA shift x iNdEx =
     (if shift \<ge> 64 then Inl IntOverflow
      else if iNdEx \<ge> int (length dAtA) then Inl UnexpectedEOF
      else case go_index dAtA iNdEx of
             Inl e \<Rightarrow> Inl e
           | Inr b \<Rightarrow>
               (let x = x OR push_bit shift (ucast (b AND 0x7F))
                in if b < 0x80 then Inr (x, iNdEx + 1) else getVarint dAtA (shift + 7) x (iNdEx + 1)))"
  by pat_completeness auto
termination by (relation "measure (\<lambda>(dAtA, shift, x, iNdEx). 64 - shift)") auto

declare getVarint.simps [simp del]

text \<open>
  The length and the bytes of a field: \<open>if byteLen < 0\<close>, \<open>postIndex := iNdEx + byteLen\<close>, \<open>if postIndex < 0\<close>,
  \<open>if postIndex > l\<close>, \<open>dAtA[iNdEx:postIndex]\<close>.
\<close>

definition getBytes :: "gostring \<Rightarrow> int \<Rightarrow> wire_error + gostring \<times> int" where
  "getBytes dAtA iNdEx =
     (case getVarint dAtA 0 0 iNdEx of
        Inl e \<Rightarrow> Inl e
      | Inr (len, iNdEx) \<Rightarrow>
          (let byteLen = sint len; postIndex = go_int (iNdEx + byteLen)
           in if byteLen < 0 then Inl InvalidLength
              else if postIndex < 0 then Inl InvalidLength
              else if postIndex > int (length dAtA) then Inl UnexpectedEOF
              else case go_slice dAtA iNdEx postIndex of
                     Inl e \<Rightarrow> Inl e
                   | Inr bs \<Rightarrow> Inr (bs, postIndex)))"

lemma getVarint_index: "getVarint dAtA s x i = Inr (y, j) \<Longrightarrow> 0 \<le> i \<and> i < j \<and> j \<le> int (length dAtA)"
proof (induction dAtA s x i rule: getVarint.induct)
  case (1 dAtA s x i)
  from 1(2) show ?case
    by (subst (asm) getVarint.simps) (auto simp: go_index_def Let_def split: if_splits dest!: 1(1))
qed

text \<open>
  \<open>skipRpc\<close>: the number of bytes of an unknown field, which may run past the end. The body of its loop always
  returns, so the loop is a test. \<open>skipGroup\<close> is its loop over the fields of a group, which calls \<open>skipRpc\<close> on
  the bytes from the index \<open>start\<close> on.
\<close>

function skipRpc :: "gostring \<Rightarrow> wire_error + int" and skipGroup :: "gostring \<Rightarrow> int \<Rightarrow> wire_error + int" where
  "skipRpc dAtA =
     (if \<not> 0 < int (length dAtA) then Inl (Panic UnreachableCode)
      else case getVarint dAtA 0 0 0 of
             Inl e \<Rightarrow> Inl e
           | Inr (wire, iNdEx) \<Rightarrow>
               (let wireType = unat (wire AND 0x7)
                in if wireType = 0 then
                     (case getVarint dAtA 0 0 iNdEx of Inl e \<Rightarrow> Inl e | Inr (_, iNdEx) \<Rightarrow> Inr iNdEx)
                   else if wireType = 1 then Inr (go_int (iNdEx + 8))
                   else if wireType = 2 then
                     (case getVarint dAtA 0 0 iNdEx of
                        Inl e \<Rightarrow> Inl e
                      | Inr (len, iNdEx) \<Rightarrow>
                          if sint len < 0 then Inl InvalidLength
                          else if go_int (iNdEx + sint len) < 0 then Inl InvalidLength
                          else Inr (go_int (iNdEx + sint len)))
                   else if wireType = 3 then skipGroup dAtA iNdEx
                   else if wireType = 4 then Inr iNdEx
                   else if wireType = 5 then Inr (go_int (iNdEx + 4))
                   else Inl (IllegalWireType wireType)))"
| "skipGroup dAtA start =
     (case getVarint dAtA 0 0 start of
        Inl e \<Rightarrow> Inl e
      | Inr (innerWire, iNdEx) \<Rightarrow>
          if unat (innerWire AND 0x7) = 4 then Inr iNdEx
          else case go_slice dAtA start (int (length dAtA)) of
                 Inl e \<Rightarrow> Inl e
               | Inr rest \<Rightarrow>
                   (case skipRpc rest of
                      Inl e \<Rightarrow> Inl e
                    | Inr n \<Rightarrow>
                        if go_int (start + n) < 0 then Inl InvalidLength
                        else if go_int (start + n) \<le> start then Inl NoProgress
                        else skipGroup dAtA (go_int (start + n))))"
  by pat_completeness auto
termination
  by (relation "measure (\<lambda>c. case c of Inl d \<Rightarrow> 2 * length d | Inr (d, i) \<Rightarrow> 2 * nat (int (length d) - i) + 1)")
    (auto simp: go_slice_def split: if_splits dest!: getVarint_index)

declare skipRpc.simps [simp del] skipGroup.simps [simp del]

text \<open>
  \<open>Unmarshal\<close> is the same loop for every message type; \<open>field\<close> is its switch over the field number, at the index
  after the tag, and \<open>unknown\<close> appends to \<open>XXX_unrecognized\<close>. Every turn consumes a byte, so as many turns as
  there are bytes are enough.
\<close>

datatype 'm field = Known "wire_error + 'm \<times> int" | Unknown

fun unmarshal_loop ::
  "(int \<Rightarrow> nat \<Rightarrow> gostring \<Rightarrow> 'm \<Rightarrow> int \<Rightarrow> 'm field) \<Rightarrow> (gostring \<Rightarrow> 'm \<Rightarrow> 'm) \<Rightarrow> gostring \<Rightarrow> nat \<Rightarrow> 'm \<Rightarrow> int \<Rightarrow>
   wire_error + 'm" where
  "unmarshal_loop field unknown dAtA 0 m iNdEx =
     (if iNdEx < int (length dAtA) then Inl NoProgress
      else if iNdEx > int (length dAtA) then Inl UnexpectedEOF
      else Inr m)"
| "unmarshal_loop field unknown dAtA (Suc turns) m iNdEx =
     (if iNdEx < int (length dAtA) then
        (case getVarint dAtA 0 0 iNdEx of
           Inl e \<Rightarrow> Inl e
         | Inr (wire, i) \<Rightarrow>
             (let fieldNum = sint (ucast (drop_bit 3 wire) :: 32 word); wireType = unat (wire AND 0x7)
              in if wireType = 4 then Inl EndGroup
                 else if fieldNum \<le> 0 then Inl (IllegalTag fieldNum)
                 else case field fieldNum wireType dAtA m i of
                        Known (Inl e) \<Rightarrow> Inl e
                      | Known (Inr (m, i)) \<Rightarrow> unmarshal_loop field unknown dAtA turns m i
                      | Unknown \<Rightarrow>
                          (case go_slice dAtA iNdEx (int (length dAtA)) of
                             Inl e \<Rightarrow> Inl e
                           | Inr rest \<Rightarrow>
                               (case skipRpc rest of
                                  Inl e \<Rightarrow> Inl e
                                | Inr skippy \<Rightarrow>
                                    if skippy < 0 then Inl InvalidLength
                                    else if go_int (iNdEx + skippy) < 0 then Inl InvalidLength
                                    else if go_int (iNdEx + skippy) > int (length dAtA) then Inl UnexpectedEOF
                                    else (case go_slice dAtA iNdEx (go_int (iNdEx + skippy)) of
                                            Inl e \<Rightarrow> Inl e
                                          | Inr bs \<Rightarrow>
                                              unmarshal_loop field unknown dAtA turns (unknown bs m)
                                                (go_int (iNdEx + skippy)))))))
      else if iNdEx > int (length dAtA) then Inl UnexpectedEOF
      else Inr m)"

definition bytes_field ::
  "(gostring \<Rightarrow> 'm \<Rightarrow> 'm) \<Rightarrow> nat \<Rightarrow> gostring \<Rightarrow> 'm \<Rightarrow> int \<Rightarrow> 'm field" where
  "bytes_field upd wireType dAtA m iNdEx =
     Known (if wireType \<noteq> 2 then Inl (WrongWireType wireType)
            else case getBytes dAtA iNdEx of Inl e \<Rightarrow> Inl e | Inr (bs, postIndex) \<Rightarrow> Inr (upd bs m, postIndex))"

definition Message_field :: "int \<Rightarrow> nat \<Rightarrow> gostring \<Rightarrow> pb_Message \<Rightarrow> int \<Rightarrow> pb_Message field" where
  "Message_field n =
     (if n = 1 then bytes_field (\<lambda>bs m. m\<lparr>m_From := Some bs\<rparr>)
      else if n = 2 then bytes_field (\<lambda>bs m. m\<lparr>m_Data := Some bs\<rparr>)
      else if n = 3 then bytes_field (\<lambda>bs m. m\<lparr>m_Seqno := Some bs\<rparr>)
      else if n = 4 then bytes_field (\<lambda>bs m. m\<lparr>m_TopicIDs := m_TopicIDs m @ [bs]\<rparr>)
      else if n = 5 then bytes_field (\<lambda>bs m. m\<lparr>m_Signature := Some bs\<rparr>)
      else if n = 6 then bytes_field (\<lambda>bs m. m\<lparr>m_Key := Some bs\<rparr>)
      else (\<lambda>_ _ _ _. Unknown))"

definition emptyMessage :: pb_Message where
  "emptyMessage =
     \<lparr>m_From = None, m_Data = None, m_Seqno = None, m_TopicIDs = [], m_Signature = None, m_Key = None, m_unrec = []\<rparr>"

definition Message_Unmarshal :: "gostring \<Rightarrow> pb_Message \<Rightarrow> wire_error + pb_Message" where
  "Message_Unmarshal dAtA m =
     unmarshal_loop Message_field (\<lambda>bs m. m\<lparr>m_unrec := m_unrec m @ bs\<rparr>) dAtA (length dAtA) m 0"

section \<open>Variable-length integers\<close>

lemma small_iff: "(v :: 64 word) < 128 \<longleftrightarrow> drop_bit 7 v = 0"
proof -
  have "v < 128 \<longleftrightarrow> unat v < 128" by (simp add: word_less_nat_alt)
  also have "\<dots> \<longleftrightarrow> unat (drop_bit 7 v) = 0" by (simp add: unat_shift7 div_eq_0_iff)
  finally show ?thesis by (simp add: unat_eq_zero)
qed

lemma length_encodeVarint: "length (encodeVarintRpc v) = sovRpc v"
proof (induction v rule: encodeVarintRpc.induct)
  case (1 v)
  then show ?case
    using small_iff [of v] by (subst encodeVarintRpc.simps, subst sovRpc.simps) (auto simp: not_less [symmetric])
qed

lemma bit_7F: "bit (0x7F :: int) n \<longleftrightarrow> n < 7"
proof -
  have "(0x7F :: int) = mask 7" by (simp add: mask_eq_exp_minus_1)
  then have "bit (0x7F :: int) n = bit (mask 7 :: int) n" by (rule arg_cong)
  then show ?thesis by (simp only: bit_mask_iff) simp
qed
lemma bit_80: "bit (0x80 :: int) n \<longleftrightarrow> n = 7"
proof -
  have "(0x80 :: int) = 2 ^ 7" by simp
  then have "bit (0x80 :: int) n = bit (2 ^ 7 :: int) n" by (rule arg_cong)
  then show ?thesis by (simp only: bit_exp_iff) simp
qed
lemma low_byte:
  fixes v :: "64 word"
  shows "\<not> (ucast (v AND 0x7F OR 0x80) :: byte) < 0x80"
    "ucast ((ucast (v AND 0x7F OR 0x80) :: byte) AND 0x7F) = v AND 0x7F"
proof -
  let ?b = "ucast (v AND 0x7F OR 0x80) :: byte"
  have "?b AND 0x80 = 0x80" by (rule bit_word_eqI) (auto simp: bit_simps bit_80 bit_7F)
  then have "128 \<le> ?b" using word_and_le2 [of ?b "0x80"] word_and_le1 [of ?b "0x80"] by metis
  then show "\<not> ?b < 0x80" by simp
  show "ucast (?b AND 0x7F) = v AND 0x7F"
    by (rule bit_word_eqI) (auto simp: bit_simps bit_80 bit_7F)
qed

lemma byte_small: "(v :: 64 word) < 128 \<Longrightarrow> (ucast v :: byte) < 0x80 \<and> ucast ((ucast v :: byte) AND 0x7F) = v"
proof -
  assume small: "v < 128"
  have high: "n < 7" if "bit v n" for n
  proof (rule ccontr)
    assume "\<not> n < 7"
    then have "bit (drop_bit 7 v) (n - 7) = bit v n" by (simp add: bit_drop_bit_eq)
    with small that show False by (simp add: small_iff)
  qed
  have "ucast ((ucast v :: byte) AND 0x7F) = v"
    by (rule bit_word_eqI) (auto simp: bit_simps bit_7F dest: high)
  moreover have "(ucast v :: byte) < 0x80"
    using small by (simp add: word_less_nat_alt unsigned_ucast_eq take_bit_nat_eq_self)
  ultimately show ?thesis by simp
qed

lemma getVarint_byte:
  "s < 64 \<Longrightarrow> getVarint (pre @ b # bs) s x (int (length pre)) =
     (if b < 0x80 then Inr (x OR push_bit s (ucast (b AND 0x7F)), int (length pre) + 1)
      else getVarint ((pre @ [b]) @ bs) (s + 7) (x OR push_bit s (ucast (b AND 0x7F))) (int (length (pre @ [b]))))"
  by (subst getVarint.simps) (simp add: go_index_def Let_def add.commute)

lemma getVarint_encode_aux:
  "s < 64 \<Longrightarrow> unat v < 2 ^ (64 - s) \<Longrightarrow>
   getVarint (pre @ encodeVarintRpc v @ rest) s x (int (length pre)) =
     Inr (x OR push_bit s v, int (length (pre @ encodeVarintRpc v)))"
proof (induction v arbitrary: s x pre rule: encodeVarintRpc.induct)
  case (1 v)
  show ?case
  proof (cases "v \<ge> 128")
    case False
    then have "v < 128" by simp
    from byte_small [OF this] False 1 show ?thesis
      by (subst (1 2) encodeVarintRpc.simps) (simp add: getVarint_byte)
  next
    case True
    then have big: "2 ^ 7 \<le> unat v" by (simp add: word_le_nat_alt)
    with 1(3) have "2 ^ 7 < (2 :: nat) ^ (64 - s)" by linarith
    then have "7 < 64 - s" by (simp only: power_strict_increasing_iff one_less_numeral_iff semiring_norm)
    then have s: "s + 7 < 64" by simp
    have "64 - s = 7 + (64 - (s + 7))" using s by simp
    then have "unat v < 2 ^ 7 * 2 ^ (64 - (s + 7))" using 1(3) by (metis power_add)
    then have "unat (drop_bit 7 v) < 2 ^ (64 - (s + 7))"
      by (simp add: unat_shift7 div_less_iff_less_mult mult.commute)
    note IH = 1(1) [OF True s this]
    have "push_bit s (v AND 0x7F) OR push_bit (s + 7) (drop_bit 7 v) = push_bit s v"
    proof (rule bit_word_eqI)
      fix n assume "n < LENGTH(64)"
      then show "bit (push_bit s (v AND 0x7F) OR push_bit (s + 7) (drop_bit 7 v)) n = bit (push_bit s v) n"
        by (cases "n < s + 7") (auto simp: bit_simps bit_7F)
    qed
    then show ?thesis
      using True 1(2) low_byte [of v] IH [where pre = "pre @ [ucast (v AND 0x7F OR 0x80)]"]
      by (subst (1 2) encodeVarintRpc.simps) (simp add: getVarint_byte or.assoc)
  qed
qed

text \<open>Reading back the encoding of a 64-bit integer gives that integer and the index after it.\<close>

lemma getVarint_encode:
  "getVarint (pre @ encodeVarintRpc v @ rest) 0 0 (int (length pre)) = Inr (v, int (length (pre @ encodeVarintRpc v)))"
  using getVarint_encode_aux [of 0 v pre rest 0] unsigned_less [of v] by simp

lemma go_int_id: "- (2 ^ 63) \<le> k \<Longrightarrow> k < 2 ^ 63 \<Longrightarrow> go_int k = k"
  unfolding go_int_def by (rule signed_take_bit_int_eq_self)

lemma go_int_bounds: "- (2 ^ 63) \<le> go_int k" "go_int k < 2 ^ 63"
  unfolding go_int_def by (rule signed_take_bit_int_greater_eq_minus_exp signed_take_bit_int_less_exp)+

lemma go_int_sum:
  assumes "0 \<le> k" "k < 2 ^ 64" "0 \<le> go_int k"
  shows "go_int k = k"
proof (cases "k < 2 ^ 63")
  case False
  then have "go_int (k - 2 ^ 64) = k - 2 ^ 64" using assms by (intro go_int_id) simp_all
  moreover have "go_int (k - 2 ^ 64) = go_int k"
    unfolding go_int_def signed_take_bit_eq_iff_take_bit_eq
    by (simp add: take_bit_eq_mod mod_diff_right_eq [symmetric, of k])
  ultimately show ?thesis using assms by simp
qed (use assms in \<open>simp add: go_int_id\<close>)

section \<open>The round trip of a message\<close>

text \<open>
  After the bytes \<open>pre\<close> the loop reads \<open>bs\<close> and ends with \<open>m'\<close>; it has enough turns when it has as many as there are
  bytes left.
\<close>

definition decodes :: "gostring \<Rightarrow> pb_Message \<Rightarrow> gostring \<Rightarrow> pb_Message \<Rightarrow> bool" where
  "decodes pre m bs m' \<longleftrightarrow>
     (\<forall>turns \<ge> length bs.
        unmarshal_loop Message_field (\<lambda>bs m. m\<lparr>m_unrec := m_unrec m @ bs\<rparr>) (pre @ bs) turns m (int (length pre)) = Inr m')"

lemma decodes_Nil: "decodes pre m [] m"
proof -
  have "unmarshal_loop f u pre turns m (int (length pre)) = Inr m" for f :: "int \<Rightarrow> nat \<Rightarrow> gostring \<Rightarrow> pb_Message \<Rightarrow> int \<Rightarrow> pb_Message field" and u turns
    by (cases turns) simp_all
  then show ?thesis by (simp add: decodes_def)
qed

lemma getBytes_encode:
  assumes "length (pre @ encodeVarintRpc (of_nat (length bs)) @ bs @ rest) < 2 ^ 63"
  shows "getBytes (pre @ encodeVarintRpc (of_nat (length bs)) @ bs @ rest) (int (length pre)) =
    Inr (bs, int (length (pre @ encodeVarintRpc (of_nat (length bs)) @ bs)))"
proof -
  let ?v = "encodeVarintRpc (of_nat (length bs))"
  have len: "sint (of_nat (length bs) :: 64 word) = int (length bs)"
    using assms by (simp add: signed_of_nat go_int_id [unfolded go_int_def])
  have sum: "go_int (int (length pre) + int (length ?v) + int (length bs)) =
      int (length pre) + int (length ?v) + int (length bs)"
    using assms by (intro go_int_id) simp_all
  have all: "nat (int (length pre) + int (length ?v)) = length pre + length ?v" by simp
  show ?thesis
    unfolding getBytes_def getVarint_encode using len sum all
    by (simp add: go_slice_def Let_def)
qed

text \<open>The tags of the six fields: the field number, shifted by 3, and wire type 2.\<close>

definition tags :: "(byte \<times> (gostring \<Rightarrow> pb_Message \<Rightarrow> pb_Message)) list" where
  "tags = [(0x0A, \<lambda>bs m. m\<lparr>m_From := Some bs\<rparr>), (0x12, \<lambda>bs m. m\<lparr>m_Data := Some bs\<rparr>),
           (0x1A, \<lambda>bs m. m\<lparr>m_Seqno := Some bs\<rparr>), (0x22, \<lambda>bs m. m\<lparr>m_TopicIDs := m_TopicIDs m @ [bs]\<rparr>),
           (0x2A, \<lambda>bs m. m\<lparr>m_Signature := Some bs\<rparr>), (0x32, \<lambda>bs m. m\<lparr>m_Key := Some bs\<rparr>)]"

lemma tag_field:
  assumes "(tag, upd) \<in> set tags"
  shows "\<exists>wire. getVarint (pre @ tag # r) 0 0 (int (length pre)) = Inr (wire, int (length pre) + 1) \<and>
    unat (wire AND 0x7) = 2 \<and> sint (ucast (drop_bit 3 wire) :: 32 word) > 0 \<and>
    Message_field (sint (ucast (drop_bit 3 wire) :: 32 word)) = bytes_field upd"
proof (intro exI conjI)
  have "tag < 0x80" using assms by (auto simp: tags_def)
  then show "getVarint (pre @ tag # r) 0 0 (int (length pre)) = Inr (ucast (tag AND 0x7F), int (length pre) + 1)"
    by (simp add: getVarint_byte)
qed (use assms in \<open>auto simp: tags_def Message_field_def\<close>)

lemma decodes_delim:
  assumes tag: "(tag, upd) \<in> set tags" and rest: "decodes (pre @ delim tag bs) (upd bs m) rest m'"
    and l: "length (pre @ delim tag bs @ rest) < 2 ^ 63"
  shows "decodes pre m (delim tag bs @ rest) m'"
  unfolding decodes_def
proof (intro allI impI)
  fix turns assume "length (delim tag bs @ rest) \<le> turns"
  then obtain t where t: "turns = Suc t" "length rest \<le> t" by (cases turns) (auto simp: delim_def)
  let ?all = "pre @ delim tag bs @ rest"
  obtain wire where wire: "getVarint ?all 0 0 (int (length pre)) = Inr (wire, int (length pre) + 1)"
    "unat (wire AND 0x7) = 2" "sint (ucast (drop_bit 3 wire) :: 32 word) > 0"
    "Message_field (sint (ucast (drop_bit 3 wire) :: 32 word)) = bytes_field upd"
    using tag_field [OF tag] by (auto simp: delim_def)
  have "getBytes ?all (int (length (pre @ [tag]))) = Inr (bs, int (length (pre @ delim tag bs)))"
    using getBytes_encode [of "pre @ [tag]" bs rest] l by (simp add: delim_def)
  then have bytes: "getBytes ?all (int (length pre) + 1) = Inr (bs, int (length (pre @ delim tag bs)))"
    by (simp add: add.commute)
  have more: "int (length pre) < int (length ?all)" by (simp add: delim_def)
  show "unmarshal_loop Message_field (\<lambda>bs m. m\<lparr>m_unrec := m_unrec m @ bs\<rparr>) ?all turns m (int (length pre)) = Inr m'"
    using wire rest t bytes more by (simp add: decodes_def bytes_field_def Let_def)
qed

lemma decodes_delim_opt:
  assumes "(tag, upd) \<in> set tags"
    and "decodes (pre @ delim_opt tag b) (case b of None \<Rightarrow> m | Some bs \<Rightarrow> upd bs m) rest m'"
    and "length (pre @ delim_opt tag b @ rest) < 2 ^ 63"
  shows "decodes pre m (delim_opt tag b @ rest) m'"
  using assms decodes_delim [OF assms(1)] by (auto simp: delim_opt_def split: option.splits)

lemma decodes_topics:
  assumes "decodes (pre @ concat (map (delim 0x22) ts)) (m\<lparr>m_TopicIDs := m_TopicIDs m @ ts\<rparr>) rest m'"
    and "length (pre @ concat (map (delim 0x22) ts) @ rest) < 2 ^ 63"
  shows "decodes pre m (concat (map (delim 0x22) ts) @ rest) m'"
  using assms
proof (induction ts arbitrary: m pre)
  case Nil
  then show ?case by simp
next
  case (Cons t ts)
  have tag: "(0x22, \<lambda>bs m. m\<lparr>m_TopicIDs := m_TopicIDs m @ [bs]\<rparr>) \<in> set tags" by (simp add: tags_def)
  have "decodes (pre @ delim 0x22 t) (m\<lparr>m_TopicIDs := m_TopicIDs m @ [t]\<rparr>) (concat (map (delim 0x22) ts) @ rest) m'"
    using Cons.prems by (intro Cons.IH) auto
  then have "decodes pre m (delim 0x22 t @ concat (map (delim 0x22) ts) @ rest) m'"
    using Cons.prems by (intro decodes_delim [OF tag]) auto
  then show ?case by simp
qed

lemma sov_small: "x < 128 \<Longrightarrow> sovRpc x = 1"
  by (subst sovRpc.simps) (simp add: small_iff)

lemma length_delim: "length (delim tag bs) = size_delim bs"
  by (simp add: delim_def size_delim_def length_encodeVarint Let_def)

lemma length_MarshalTo: "length (Message_MarshalTo m) = Message_Size m"
proof -
  have opt: "length (delim_opt tag b) = size_opt b" for tag b
    by (cases b) (simp_all add: delim_opt_def size_opt_def length_delim)
  have "length (concat (map (delim tag) ts)) = sum_list (map size_delim ts)" for tag ts
    by (induction ts) (simp_all add: length_delim)
  with opt show ?thesis by (simp add: Message_MarshalTo_def Message_Size_def)
qed

text \<open>\<open>Marshal\<close> never writes past the array that \<open>Size\<close> told it to make, and fills it.\<close>

lemma Marshal_total: "Message_Marshal m = Some (Message_MarshalTo m) \<and> length (Message_MarshalTo m) = Message_Size m"
  by (simp add: Message_Marshal_def length_MarshalTo Let_def)

lemma Unmarshal_Marshal:
  assumes "m_unrec m = []" "Message_Size m < 2 ^ 63"
  shows "Message_Unmarshal (Message_MarshalTo m) emptyMessage = Inr m"
proof -
  have l: "length (Message_MarshalTo m) < 2 ^ 63" using assms by (simp add: length_MarshalTo)
  have "decodes [] emptyMessage (Message_MarshalTo m) m"
    using assms(1) l unfolding Message_MarshalTo_def
    apply -
    apply (rule decodes_delim_opt [where upd = "\<lambda>bs m. m\<lparr>m_From := Some bs\<rparr>"]; (simp add: tags_def; fail)?)
    apply (rule decodes_delim_opt [where upd = "\<lambda>bs m. m\<lparr>m_Data := Some bs\<rparr>"]; (simp add: tags_def; fail)?)
    apply (rule decodes_delim_opt [where upd = "\<lambda>bs m. m\<lparr>m_Seqno := Some bs\<rparr>"]; (simp add: tags_def; fail)?)
    apply (rule decodes_topics; (simp add: tags_def; fail)?)
    apply (rule decodes_delim_opt [where upd = "\<lambda>bs m. m\<lparr>m_Signature := Some bs\<rparr>"]; (simp add: tags_def; fail)?)
    apply (rule decodes_delim_opt [where upd = "\<lambda>bs m. m\<lparr>m_Key := Some bs\<rparr>"]; (simp add: tags_def; fail)?)
    apply (cases m; auto simp: emptyMessage_def decodes_Nil split: option.splits)
    done
  then show ?thesis by (simp add: decodes_def Message_Unmarshal_def)
qed

text \<open>
  C20: a message without unknown fields that is encoded and decoded again is the same message: every field is
  kept, an absent one stays apart from an empty one, and the topics keep their order.
\<close>

theorem Unmarshal_inverts_Marshal:
  assumes "m_unrec m = []" "Message_Marshal m = Some bs" "length bs < 2 ^ 63"
  shows "Message_Unmarshal bs emptyMessage = Inr m"
  using assms Unmarshal_Marshal [of m] by (auto simp: Message_Marshal_def Let_def length_MarshalTo split: if_splits)

lemma sample_size: "Message_Size (text_msg [7] (PutUint64 5) [[3], []]) < 100"
  by (simp only: Message_Size_def size_opt_def size_delim_def text_msg_def Let_def str_def pb_Message.select_convs
      option.case length_map list.size length_PutUint64 list.map) (simp add: sov_small)

theorem Unmarshal_inverts_Marshal_witness:
  "Message_Unmarshal (Message_MarshalTo (text_msg [7] (PutUint64 5) [[3], []])) emptyMessage =
     Inr (text_msg [7] (PutUint64 5) [[3], []])"
proof (rule Unmarshal_inverts_Marshal)
  show "m_unrec (text_msg [7] (PutUint64 5) [[3], []]) = []" by (simp add: text_msg_def)
  show "Message_Marshal (text_msg [7] (PutUint64 5) [[3], []]) =
      Some (Message_MarshalTo (text_msg [7] (PutUint64 5) [[3], []]))"
    by (simp add: Message_Marshal_def length_MarshalTo Let_def)
  show "length (Message_MarshalTo (text_msg [7] (PutUint64 5) [[3], []])) < 2 ^ 63"
    using sample_size by (simp add: length_MarshalTo)
qed

lemma MarshalTo_inj:
  assumes "Message_MarshalTo m = Message_MarshalTo m'" "m_unrec m = []" "m_unrec m' = []" "Message_Size m < 2 ^ 63"
  shows "m = m'"
proof -
  have "Message_Size m' < 2 ^ 63" using assms by (metis length_MarshalTo)
  then show ?thesis using assms Unmarshal_Marshal by (metis sum.inject(2))
qed

section \<open>Decoding arbitrary bytes\<close>

text \<open>A call that ends as the code means it to: with a value or with an error, not with a panic or an endless loop.\<close>

definition returns :: "wire_error + 'a \<Rightarrow> bool" where
  "returns r \<longleftrightarrow> (case r of Inl (Panic p) \<Rightarrow> False | Inl NoProgress \<Rightarrow> False | _ \<Rightarrow> True)"

lemma returns_simps [simp]:
  "returns (Inr a)" "returns (Inl IntOverflow)" "returns (Inl UnexpectedEOF)" "returns (Inl InvalidLength)"
  "returns (Inl EndGroup)" "returns (Inl (IllegalTag i))" "returns (Inl (WrongWireType n))"
  "returns (Inl (IllegalWireType n))" "\<not> returns (Inl (Panic p))" "\<not> returns (Inl NoProgress)"
  by (simp_all add: returns_def)

lemma returns_error: "returns (Inl e :: wire_error + 'a) \<Longrightarrow> returns (Inl e :: wire_error + 'b)"
  by (simp add: returns_def)

lemma returns_iff: "returns r \<longleftrightarrow> (\<forall>p. r \<noteq> Inl (Panic p)) \<and> r \<noteq> Inl NoProgress"
  by (auto simp: returns_def split: sum.splits wire_error.splits)

lemma getVarint_returns: "0 \<le> i \<Longrightarrow> returns (getVarint dAtA s x i)"
proof (induction dAtA s x i rule: getVarint.induct)
  case (1 dAtA s x i)
  then show ?case
    by (subst getVarint.simps) (auto simp: go_index_def Let_def)
qed

lemma go_slice_returns: "0 \<le> i \<Longrightarrow> i \<le> j \<Longrightarrow> j \<le> int (length bs) \<Longrightarrow> \<exists>r. go_slice bs i j = Inr r \<and> int (length r) = j - i"
  by (auto simp: go_slice_def)

lemma sint_64: "sint (w :: 64 word) < 2 ^ 63"
  using sint_lt [of w] by simp

text \<open>The index after a field of \<open>len\<close> bytes: when it has not wrapped around to a negative number, it has not wrapped.\<close>

lemma field_end:
  assumes "0 \<le> i" "i < 2 ^ 63" "0 \<le> sint (len :: 64 word)" "0 \<le> go_int (i + sint len)"
  shows "go_int (i + sint len) = i + sint len"
  by (rule go_int_sum) (use assms sint_64 [of len] in simp_all)

lemma getBytes_returns:
  assumes "0 \<le> i" "length dAtA < 2 ^ 63"
  shows "returns (getBytes dAtA i)" "getBytes dAtA i = Inr (bs, j) \<Longrightarrow> i < j \<and> j \<le> int (length dAtA)"
proof -
  have "returns (getBytes dAtA i) \<and> (getBytes dAtA i = Inr (bs, j) \<longrightarrow> i < j \<and> j \<le> int (length dAtA))"
  proof (cases "getVarint dAtA 0 0 i")
    case (Inl e)
    then show ?thesis using getVarint_returns [OF assms(1), of dAtA 0 0] returns_error by (simp add: getBytes_def)
  next
    case (Inr y)
    obtain len k where y: "y = (len, k)" by fastforce
    have k: "0 \<le> i" "i < k" "k \<le> int (length dAtA)" "k < 2 ^ 63"
      using getVarint_index [OF Inr [unfolded y]] assms(2) by auto
    show ?thesis
    proof (cases "sint len < 0 \<or> go_int (k + sint len) < 0 \<or> go_int (k + sint len) > int (length dAtA)")
      case True
      then show ?thesis by (auto simp: getBytes_def Inr y Let_def)
    next
      case False
      then have post: "go_int (k + sint len) = k + sint len" using k by (intro field_end) simp_all
      then obtain r where "go_slice dAtA k (k + sint len) = Inr r"
        using go_slice_returns [of k "k + sint len" dAtA] False k by auto
      then show ?thesis using False k post by (auto simp: getBytes_def Inr y Let_def)
    qed
  qed
  then show "returns (getBytes dAtA i)" "getBytes dAtA i = Inr (bs, j) \<Longrightarrow> i < j \<and> j \<le> int (length dAtA)"
    by auto
qed

text \<open>The loops of \<open>skipRpc\<close> make progress and never fall out of the function, and its slices are in range.\<close>

lemma skip_returns:
  "dAtA \<noteq> [] \<Longrightarrow> length dAtA < 2 ^ 62 \<Longrightarrow> returns (skipRpc dAtA) \<and> (\<forall>n. skipRpc dAtA = Inr n \<longrightarrow> 0 < n \<and> n < 2 ^ 63)"
  "0 \<le> start \<Longrightarrow> length dAtA' < 2 ^ 62 \<Longrightarrow>
     returns (skipGroup dAtA' start) \<and> (\<forall>n. skipGroup dAtA' start = Inr n \<longrightarrow> start < n \<and> n < 2 ^ 63)"
proof (induction dAtA and dAtA' start rule: skipRpc_skipGroup.induct)
  case (1 dAtA)
  show ?case
  proof (cases "getVarint dAtA 0 0 0")
    case (Inl e)
    then show ?thesis
      using getVarint_returns [of 0 dAtA 0 0] returns_error 1(2) by (simp add: skipRpc.simps [of dAtA])
  next
    case (Inr y)
    obtain wire i where y: "y = (wire, i)" by fastforce
    have i: "0 < i" "i < 2 ^ 62" using getVarint_index [OF Inr [unfolded y]] 1(3) by auto
    have fixed: "go_int (i + 8) = i + 8" "go_int (i + 4) = i + 4" using i by (simp_all add: go_int_id)
    have varint: "returns (getVarint dAtA 0 0 i)" using i by (simp add: getVarint_returns)
    have next_index: "i < j \<and> j < 2 ^ 62" if "getVarint dAtA 0 0 i = Inr (x, j)" for x j
      using getVarint_index [OF that] 1(3) by auto
    have len: "0 < go_int (j + sint len) \<and> go_int (j + sint len) < 2 ^ 63"
      if "getVarint dAtA 0 0 i = Inr (x, j)" "\<not> sint (len :: 64 word) < 0" "\<not> go_int (j + sint len) < 0" for x j len
      using next_index [OF that(1)] field_end [of j len] that i go_int_bounds(2) [of "j + sint len"] by auto
    consider "unat (wire AND 0x7) = 3" | "unat (wire AND 0x7) \<noteq> 3" by blast
    then show ?thesis
    proof cases
      assume 3: "unat (wire AND 0x7) = 3"
      have "returns (skipGroup dAtA i) \<and> (\<forall>n. skipGroup dAtA i = Inr n \<longrightarrow> i < n \<and> n < 2 ^ 63)"
        using 1(1) [OF _ Inr y [symmetric] refl] 3 1(2,3) i by simp
      then show ?thesis using 1(2) i by (auto simp: skipRpc.simps [of dAtA] Inr y 3 Let_def)
    next
      assume not3: "unat (wire AND 0x7) \<noteq> 3"
      show ?thesis
        using 1(2) i fixed varint next_index len not3 returns_error
        by (auto simp: skipRpc.simps [of dAtA] Inr y Let_def split: sum.split)
    qed
  qed
next
  case (2 dAtA start)
  show ?case
  proof (cases "getVarint dAtA 0 0 start")
    case (Inl e)
    then show ?thesis
      using getVarint_returns [OF 2(3), of dAtA 0 0] returns_error by (simp add: skipGroup.simps [of dAtA start])
  next
    case (Inr y)
    obtain wire i where y: "y = (wire, i)" by fastforce
    have i: "start < i" "i \<le> int (length dAtA)" using getVarint_index [OF Inr [unfolded y]] by auto
    show ?thesis
    proof (cases "unat (wire AND 0x7) = 4")
      case True
      then show ?thesis using i 2(4) by (simp add: skipGroup.simps [of dAtA start] Inr y)
    next
      case False
      obtain rest where rest: "go_slice dAtA start (int (length dAtA)) = Inr rest"
        "int (length rest) = int (length dAtA) - start"
        using go_slice_returns [of start "int (length dAtA)" dAtA] 2(3) i by auto
      have "rest \<noteq> []" "length rest < 2 ^ 62" using rest(2) i 2(3,4) by auto
      note sub = 2(1) [OF Inr y [symmetric] False rest(1) this]
      show ?thesis
      proof (cases "skipRpc rest")
        case skip: (Inl e)
        then show ?thesis using sub returns_error by (simp add: skipGroup.simps [of dAtA start] Inr y False rest(1))
      next
        case skip: (Inr n)
        then have n: "0 < n" "n < 2 ^ 63" using sub by auto
        show ?thesis
        proof (cases "go_int (start + n) < 0")
          case True
          then show ?thesis by (simp add: skipGroup.simps [of dAtA start] Inr y False rest(1) skip)
        next
          case ok: False
          have next_index: "go_int (start + n) = start + n"
            by (rule go_int_sum) (use ok n i 2(3,4) in simp_all)
          have "returns (skipGroup dAtA (start + n)) \<and>
              (\<forall>k. skipGroup dAtA (start + n) = Inr k \<longrightarrow> start + n < k \<and> k < 2 ^ 63)"
            using 2(2) [OF Inr y [symmetric] False rest(1) skip] ok n 2(3,4) next_index by simp
          then show ?thesis
            using n 2(3) by (auto simp: skipGroup.simps [of dAtA start] Inr y False rest(1) skip next_index)
        qed
      qed
    qed
  qed
qed

lemma field_returns:
  assumes "0 \<le> i" "length dAtA < 2 ^ 63"
  shows "Message_field n wt dAtA m i = Known (Inl e) \<Longrightarrow> returns (Inl e :: wire_error + 'a)"
    "Message_field n wt dAtA m i = Known (Inr (m', j)) \<Longrightarrow> i < j \<and> j \<le> int (length dAtA)"
  using getBytes_returns [OF assms] returns_error
  by (auto simp: Message_field_def bytes_field_def split: if_splits sum.splits)

text \<open>A loop with as many turns as there are bytes left returns, and more turns change nothing.\<close>

lemma unmarshal_turns:
  assumes "length dAtA < 2 ^ 62" "0 \<le> i" "nat (int (length dAtA) - i) \<le> turns"
  shows "returns (unmarshal_loop Message_field u dAtA turns m i) \<and>
    unmarshal_loop Message_field u dAtA (turns + k) m i = unmarshal_loop Message_field u dAtA turns m i"
  using assms(2,3)
proof (induction turns arbitrary: m i)
  case 0
  then show ?case by (cases k) simp_all
next
  case (Suc turns)
  show ?case
  proof (cases "i < int (length dAtA)")
    case True
    show ?thesis
    proof (cases "getVarint dAtA 0 0 i")
      case (Inl e)
      then show ?thesis using True getVarint_returns [OF Suc.prems(1), of dAtA 0 0] returns_error by simp
    next
      case (Inr y)
      obtain wire j where y: "y = (wire, j)" by fastforce
      have j: "i < j" "j \<le> int (length dAtA)" using getVarint_index [OF Inr [unfolded y]] by auto
      have step: "returns (unmarshal_loop Message_field u dAtA turns m' i') \<and>
          unmarshal_loop Message_field u dAtA (turns + k) m' i' = unmarshal_loop Message_field u dAtA turns m' i'"
        if "i < i'" for m' i'
        using Suc.IH [of i' m'] Suc.prems that by simp
      let ?f = "Message_field (sint (ucast (drop_bit 3 wire) :: 32 word)) (unat (wire AND 0x7)) dAtA m j"
      have known: "i < i'" if "?f = Known (Inr (m', i'))" for m' i'
        using field_returns(2) [OF _ _ that] j Suc.prems assms(1) by simp
      have known_error: "returns (Inl e :: wire_error + pb_Message)" if "?f = Known (Inl e)" for e
        using field_returns(1) [OF _ _ that] j Suc.prems assms(1) by simp
      obtain rest where rest: "go_slice dAtA i (int (length dAtA)) = Inr rest"
        "int (length rest) = int (length dAtA) - i"
        using go_slice_returns [of i "int (length dAtA)" dAtA] Suc.prems True by auto
      have skip: "returns (skipRpc rest) \<and> (\<forall>n. skipRpc rest = Inr n \<longrightarrow> 0 < n \<and> n < 2 ^ 63)"
        by (rule skip_returns(1)) (use rest(2) True Suc.prems assms(1) in auto)
      have skip_error: "returns (Inl e :: wire_error + pb_Message)" if "skipRpc rest = Inl e" for e
        using skip that returns_error by metis
      have skipped: "go_int (i + n) = i + n \<and> i < i + n \<and> (\<exists>bs. go_slice dAtA i (i + n) = Inr bs)"
        if "skipRpc rest = Inr n" "\<not> go_int (i + n) < 0" "\<not> go_int (i + n) > int (length dAtA)" for n
      proof -
        have n: "0 < n" "n < 2 ^ 63" using skip that(1) by auto
        then have "go_int (i + n) = i + n" by (intro go_int_sum) (use that(2) Suc.prems True assms(1) in simp_all)
        then show ?thesis
          using n that(3) go_slice_returns [of i "i + n" dAtA] Suc.prems(1) by auto
      qed
      show ?thesis
      proof (cases ?f)
        case (Known r)
        then show ?thesis
          using True Inr y known known_error step by (cases r) (auto simp: Let_def)
      next
        case Unknown
        show ?thesis
        proof (cases "skipRpc rest")
          case s: (Inl e)
          then show ?thesis using True Inr y Unknown rest(1) skip_error by (simp add: Let_def)
        next
          case s: (Inr n)
          show ?thesis
          proof (cases "n < 0 \<or> go_int (i + n) < 0 \<or> go_int (i + n) > int (length dAtA)")
            case stop: True
            then show ?thesis using True Inr y Unknown rest(1) s by (auto simp: Let_def)
          next
            case go: False
            then obtain bs where "go_int (i + n) = i + n" "i < i + n" "go_slice dAtA i (i + n) = Inr bs"
              using skipped [OF s] by auto
            then show ?thesis using True Inr y Unknown rest(1) s go step [of "i + n"] by (simp add: Let_def)
          qed
        qed
      qed
    qed
  qed simp
qed

text \<open>
  C21: decoding terminates on every input of less than 2^62 bytes and never panics: a byte string from the network
  gives a message or one of the decoder's errors. Every index and slice expression of the decoder is in range,
  however the lengths in the input add up and wrap around; neither it nor the skipping of unknown fields and nested
  groups gets to a \<open>panic("unreachable")\<close>; and every turn of a loop consumes a byte, so no loop runs for ever and
  the number of bytes is enough turns for the main one. (The recursion on nested groups has an unbounded stack.)
\<close>

theorem Unmarshal_total:
  assumes "length dAtA < 2 ^ 62" "length dAtA \<le> turns"
  shows "(\<forall>p. Message_Unmarshal dAtA m \<noteq> Inl (Panic p)) \<and> Message_Unmarshal dAtA m \<noteq> Inl NoProgress \<and>
    unmarshal_loop Message_field (\<lambda>bs m. m\<lparr>m_unrec := m_unrec m @ bs\<rparr>) dAtA turns m 0 = Message_Unmarshal dAtA m"
  using unmarshal_turns [OF assms(1), of 0 "length dAtA" _ m "turns - length dAtA"] assms(2)
  by (simp add: Message_Unmarshal_def returns_iff)

theorem Unmarshal_total_witness:
  "\<forall>p. Message_Unmarshal [0x0A, 0xFF, 0xFF, 0xFF, 0xFF, 0xFF, 0xFF, 0xFF, 0xFF, 0x7F, 0x3B, 0x08] emptyMessage \<noteq> Inl (Panic p)"
  using Unmarshal_total [of "[0x0A, 0xFF, 0xFF, 0xFF, 0xFF, 0xFF, 0xFF, 0xFF, 0xFF, 0x7F, 0x3B, 0x08]" 12 emptyMessage]
  by simp

end
