(* ===== verification/Signing.thy ===== *)
theory Signing
  imports Codec
begin

text \<open>
  \<open>sign.go\<close>: the signature of a message covers \<open>SignPrefix\<close> and the encoding of the message without its
  signature and key; the key is the one the author's identifier embeds, or the attached one, which must
  belong to the author. Keys are handles; \<open>crypto\<close> holds the functions of the packages \<open>crypto\<close> and \<open>peer\<close>
  the file calls. An error is \<open>None\<close> there, and \<open>Some None\<close> is a nil key without an error. A panic in
  \<open>Marshal\<close> would be the outer \<open>None\<close> of a result here.
\<close>

section \<open>Definitions\<close>

record crypto =
  cr_IDFromBytes :: "gostring \<Rightarrow> peer option"
  cr_ExtractPublicKey :: "peer \<Rightarrow> nat option option"
  cr_UnmarshalPublicKey :: "gostring \<Rightarrow> nat option"
  cr_MatchesPublicKey :: "peer \<Rightarrow> nat \<Rightarrow> bool"
  cr_Verify :: "nat \<Rightarrow> gostring \<Rightarrow> gostring \<Rightarrow> bool option"
  cr_Sign :: "nat \<Rightarrow> gostring \<Rightarrow> gostring option"
  cr_GetPublic :: "nat \<Rightarrow> nat"
  cr_Bytes :: "nat \<Rightarrow> gostring option"

datatype sign_error =
    BadID | ExtractFailed | CannotExtract | UnmarshalFailed | BadSigningKey peer
  | VerifyFailed | InvalidSignature | SignFailed | KeyBytesFailed

definition SignPrefix :: gostring where
  "SignPrefix = str ''libp2p-pubsub:''"

definition withSignPrefix :: "gostring \<Rightarrow> gostring" where
  "withSignPrefix bytes = SignPrefix @ bytes"

definition messagePubKey :: "crypto \<Rightarrow> pb_Message \<Rightarrow> sign_error + nat" where
  "messagePubKey cr m =
     (case cr_IDFromBytes cr (bytes_of (m_From m)) of
        None \<Rightarrow> Inl BadID
      | Some pid \<Rightarrow>
          (case m_Key m of
             None \<Rightarrow>
               (case cr_ExtractPublicKey cr pid of
                  None \<Rightarrow> Inl ExtractFailed
                | Some None \<Rightarrow> Inl CannotExtract
                | Some (Some pubk) \<Rightarrow> Inr pubk)
           | Some key \<Rightarrow>
               (case cr_UnmarshalPublicKey cr key of
                  None \<Rightarrow> Inl UnmarshalFailed
                | Some pubk \<Rightarrow>
                    if \<not> cr_MatchesPublicKey cr pid pubk then Inl (BadSigningKey pid) else Inr pubk)))"

definition verifyMessageSignature :: "crypto \<Rightarrow> pb_Message \<Rightarrow> (sign_error + unit) option" where
  "verifyMessageSignature cr m =
     (case messagePubKey cr m of
        Inl e \<Rightarrow> Some (Inl e)
      | Inr pubk \<Rightarrow>
          (let xm = m\<lparr>m_Signature := None, m_Key := None\<rparr>
           in case Message_Marshal xm of
                None \<Rightarrow> None
              | Some bytes \<Rightarrow>
                  Some (case cr_Verify cr pubk (withSignPrefix bytes) (bytes_of (m_Signature m)) of
                          None \<Rightarrow> Inl VerifyFailed
                        | Some valid \<Rightarrow> if \<not> valid then Inl InvalidSignature else Inr ())))"

definition signMessage :: "crypto \<Rightarrow> peer \<Rightarrow> nat \<Rightarrow> pb_Message \<Rightarrow> (sign_error + pb_Message) option" where
  "signMessage cr pid key m =
     (case Message_Marshal m of
        None \<Rightarrow> None
      | Some bytes \<Rightarrow>
          Some (case cr_Sign cr key (withSignPrefix bytes) of
                  None \<Rightarrow> Inl SignFailed
                | Some sig \<Rightarrow>
                    let m = m\<lparr>m_Signature := Some sig\<rparr>;
                        pk = (case cr_ExtractPublicKey cr pid of None \<Rightarrow> None | Some pk \<Rightarrow> pk)
                    in if pk = None
                       then (case cr_Bytes cr (cr_GetPublic cr key) of
                               None \<Rightarrow> Inl KeyBytesFailed
                             | Some pubk \<Rightarrow> Inr (m\<lparr>m_Key := Some pubk\<rparr>))
                       else Inr m))"

text \<open>The check the validation pipeline makes: \<open>verifyMessageSignature\<close> returned nil.\<close>

definition verified :: "crypto \<Rightarrow> pb_Message \<Rightarrow> bool" where
  "verified cr m \<longleftrightarrow> verifyMessageSignature cr m = Some (Inr ())"

text \<open>
  What the packages document: a signature made with a private key verifies under its public key, the bytes
  of a public key can be read back, and an identifier that embeds a key matches only that key.
\<close>

definition crypto_ok :: "crypto \<Rightarrow> bool" where
  "crypto_ok cr \<longleftrightarrow>
     (\<forall>key data sig. cr_Sign cr key data = Some sig \<longrightarrow> cr_Verify cr (cr_GetPublic cr key) data sig = Some True) \<and>
     (\<forall>pubk bytes. cr_Bytes cr pubk = Some bytes \<longrightarrow> cr_UnmarshalPublicKey cr bytes = Some pubk) \<and>
     (\<forall>pid pubk pubk'. cr_ExtractPublicKey cr pid = Some (Some pubk) \<longrightarrow>
        cr_MatchesPublicKey cr pid pubk' \<longrightarrow> pubk' = pubk)"

section \<open>Lemmas\<close>

abbreviation payload :: "pb_Message \<Rightarrow> pb_Message" where
  "payload m \<equiv> m\<lparr>m_Signature := None, m_Key := None\<rparr>"

lemma Marshal_eq: "Message_Marshal m = Some (Message_MarshalTo m)"
  by (simp add: Message_Marshal_def length_MarshalTo Let_def)

text \<open>Neither function panics: each returns an error or a result.\<close>

lemma sign_total: "\<exists>r. signMessage cr pid key m = Some r"
  by (simp add: signMessage_def Marshal_eq)

lemma verify_total: "\<exists>r. verifyMessageSignature cr m = Some r"
  by (auto simp: verifyMessageSignature_def Marshal_eq Let_def split: sum.splits)

lemma verified_iff:
  "verified cr m \<longleftrightarrow>
     (\<exists>pubk. messagePubKey cr m = Inr pubk \<and>
        cr_Verify cr pubk (withSignPrefix (Message_MarshalTo (payload m))) (bytes_of (m_Signature m)) = Some True)"
  by (auto simp: verified_def verifyMessageSignature_def Marshal_eq Let_def split: sum.splits option.splits)

lemma signMessage_cases:
  assumes "signMessage cr pid key m = Some (Inr m')"
  obtains sig where "cr_Sign cr key (withSignPrefix (Message_MarshalTo m)) = Some sig"
    "(\<exists>pubk. cr_ExtractPublicKey cr pid = Some (Some pubk)) \<and> m' = m\<lparr>m_Signature := Some sig\<rparr> \<or>
     (\<exists>b. cr_Bytes cr (cr_GetPublic cr key) = Some b \<and> m' = m\<lparr>m_Signature := Some sig, m_Key := Some b\<rparr>)"
  using assms by (auto simp: signMessage_def Marshal_eq Let_def split: option.splits if_splits)

section \<open>Properties\<close>

lemma sign_verifies_payload:
  assumes cr: "crypto_ok cr" and pid: "cr_IDFromBytes cr pid = Some pid" "cr_MatchesPublicKey cr pid (cr_GetPublic cr key)"
    and m: "GetFrom m = pid" "m_Signature m = None" "m_Key m = None"
    and signed: "signMessage cr pid key m = Some (Inr m')"
  shows "verifyMessageSignature cr m' = Some (Inr ()) \<and> payload m' = m"
proof -
  have plain: "payload m = m" using m by simp
  obtain sig where sig: "cr_Sign cr key (withSignPrefix (Message_MarshalTo m)) = Some sig"
    and m': "(\<exists>pubk. cr_ExtractPublicKey cr pid = Some (Some pubk)) \<and> m' = m\<lparr>m_Signature := Some sig\<rparr> \<or>
      (\<exists>b. cr_Bytes cr (cr_GetPublic cr key) = Some b \<and> m' = m\<lparr>m_Signature := Some sig, m_Key := Some b\<rparr>)"
    by (rule signMessage_cases [OF signed])
  have same: "payload m' = m" and sig': "bytes_of (m_Signature m') = sig" and author: "bytes_of (m_From m') = pid"
    using m' m plain by (auto simp: bytes_of_def GetFrom_def)
  have embedded: "pubk = cr_GetPublic cr key" if "cr_ExtractPublicKey cr pid = Some (Some pubk)" for pubk
    using cr pid(2) that unfolding crypto_ok_def by metis
  have attached: "cr_UnmarshalPublicKey cr b = Some pubk" if "cr_Bytes cr pubk = Some b" for b pubk
    using cr that unfolding crypto_ok_def by metis
  have "messagePubKey cr m' = Inr (cr_GetPublic cr key)"
    using m' author pid m(3) by (auto simp: messagePubKey_def embedded attached)
  moreover have "cr_Verify cr (cr_GetPublic cr key) (withSignPrefix (Message_MarshalTo m)) sig = Some True"
    using cr sig by (simp add: crypto_ok_def)
  ultimately have "verified cr m'" using same sig' by (auto simp: verified_iff)
  with same show ?thesis by (simp add: verified_def)
qed

lemmas sign_verifies = sign_verifies_payload [THEN conjunct1]

text \<open>
  C17: what \<open>signMessage\<close> signs, \<open>verifyMessageSignature\<close> accepts: a fresh message of an author whose
  identifier matches the signing key verifies after it was signed, and signing changed nothing but the
  signature and the key.
\<close>

theorem sign_verify:
  assumes cr: "crypto_ok cr" and pid: "cr_IDFromBytes cr pid = Some pid" "cr_MatchesPublicKey cr pid (cr_GetPublic cr key)"
    and m: "GetFrom m = pid" "m_Signature m = None" "m_Key m = None"
    and signed: "signMessage cr pid key m = Some (Inr m')"
  shows "verifyMessageSignature cr m' = Some (Inr ()) \<and> payload m' = m"
  by (rule sign_verifies_payload [OF assms])

text \<open>
  A crypto package for the witnesses: the public key of a private key is its double, a key's bytes its
  residue, a signature repeats the key and the data.
\<close>

definition sample_crypto :: crypto where
  "sample_crypto =
     \<lparr>cr_IDFromBytes = Some, cr_ExtractPublicKey = (\<lambda>pid. Some (if length pid = 1 then Some (2 * unat (hd pid)) else None)),
      cr_UnmarshalPublicKey = (\<lambda>b. case b of [x] \<Rightarrow> Some (unat x) | _ \<Rightarrow> None),
      cr_MatchesPublicKey = (\<lambda>pid k. pid \<noteq> [] \<and> k = 2 * unat (hd pid)),
      cr_Verify = (\<lambda>k data sig. Some (sig = of_nat k # data)),
      cr_Sign = (\<lambda>k data. Some (of_nat (2 * k) # data)), cr_GetPublic = (\<lambda>k. 2 * k),
      cr_Bytes = (\<lambda>k. if k < 256 then Some [of_nat k] else None)\<rparr>"

lemma sample_crypto_ok: "crypto_ok sample_crypto"
  by (auto simp: crypto_ok_def sample_crypto_def unsigned_of_nat take_bit_nat_eq_self split: if_splits)

theorem sign_verify_witness:
  "\<exists>m'. signMessage sample_crypto [7, 1] 7 (text_msg [7, 1] (PutUint64 5) [str ''art'']) = Some (Inr m') \<and> m_Key m' = Some [14] \<and>
     verifyMessageSignature sample_crypto m' = Some (Inr ())"
proof -
  let ?m = "text_msg [7, 1] (PutUint64 5) [str ''art'']"
  obtain m' where m': "signMessage sample_crypto [7, 1] 7 ?m = Some (Inr m')" "m_Key m' = Some [14]"
    by (simp add: signMessage_def Marshal_eq sample_crypto_def)
  have "verifyMessageSignature sample_crypto m' = Some (Inr ()) \<and> payload m' = ?m"
    by (rule sign_verify [OF sample_crypto_ok _ _ _ _ _ m'(1)]) (simp_all add: sample_crypto_def text_msg_def GetFrom_def bytes_of_def)
  with m' show ?thesis by blast
qed

text \<open>
  A message that verifies carries a payload its author's key signed. If every signature that key
  accepts is one made for a message of \<open>Signed key\<close>, then author, data, sequence number and topics (in
  their order) of the verified message are those of a message of \<open>Signed key\<close>: nothing of it was changed on
  the way.
\<close>

lemma verified_payload:
  assumes "verifyMessageSignature cr m = Some (Inr ())" "messagePubKey cr m = Inr key"
    and unforged: "\<And>data sig. cr_Verify cr key data sig = Some True \<Longrightarrow>
      \<exists>m0 \<in> Signed key. data = withSignPrefix (Message_MarshalTo (payload m0)) \<and> m_unrec m0 = []"
    and m: "m_unrec m = []" "Message_Size m < 2 ^ 63"
  shows "\<exists>m0 \<in> Signed key. m_From m0 = m_From m \<and> m_Data m0 = m_Data m \<and> m_Seqno m0 = m_Seqno m \<and>
    m_TopicIDs m0 = m_TopicIDs m"
proof -
  have "cr_Verify cr key (withSignPrefix (Message_MarshalTo (payload m))) (bytes_of (m_Signature m)) = Some True"
    using assms(1,2) verified_iff [of cr m] by (auto simp: verified_def)
  from unforged [OF this] obtain m0 where m0: "m0 \<in> Signed key" "m_unrec m0 = []"
    and eq: "withSignPrefix (Message_MarshalTo (payload m)) = withSignPrefix (Message_MarshalTo (payload m0))"
    by blast
  from eq have bytes: "Message_MarshalTo (payload m) = Message_MarshalTo (payload m0)" by (simp add: withSignPrefix_def)
  have "Message_Size (payload m) \<le> Message_Size m" by (simp add: Message_Size_def size_opt_def)
  then have same: "payload m = payload m0"
    using m0 m bytes by (intro MarshalTo_inj) auto
  have "m_From m0 = m_From m \<and> m_Data m0 = m_Data m \<and> m_Seqno m0 = m_Seqno m \<and> m_TopicIDs m0 = m_TopicIDs m"
    using arg_cong [OF same, of m_From] arg_cong [OF same, of m_Data] arg_cong [OF same, of m_Seqno]
      arg_cong [OF same, of m_TopicIDs] by simp
  with m0 show ?thesis by blast
qed

text \<open>
  A message keeps the slice its data was given in. When the caller overwrites the slice after the message was
  signed (as the loop of \<open>publish\<close> in \<open>src/pubsub.go\<close> does with its first byte) the message does not verify any
  more, if no signature fits two different contents.
\<close>

lemma overwritten_data_rejected:
  assumes "verified cr m" "m_Data m = Some (b # bs)" "b' \<noteq> b" "m_unrec m = []" "Message_Size m < 2 ^ 63"
    and binding: "\<And>key d d' sig. cr_Verify cr key d sig = Some True \<Longrightarrow> cr_Verify cr key d' sig = Some True \<Longrightarrow> d = d'"
  shows "\<not> verified cr (m\<lparr>m_Data := Some (b' # bs)\<rparr>)"
proof
  let ?m' = "m\<lparr>m_Data := Some (b' # bs)\<rparr>"
  assume v: "verified cr ?m'"
  obtain key where "messagePubKey cr m = Inr key"
    "cr_Verify cr key (withSignPrefix (Message_MarshalTo (payload m))) (bytes_of (m_Signature m)) = Some True"
    using assms(1) by (auto simp: verified_iff)
  moreover have "messagePubKey cr ?m' = messagePubKey cr m" by (simp add: messagePubKey_def cong: option.case_cong)
  ultimately have "withSignPrefix (Message_MarshalTo (payload m)) = withSignPrefix (Message_MarshalTo (payload ?m'))"
    using v binding unfolding verified_iff [of cr ?m'] by fastforce
  then have bytes: "Message_MarshalTo (payload m) = Message_MarshalTo (payload ?m')" by (simp add: withSignPrefix_def)
  have "Message_Size (payload m) \<le> Message_Size m" by (simp add: Message_Size_def size_opt_def)
  then have "payload m = payload ?m'" using bytes assms(4,5) by (intro MarshalTo_inj) auto
  from arg_cong [OF this, of m_Data] assms(2,3) show False by simp
qed

text \<open>A package whose keys have signed one message only.\<close>

definition one_signature :: crypto where
  "one_signature = sample_crypto\<lparr>cr_Verify := \<lambda>k data sig.
     Some (sig = [1] \<and> data = withSignPrefix (Message_MarshalTo (text_msg [7] (PutUint64 5) [[3], []])))\<rparr>"

lemma payload_text: "payload (text_msg a b c) = text_msg a b c"
  by (simp add: text_msg_def)

end
