(* ===== verification/Api.thy ===== *)
theory Api
  imports PubSubSafety PipelineInv Signing
begin

text \<open>
  The exported functions of \<open>pubsub.go\<close>: \<open>NewPubSub\<close> with its options and the constructors of the routers,
  \<open>Publish\<close>, and the requests to the process loop. What the host, the runtime and the time cache's
  constructor supply is the record \<open>env\<close>; \<open>e_blacklist\<close> is the result of \<open>NewMapBlacklist()\<close>, unless the
  model is used with another blacklist. A request is the input the loop receives; its response is the value
  the case of the loop returns.
\<close>

section \<open>Creating a node\<close>

record host =
  h_ID :: peer
  h_PrivKey :: "peer \<Rightarrow> nat option"

record ('s, 'b) env =
  e_host :: host
  e_timecache :: 's
  e_blacklist :: 'b
  e_numCPU :: int
  e_UnixNano :: int
  e_choices :: "nat list"

definition newPS :: "('s, 'b) env \<Rightarrow> 'z \<Rightarrow> ('s, 'b, 'z) node_scheme" where
  "newPS ev rt_state =
     \<lparr>n_counter = of_int (e_UnixNano ev), n_host = h_ID (e_host ev), n_val = newValidation (e_numCPU ev),
      n_myTopics = mempty, n_subs = mempty, n_topics = mempty, n_sendMsg = make_chan 32,
      n_blacklist = e_blacklist ev, n_peers = mempty, n_seen = e_timecache ev,
      n_signKey = h_PrivKey (e_host ev) (h_ID (e_host ev)), n_signID = h_ID (e_host ev), n_signStrict = True,
      n_async = [], n_waiting = [], n_published = [], n_retries = [], n_spawned = [], n_tags = [],
      n_clock = e_UnixNano ev, n_choices = e_choices ev, \<dots> = rt_state\<rparr>"

definition WithMessageSigning ::
  "host \<Rightarrow> bool \<Rightarrow> ('s, 'b, 'z) node_scheme \<Rightarrow> option_error + ('s, 'b, 'z) node_scheme" where
  "WithMessageSigning h enabled p =
     (if enabled
      then let p = p\<lparr>n_signKey := h_PrivKey h (n_signID p)\<rparr>
           in if n_signKey p = None then Inl (NoPrivateKey (n_signID p)) else Inr p
      else Inr (p\<lparr>n_signKey := None, n_signStrict := False\<rparr>))"

definition WithMessageAuthor ::
  "host \<Rightarrow> peer \<Rightarrow> ('s, 'b, 'z) node_scheme \<Rightarrow> option_error + ('s, 'b, 'z) node_scheme" where
  "WithMessageAuthor h author p =
     (let author = (if author = [] then h_ID h else author)
      in if n_signKey p \<noteq> None
         then (case h_PrivKey h author of
                 None \<Rightarrow> Inl (NoPrivateKey (n_signID p))
               | Some newSignKey \<Rightarrow> Inr (p\<lparr>n_signKey := Some newSignKey, n_signID := author\<rparr>))
         else Inr (p\<lparr>n_signID := author\<rparr>))"

definition WithStrictSignatureVerification ::
  "bool \<Rightarrow> ('s, 'b, 'z) node_scheme \<Rightarrow> option_error + ('s, 'b, 'z) node_scheme" where
  "WithStrictSignatureVerification required p = Inr (p\<lparr>n_signStrict := required\<rparr>)"

definition WithBlacklist :: "'b \<Rightarrow> ('s, 'b, 'z) node_scheme \<Rightarrow> option_error + ('s, 'b, 'z) node_scheme" where
  "WithBlacklist b p = Inr (p\<lparr>n_blacklist := b\<rparr>)"

text \<open>The options the package offers.\<close>

datatype 'b ps_option =
    MessageSigning bool | MessageAuthor peer | StrictSignatureVerification bool | UseBlacklist 'b
  | ValidateThrottle int | ValidateWorkers int

definition run_option ::
  "host \<Rightarrow> 'b ps_option \<Rightarrow> ('s, 'b, 'z) node_scheme \<Rightarrow> (option_error + ('s, 'b, 'z) node_scheme) option" where
  "run_option h opt p =
     (case opt of
        MessageSigning enabled \<Rightarrow> Some (WithMessageSigning h enabled p)
      | MessageAuthor author \<Rightarrow> Some (WithMessageAuthor h author p)
      | StrictSignatureVerification required \<Rightarrow> Some (WithStrictSignatureVerification required p)
      | UseBlacklist b \<Rightarrow> Some (WithBlacklist b p)
      | ValidateThrottle n \<Rightarrow>
          (case WithValidateThrottle n (n_val p) of None \<Rightarrow> None | Some v \<Rightarrow> Some (Inr (p\<lparr>n_val := v\<rparr>)))
      | ValidateWorkers n \<Rightarrow>
          Some (case WithValidateWorkers n (n_val p) of Inl e \<Rightarrow> Inl e | Inr v \<Rightarrow> Inr (p\<lparr>n_val := v\<rparr>)))"

fun run_options ::
  "host \<Rightarrow> 'b ps_option list \<Rightarrow> ('s, 'b, 'z) node_scheme \<Rightarrow> (option_error + ('s, 'b, 'z) node_scheme) option" where
  "run_options h [] p = Some (Inr p)"
| "run_options h (opt # opts) p =
     (case run_option h opt p of
        None \<Rightarrow> None
      | Some (Inl err) \<Rightarrow> Some (Inl err)
      | Some (Inr p) \<Rightarrow> run_options h opts p)"

text \<open>
  A started node, the protocols its stream handler \<open>handleNewStream\<close> is registered for, and the number of
  validation workers (\<open>val.Start\<close>).
\<close>

definition NewPubSub ::
  "('s, 'b) env \<Rightarrow> ('s, 'b, 'z) router_methods \<Rightarrow> 'z \<Rightarrow> 'b ps_option list \<Rightarrow>
   (option_error + ('s, 'b, 'z) node_scheme \<times> protocol list \<times> nat) option" where
  "NewPubSub ev rt rt_state opts =
     (case run_options (e_host ev) opts (newPS ev rt_state) of
        None \<Rightarrow> None
      | Some (Inl err) \<Rightarrow> Some (Inl err)
      | Some (Inr ps) \<Rightarrow>
          if n_signStrict ps \<and> n_signKey ps = None then Some (Inl StrictWithoutKey)
          else Some (Inr (ps, rt_Protocols rt ps, nat (v_workers (n_val ps)))))"

definition NewFloodsubWithProtocols where
  "NewFloodsubWithProtocols ev protos opts = NewPubSub ev floodsub_router (floodsub.fields protos) opts"

definition NewFloodSub where
  "NewFloodSub ev opts = NewFloodsubWithProtocols ev [FloodSubID] opts"

definition NewRandomSub where
  "NewRandomSub ev opts = NewPubSub ev randomsub_router (randomsub.fields mempty) opts"

definition NewGossipSub where
  "NewGossipSub tc ev opts = NewPubSub ev (gossipsub_router tc) gs_new opts"

section \<open>Publishing\<close>

definition nextSeqno :: "('s, 'b, 'z) node_scheme \<Rightarrow> gostring \<times> ('s, 'b, 'z) node_scheme" where
  "nextSeqno p = (let counter = n_counter p + 1 in (PutUint64 counter, p\<lparr>n_counter := counter\<rparr>))"

text \<open>The message for the loop's channel \<open>publish\<close>, or the error; \<open>None\<close> is a panic.\<close>

definition Publish ::
  "crypto \<Rightarrow> topic \<Rightarrow> gostring option \<Rightarrow> ('s, 'b, 'z) node_scheme \<Rightarrow>
   (sign_error + pb_Message) option \<times> ('s, 'b, 'z) node_scheme" where
  "Publish cr topic data p =
     (let (seqno, p) = nextSeqno p;
          m = \<lparr>m_From = Some (n_host p), m_Data = data, m_Seqno = Some seqno, m_TopicIDs = [topic],
               m_Signature = None, m_Key = None, m_unrec = []\<rparr>
      in (case n_signKey p of
            None \<Rightarrow> Some (Inr m)
          | Some key \<Rightarrow> signMessage cr (n_signID p) key (m\<lparr>m_From := Some (n_signID p)\<rparr>), p))"

section \<open>Requests\<close>

datatype mode = ModeNone | ModeKey | ModeWot

record TopicDescriptor =
  td_Name :: "gostring option"
  td_Auth :: "mode option option"
  td_Enc :: "mode option option"

definition GetMode :: "mode option option \<Rightarrow> mode" where
  "GetMode opts = (case opts of Some (Some m) \<Rightarrow> m | _ \<Rightarrow> ModeNone)"

datatype subscribe_error = AuthNotSupported | EncNotSupported

definition SubscribeByTopicDescriptor :: "TopicDescriptor \<Rightarrow> subscribe_error + loop_event" where
  "SubscribeByTopicDescriptor td =
     (if GetMode (td_Auth td) \<noteq> ModeNone then Inl AuthNotSupported
      else if GetMode (td_Enc td) \<noteq> ModeNone then Inl EncNotSupported
      else Inr (AddSub (bytes_of (td_Name td))))"

definition Subscribe :: "topic \<Rightarrow> subscribe_error + loop_event" where
  "Subscribe topic = SubscribeByTopicDescriptor \<lparr>td_Name = Some topic, td_Auth = None, td_Enc = None\<rparr>"

definition ListPeers :: "topic \<Rightarrow> loop_event" where "ListPeers topic = GetPeers topic"

definition RegisterTopicValidator :: "topic \<Rightarrow> Validator \<Rightarrow> (addValReq \<Rightarrow> addValReq) list \<Rightarrow> loop_event" where
  "RegisterTopicValidator topic val opts =
     AddVal (fold (\<lambda>opt. opt) opts
       \<lparr>av_topic = topic, av_validate = val, av_timeout = 0, av_throttle = 0, av_inline = False\<rparr>)"

definition UnregisterTopicValidator :: "topic \<Rightarrow> loop_event" where
  "UnregisterTopicValidator topic = RmVal topic"

text \<open>The other requests only put their argument on a channel of the loop; a subscription is its heap index.\<close>

definition request_GetTopics :: loop_event where "request_GetTopics = GetTopics"

definition request_BlacklistPeer :: "peer \<Rightarrow> loop_event" where "request_BlacklistPeer pid = BlacklistPeer pid"

definition Cancel :: "nat \<Rightarrow> loop_event" where "Cancel i = CancelSub i"

definition Topic :: "Subscription \<Rightarrow> topic" where "Topic sub = s_topic sub"

section \<open>Lemmas\<close>

text \<open>What the options keep: the initial state is a good one and the signing key is the author's.\<close>

definition fresh_node :: "host \<Rightarrow> 'b blacklist_methods \<Rightarrow> ('s, 'b, 'z) node_scheme \<Rightarrow> bool" where
  "fresh_node h bl st \<longleftrightarrow>
     (\<forall>key. n_signKey st = Some key \<longrightarrow> h_PrivKey h (n_signID st) = Some key) \<and>
     n_peers st = mempty \<and> n_subs st = mempty \<and> n_myTopics st = mempty \<and> n_topics st = mempty \<and>
     n_published st = [] \<and> n_async st = [] \<and> n_waiting st = [] \<and> n_sendMsg st = make_chan 32 \<and>
     v_heap (n_val st) = [] \<and> ch_buf (v_validateQ (n_val st)) = [] \<and> th_used (v_throttle (n_val st)) = 0 \<and>
     val_inv (n_val st)"

lemma fresh_newPS: "fresh_node (e_host ev) bl (newPS ev z)"
  using val_inv_new by (simp add: fresh_node_def newPS_def) (simp add: newValidation_def make_chan_def)

lemma fresh_option:
  assumes "fresh_node h bl p" "run_option h opt p = Some (Inr p')"
  shows "fresh_node h bl p' \<and> node.more p' = node.more p \<and> n_host p' = n_host p \<and> n_counter p' = n_counter p \<and> n_seen p' = n_seen p"
  using assms
  by (cases opt)
    (auto simp: run_option_def fresh_node_def WithMessageSigning_def WithMessageAuthor_def
      WithStrictSignatureVerification_def WithBlacklist_def WithValidateThrottle_def WithValidateWorkers_def
      Let_def val_inv_def throttle_ok_def split: if_splits option.splits)

lemma fresh_options:
  assumes "fresh_node h bl p" "run_options h opts p = Some (Inr p')"
  shows "fresh_node h bl p' \<and> node.more p' = node.more p \<and> n_host p' = n_host p \<and> n_counter p' = n_counter p \<and> n_seen p' = n_seen p"
  using assms
proof (induction opts arbitrary: p)
  case (Cons opt opts)
  then obtain q where "run_option h opt p = Some (Inr q)" "run_options h opts q = Some (Inr p')"
    by (auto split: option.splits sum.splits)
  with Cons fresh_option [of h bl p opt q] show ?case by auto
qed simp

lemma NewPubSub_fresh:
  assumes "NewPubSub ev rt z opts = Some (Inr (st, protos, workers))"
  shows "fresh_node (e_host ev) bl st \<and> node.more st = z \<and> n_host st = h_ID (e_host ev) \<and> n_seen st = e_timecache ev \<and>
    (n_signStrict st \<longrightarrow> n_signKey st \<noteq> None)"
proof -
  have "run_options (e_host ev) opts (newPS ev z) = Some (Inr st)" and "\<not> (n_signStrict st \<and> n_signKey st = None)"
    using assms by (auto simp: NewPubSub_def split: option.splits sum.splits if_splits)
  with fresh_options [OF fresh_newPS this(1), of bl] show ?thesis by (simp add: newPS_def)
qed

lemma fresh_inv: assumes "fresh_node h bl st" shows "node_inv bl pipe_ok st"
proof -
  have "subs_ok mempty mempty" by (auto simp: subs_ok_def mlen_card)
  moreover have "pipe_ok (pipe_of st)"
    using assms by (simp add: fresh_node_def pipe_ok_def tokens_ok_def chan_ok_def make_chan_def)
  ultimately show ?thesis
    using assms by (simp add: node_inv_def fresh_node_def peers_ok_def no_blacklisted_def)
qed

text \<open>The author of the messages a node publishes.\<close>

definition author_of :: "('s, 'b, 'z) node_scheme \<Rightarrow> peer" where
  "author_of p = (if n_signKey p = None then n_host p else n_signID p)"

lemma Publish_message:
  assumes "Publish cr topic data p = (r, p')"
  shows "p' = p\<lparr>n_counter := n_counter p + 1\<rparr> \<and>
    (\<forall>m. r = Some (Inr m) \<longrightarrow> m_From m = Some (author_of p) \<and> m_Data m = data \<and>
       m_Seqno m = Some (PutUint64 (n_counter p + 1)) \<and> m_TopicIDs m = [topic] \<and>
       (m_Signature m = None \<longleftrightarrow> n_signKey p = None))"
  using assms
  by (auto simp: Publish_def nextSeqno_def author_of_def Let_def split: option.splits elim!: signMessage_cases)

text \<open>Successive calls.\<close>

fun Publish_all ::
  "crypto \<Rightarrow> (topic \<times> gostring option) list \<Rightarrow> ('s, 'b, 'z) node_scheme \<Rightarrow>
   (sign_error + pb_Message) option list \<times> ('s, 'b, 'z) node_scheme" where
  "Publish_all cr [] p = ([], p)"
| "Publish_all cr ((topic, data) # ms) p =
     (let (r, p) = Publish cr topic data p; (rs, p) = Publish_all cr ms p in (r # rs, p))"

definition sent_messages :: "(sign_error + pb_Message) option list \<Rightarrow> pb_Message list" where
  "sent_messages = List.map_filter (\<lambda>r. case r of Some (Inr m) \<Rightarrow> Some m | _ \<Rightarrow> None)"

lemma sent_messages_Cons:
  "sent_messages (r # rs) = (case r of Some (Inr m) \<Rightarrow> m # sent_messages rs | _ \<Rightarrow> sent_messages rs)"
  by (simp add: sent_messages_def List.map_filter_simps split: option.split sum.split)

lemma Publish_all_ids:
  assumes "Publish_all cr ms p = (rs, p')" "m \<in> set (sent_messages rs)"
  shows "\<exists>k < length ms. msgID m = author_of p @ PutUint64 (n_counter p + 1 + of_nat k)"
  using assms
proof (induction ms arbitrary: p rs)
  case Nil
  then show ?case by (simp add: sent_messages_def List.map_filter_simps)
next
  case (Cons x ms)
  obtain topic data where x: "x = (topic, data)" by fastforce
  obtain r p1 where r: "Publish cr topic data p = (r, p1)" by fastforce
  obtain rs1 where rs1: "Publish_all cr ms p1 = (rs1, p')" "rs = r # rs1"
    using Cons.prems(1) x r by (auto split: prod.splits)
  have p1: "n_counter p1 = n_counter p + 1" "author_of p1 = author_of p"
    using Publish_message [OF r] by (auto simp: author_of_def)
  show ?case
  proof (cases "r = Some (Inr m)")
    case True
    then have "msgID m = author_of p @ PutUint64 (n_counter p + 1 + of_nat 0)"
      using Publish_message [OF r] by (simp add: msgID_def GetFrom_def GetSeqno_def bytes_of_def)
    then show ?thesis by blast
  next
    case False
    then have "m \<in> set (sent_messages rs1)"
      using Cons.prems(2) rs1(2) by (auto simp: sent_messages_Cons split: option.splits sum.splits)
    from Cons.IH [OF rs1(1) this] p1
    obtain k where "k < length ms" "msgID m = author_of p @ PutUint64 (n_counter p + 1 + 1 + of_nat k)" by auto
    then show ?thesis by (intro exI [of _ "Suc k"]) (simp add: algebra_simps)
  qed
qed

section \<open>Properties\<close>

text \<open>
  A node that was created never demands signatures without being able to sign, whatever options were
  given in whatever order, and the key it signs with is the one the host keeps for the author its messages
  name.
\<close>

lemma NewPubSub_keys:
  assumes "NewPubSub ev rt rt_state opts = Some (Inr (ps, protos, workers))"
  shows "(n_signStrict ps \<longrightarrow> n_signKey ps \<noteq> None) \<and>
    (\<forall>key. n_signKey ps = Some key \<longrightarrow> h_PrivKey (e_host ev) (author_of ps) = Some key)"
  using NewPubSub_fresh [OF assms] by (auto simp: fresh_node_def author_of_def)

definition sample_env :: "(unit, MapBlacklist) env" where
  "sample_env =
     \<lparr>e_host = \<lparr>h_ID = [7], h_PrivKey = (\<lambda>p. if length p = 1 then Some (unat (hd p)) else None)\<rparr>,
      e_timecache = (), e_blacklist = NewMapBlacklist, e_numCPU = 4, e_UnixNano = 1000, e_choices = []\<rparr>"

text \<open>
  C30: the messages a node publishes have pairwise different identifiers, up to \<open>2 ^ 64\<close> of them, whatever
  the counter started with: it wraps around, but only after all numbers were used.
\<close>

theorem published_ids_distinct:
  assumes "Publish_all cr ms p = (rs, p')" "length ms \<le> 2 ^ 64"
  shows "distinct (map msgID (sent_messages rs))"
  using assms
proof (induction ms arbitrary: p rs)
  case Nil
  then show ?case by (simp add: sent_messages_def List.map_filter_simps)
next
  case (Cons x ms)
  obtain topic data where x: "x = (topic, data)" by fastforce
  obtain r p1 where r: "Publish cr topic data p = (r, p1)" by fastforce
  obtain rs1 where rs1: "Publish_all cr ms p1 = (rs1, p')" "rs = r # rs1"
    using Cons.prems(1) x r by (auto split: prod.splits)
  have p1: "n_counter p1 = n_counter p + 1" "author_of p1 = author_of p"
    using Publish_message [OF r] by (auto simp: author_of_def)
  have "msgID m' \<noteq> msgID m" if now: "r = Some (Inr m)" and later: "m' \<in> set (sent_messages rs1)" for m m'
  proof
    assume eq: "msgID m' = msgID m"
    obtain k where k: "k < length ms" "msgID m' = author_of p @ PutUint64 (n_counter p + 1 + 1 + of_nat k)"
      using Publish_all_ids [OF rs1(1) later] p1 by auto
    have "msgID m = author_of p @ PutUint64 (n_counter p + 1)"
      using Publish_message [OF r] now by (simp add: msgID_def GetFrom_def GetSeqno_def bytes_of_def)
    with eq k(2) have "n_counter p + 1 + 1 + of_nat k = n_counter p + 1" by (simp add: PutUint64_inj)
    then have "of_nat (Suc k) = (0 :: 64 word)" by (simp add: algebra_simps)
    then have "2 ^ 64 dvd Suc k" by (simp only: word_of_nat_eq_0_iff) simp
    with k(1) Cons.prems(2) show False by (auto dest: dvd_imp_le)
  qed
  then have "r = Some (Inr m) \<Longrightarrow> msgID m \<notin> msgID ` set (sent_messages rs1)" for m by (metis image_iff)
  moreover have "distinct (map msgID (sent_messages rs1))" using Cons.IH [OF rs1(1)] Cons.prems(2) by simp
  ultimately have "distinct (map msgID (sent_messages (r # rs1)))"
    by (simp add: sent_messages_Cons split: option.split sum.split)
  with rs1(2) show ?case by simp
qed

theorem published_ids_distinct_witness:
  "distinct (map msgID (sent_messages (fst (Publish_all sample_crypto [(str ''art'', Some [1]), (str ''art'', Some [1])]
     (sample_node () NewMapBlacklist ())))))"
proof -
  let ?ms = "[(str ''art'', Some [1]), (str ''art'', Some [1])]"
  obtain rs p' where p: "Publish_all sample_crypto ?ms (sample_node () NewMapBlacklist ()) = (rs, p')" by fastforce
  have "length ?ms \<le> 2 ^ 64" by simp
  from published_ids_distinct [OF p this] show ?thesis by (simp only: p fst_conv)
qed

text \<open>
  What a node that signs publishes is accepted by every strict receiver: the message is signed, the
  signature verifies, and it carries the node's author, the data and the topic of the call.
\<close>

lemma Publish_verifies:
  assumes "crypto_ok cr" "n_signKey p = Some key" "cr_IDFromBytes cr (author_of p) = Some (author_of p)"
    "cr_MatchesPublicKey cr (author_of p) (cr_GetPublic cr key)"
    and "Publish cr topic data p = (Some (Inr m), p')"
  shows "verifyMessageSignature cr m = Some (Inr ()) \<and> m_Signature m \<noteq> None \<and> GetFrom m = author_of p \<and>
    m_Data m = data \<and> m_TopicIDs m = [topic]"
proof -
  let ?m = "\<lparr>m_From = Some (author_of p), m_Data = data, m_Seqno = Some (PutUint64 (n_counter p + 1)),
    m_TopicIDs = [topic], m_Signature = None, m_Key = None, m_unrec = []\<rparr>"
  have "signMessage cr (author_of p) key ?m = Some (Inr m)"
    using assms(2,5) by (simp add: Publish_def nextSeqno_def author_of_def Let_def)
  from sign_verifies [OF assms(1,3,4) _ _ _ this] have "verifyMessageSignature cr m = Some (Inr ())"
    by (simp add: GetFrom_def bytes_of_def)
  with Publish_message [OF assms(5)] assms(2) show ?thesis by (auto simp: GetFrom_def bytes_of_def)
qed

text \<open>
  A node that does not sign ignores the author it was configured with: its messages name the host.
\<close>

lemma unsigned_author_ignored:
  assumes "NewPubSub ev rt rt_state [MessageSigning False, MessageAuthor author] = Some (Inr (ps, protos, workers))"
    "author \<noteq> []" "Publish cr topic data ps = (Some (Inr m), ps')"
  shows "n_signID ps = author \<and> GetFrom m = h_ID (e_host ev)"
proof -
  have "n_signID ps = author" "n_signKey ps = None" "n_host ps = h_ID (e_host ev)"
    using assms(1,2)
    by (auto simp: NewPubSub_def newPS_def run_option_def WithMessageSigning_def WithMessageAuthor_def Let_def
        split: if_splits)
  with Publish_message [OF assms(3)] show ?thesis by (simp add: author_of_def GetFrom_def bytes_of_def)
qed

end
