(* ===== verification/Comm.thy ===== *)
theory Comm
  imports PubSub
begin

text \<open>
  \<open>comm.go\<close> and \<open>notify.go\<close>: the goroutines between the network and the process loop. A stream's reader and
  writer belong to other packages; a goroutine is a function of what they and the scheduler answer, one
  list element per turn of its loop, and returns what it hands on and how it left the stream. A run that is
  not over yet is the run on a shorter list. A send on a channel of the loop either succeeds or loses
  against \<open>ctx.Done()\<close>, which its Boolean tells.
\<close>

section \<open>Definitions\<close>

text \<open>\<open>r.ReadMsg(&rpc.RPC)\<close> and the fate of the stream.\<close>

datatype read_result = ReadMsg pb_RPC | ReadEOF | ReadError

datatype stream_end = Open | Closed | Reset

definition from_remote :: "peer \<Rightarrow> pb_RPC \<Rightarrow> RPC" where
  "from_remote remote rpc = pb_RPC.extend rpc \<lparr>r_from = remote\<rparr>"

fun handleNewStream :: "peer \<Rightarrow> (read_result \<times> bool) list \<Rightarrow> RPC list \<times> stream_end" where
  "handleNewStream remote [] = ([], Open)"
| "handleNewStream remote ((ReadError, _) # rs) = ([], Reset)"
| "handleNewStream remote ((ReadEOF, _) # rs) = ([], Closed)"
| "handleNewStream remote ((ReadMsg rpc, incoming) # rs) =
     (if incoming
      then let (rpcs, s) = handleNewStream remote rs in (from_remote remote rpc # rpcs, s)
      else ([], Reset))"

text \<open>
  \<open>p.host.NewStream\<close> answers with a stream to the peer and its protocol, or an error. The result is whether
  the writer and the reader of the stream were started, and the input the loop receives. What the host's
  network will say about the peer when the loop handles \<open>peerDead\<close> is the Boolean of that input.
\<close>

datatype stream_error = ErrNotSupported | OtherError

definition handleNewPeer ::
  "peer \<Rightarrow> stream_error + protocol \<Rightarrow> bool \<Rightarrow> bool \<Rightarrow> bool \<times> loop_event option" where
  "handleNewPeer pid s connected sent =
     (case s of
        Inl err \<Rightarrow>
          (False, if sent then Some (if err = ErrNotSupported then NewPeerError pid else PeerDead pid connected)
                  else None)
      | Inr proto \<Rightarrow> (True, if sent then Some (NewPeerStream pid proto) else None))"

text \<open>Nothing is expected on the stream the node opened: messages are ignored, the end is reported.\<close>

fun handlePeerEOF :: "peer \<Rightarrow> read_result list \<Rightarrow> bool \<Rightarrow> bool \<Rightarrow> loop_event option" where
  "handlePeerEOF remote [] connected sent = None"
| "handlePeerEOF remote (ReadMsg rpc # rs) connected sent = handlePeerEOF remote rs connected sent"
| "handlePeerEOF remote (_ # rs) connected sent = (if sent then Some (PeerDead remote connected) else None)"

text \<open>
  The writer: what it receives from the queue, and whether the message could be written and flushed. The
  stream is closed in the end in any case; after an error it is reset first.
\<close>

datatype recv = Recv RPC | QueueClosed | CtxDone

fun handleSendingMessages :: "(recv \<times> bool) list \<Rightarrow> pb_RPC list \<times> stream_end" where
  "handleSendingMessages [] = ([], Open)"
| "handleSendingMessages ((Recv rpc, written) # rs) =
     (if written
      then let (ws, s) = handleSendingMessages rs in (pb_RPC.truncate rpc # ws, s)
      else ([], Reset))"
| "handleSendingMessages ((QueueClosed, _) # rs) = ([], Closed)"
| "handleSendingMessages ((CtxDone, _) # rs) = ([], Closed)"

text \<open>\<open>notify.go\<close>: a new connection is the only notification that has an effect.\<close>

definition Connected :: "peer \<Rightarrow> bool \<Rightarrow> loop_event option" where
  "Connected remote sent = (if sent then Some (NewPeer remote) else None)"

text \<open>The router's timer: the delay of the first heartbeat and the interval of the others, in nanoseconds.\<close>

definition GossipSubHeartbeatInitialDelay :: int where "GossipSubHeartbeatInitialDelay = 100 * 1000000"

definition GossipSubHeartbeatInterval :: int where "GossipSubHeartbeatInterval = 1 * 1000000000"

text \<open>
  One list element per turn: whether the ticker won against \<open>ctx.Done()\<close>, and whether the send on \<open>p.eval\<close>
  did. The result is the inputs of the loop, each with the time its tick was due.
\<close>

fun heartbeat_ticks :: "int \<Rightarrow> (bool \<times> bool) list \<Rightarrow> (int \<times> loop_event) list" where
  "heartbeat_ticks now [] = []"
| "heartbeat_ticks now ((ticked, sent) # turns) =
     (if ticked \<and> sent
      then (now, EvalHeartbeat) # heartbeat_ticks (now + GossipSubHeartbeatInterval) turns
      else [])"

definition heartbeatTimer :: "int \<Rightarrow> bool \<Rightarrow> (bool \<times> bool) list \<Rightarrow> (int \<times> loop_event) list" where
  "heartbeatTimer start sent turns =
     (let now = start + GossipSubHeartbeatInitialDelay
      in if sent then (now, EvalHeartbeat) # heartbeat_ticks (now + GossipSubHeartbeatInterval) turns else [])"

section \<open>Properties\<close>

text \<open>The heartbeats come once per interval from the first on, until the node is shut down.\<close>

lemma heartbeat_times:
  "\<exists>n. map fst (heartbeatTimer start sent turns) =
     map (\<lambda>k. start + GossipSubHeartbeatInitialDelay + int k * GossipSubHeartbeatInterval) [0 ..< n] \<and>
     (sent \<and> set turns \<subseteq> {(True, True)} \<longrightarrow> n = Suc (length turns))"
proof -
  have ticks: "\<exists>n. map fst (heartbeat_ticks (now + int i * GossipSubHeartbeatInterval) turns) =
      map (\<lambda>k. now + int k * GossipSubHeartbeatInterval) [i ..< n] \<and> i \<le> n \<and>
      (set turns \<subseteq> {(True, True)} \<longrightarrow> n = i + length turns)" for now i
  proof (induction turns arbitrary: i)
    case (Cons t turns)
    obtain n where n: "map fst (heartbeat_ticks (now + int (Suc i) * GossipSubHeartbeatInterval) turns) =
        map (\<lambda>k. now + int k * GossipSubHeartbeatInterval) [Suc i ..< n]" "Suc i \<le> n"
      "set turns \<subseteq> {(True, True)} \<longrightarrow> n = Suc i + length turns" using Cons.IH [of "Suc i"] by auto
    have next_tick: "now + int i * GossipSubHeartbeatInterval + GossipSubHeartbeatInterval =
        now + int (Suc i) * GossipSubHeartbeatInterval" by (simp add: algebra_simps)
    show ?case
    proof (cases "t = (True, True)")
      case True
      with n show ?thesis unfolding True heartbeat_ticks.simps next_tick
        by (intro exI [of _ n]) (simp add: upt_conv_Cons)
    qed (cases t; auto intro: exI [of _ i])
  qed (auto intro: exI [of _ i])
  obtain n where n: "map fst (heartbeat_ticks (start + GossipSubHeartbeatInitialDelay + int 1 * GossipSubHeartbeatInterval) turns) =
      map (\<lambda>k. start + GossipSubHeartbeatInitialDelay + int k * GossipSubHeartbeatInterval) [1 ..< n]" "1 \<le> n"
    "set turns \<subseteq> {(True, True)} \<longrightarrow> n = 1 + length turns" using ticks by blast
  show ?thesis
  proof (cases sent)
    case True
    with n show ?thesis by (intro exI [of _ n]) (simp add: heartbeatTimer_def Let_def upt_conv_Cons)
  qed (simp add: heartbeatTimer_def exI [of _ 0])
qed

definition reads_of :: "(read_result \<times> bool) list \<Rightarrow> pb_RPC list" where
  "reads_of rs = List.map_filter (\<lambda>(r, _). case r of ReadMsg rpc \<Rightarrow> Some rpc | _ \<Rightarrow> None) rs"

definition received_of :: "(recv \<times> bool) list \<Rightarrow> RPC list" where
  "received_of rs = List.map_filter (\<lambda>(r, _). case r of Recv rpc \<Rightarrow> Some rpc | _ \<Rightarrow> None) rs"

lemma truncate_from_remote [simp]: "pb_RPC.truncate (from_remote p m) = m"
  by (cases m) (simp add: from_remote_def pb_RPC.defs)

lemma r_from_remote [simp]: "r_from (from_remote p m) = p"
  by (cases m) (simp add: from_remote_def pb_RPC.defs)

lemma reads_of_simps [simp]:
  "reads_of [] = []" "reads_of ((ReadMsg m, b) # rs) = m # reads_of rs"
  "reads_of ((ReadEOF, b) # rs) = reads_of rs" "reads_of ((ReadError, b) # rs) = reads_of rs"
  by (simp_all add: reads_of_def List.map_filter_simps)

lemma received_of_simps [simp]:
  "received_of [] = []" "received_of ((Recv m, b) # rs) = m # received_of rs"
  "received_of ((QueueClosed, b) # rs) = received_of rs" "received_of ((CtxDone, b) # rs) = received_of rs"
  by (simp_all add: received_of_def List.map_filter_simps)

text \<open>
  What a peer sends reaches the loop in order, without gaps, and under the peer's own name: the messages
  handed over are the first ones read, each stamped with the identity of the connection, whatever the
  message itself says; unless the stream ended, they are all.
\<close>

lemma NewStream_prefix:
  "\<exists>n. fst (handleNewStream remote rs) = map (from_remote remote) (take n (reads_of rs)) \<and>
     (snd (handleNewStream remote rs) = Open \<longrightarrow> length (reads_of rs) \<le> n)"
proof (induction remote rs rule: handleNewStream.induct)
  case (4 remote rpc incoming rs)
  show ?case
  proof (cases incoming)
    case True
    then obtain n where "fst (handleNewStream remote rs) = map (from_remote remote) (take n (reads_of rs))"
      "snd (handleNewStream remote rs) = Open \<longrightarrow> length (reads_of rs) \<le> n" using 4 by blast
    with True show ?thesis by (intro exI [of _ "Suc n"]) (simp add: case_prod_unfold Let_def)
  qed (simp add: exI [of _ 0])
qed (simp_all add: exI [of _ 0])

definition sample_rpc :: RPC where
  "sample_rpc = rpcWithMessages [text_msg [7] [5] [[3]]]"

lemma Sending_in_order:
  "\<exists>n. fst (handleSendingMessages rs) = map pb_RPC.truncate (take n (received_of rs)) \<and>
     (snd (handleSendingMessages rs) = Open \<longrightarrow> length (received_of rs) \<le> n)"
proof (induction rs rule: handleSendingMessages.induct)
  case (2 rpc written rs)
  show ?case
  proof (cases written)
    case True
    then obtain n where "fst (handleSendingMessages rs) = map pb_RPC.truncate (take n (received_of rs))"
      "snd (handleSendingMessages rs) = Open \<longrightarrow> length (received_of rs) \<le> n" using 2 by blast
    with True show ?thesis by (intro exI [of _ "Suc n"]) (simp add: case_prod_unfold Let_def)
  qed (simp add: exI [of _ 0])
qed (simp_all add: exI [of _ 0])

text \<open>
  C29: a connection is a reliable first-in first-out link. If a peer's reader gets what this node's writer
  wrote, in that order, then the remote loop receives a prefix of the messages this node queued, in the
  order they were queued, each stamped with this node's identity; it receives all of them as long as
  neither end stopped.
\<close>

theorem link_in_order:
  assumes "reads_of rs = fst (handleSendingMessages ws)"
  shows "\<exists>n. fst (handleNewStream self rs) =
      map (\<lambda>rpc. from_remote self (pb_RPC.truncate rpc)) (take n (received_of ws)) \<and>
    (snd (handleNewStream self rs) = Open \<longrightarrow> snd (handleSendingMessages ws) = Open \<longrightarrow> length (received_of ws) \<le> n)"
proof -
  obtain k where k: "fst (handleNewStream self rs) = map (from_remote self) (take k (reads_of rs))"
    "snd (handleNewStream self rs) = Open \<longrightarrow> length (reads_of rs) \<le> k" using NewStream_prefix by blast
  obtain j where j: "fst (handleSendingMessages ws) = map pb_RPC.truncate (take j (received_of ws))"
    "snd (handleSendingMessages ws) = Open \<longrightarrow> length (received_of ws) \<le> j" using Sending_in_order by blast
  show ?thesis
    using k j assms by (intro exI [of _ "min k j"]) (auto simp: take_map)
qed

theorem link_in_order_witness:
  "\<exists>n. fst (handleNewStream [7] [(ReadMsg (pb_RPC.truncate sample_rpc), True)]) =
     map (\<lambda>rpc. from_remote [7] (pb_RPC.truncate rpc)) (take n [sample_rpc])"
  using link_in_order [of "[(ReadMsg (pb_RPC.truncate sample_rpc), True)]" "[(Recv sample_rpc, True), (QueueClosed, True)]" "[7]"]
  by auto

end
