(* ===== verification/Broadcast.thy ===== *)
theory Broadcast
  imports Node
begin

text \<open>
  The abstract specification of what a node does with messages, apart from where they go: it accepts a
  message when it is admissible and its identifier was not seen before, may lose an accepted message, and
  publishes accepted messages, once each. Publishing stands for the delivery to the local subscriptions and
  the forwarding to peers, which happen together.
\<close>

record 's broadcast =
  b_seen :: 's
  b_way :: "pb_Message multiset"
  b_published :: "pb_Message list"

inductive broadcast_step ::
  "'s seen_methods \<Rightarrow> (pb_Message \<Rightarrow> bool) \<Rightarrow> ('s \<Rightarrow> 's \<Rightarrow> bool) \<Rightarrow> 's broadcast \<Rightarrow> 's broadcast \<Rightarrow> bool"
  for tc admissible forget where
  accept: "\<not> tc_Has tc (b_seen b) (msgID m) \<Longrightarrow> admissible m \<Longrightarrow>
    broadcast_step tc admissible forget b
      (b\<lparr>b_seen := tc_Add tc (msgID m) (b_seen b), b_way := add_mset m (b_way b)\<rparr>)"
| refuse: "\<not> tc_Has tc (b_seen b) (msgID m) \<Longrightarrow>
    broadcast_step tc admissible forget b (b\<lparr>b_seen := tc_Add tc (msgID m) (b_seen b)\<rparr>)"
| lose: "m \<in># b_way b \<Longrightarrow> broadcast_step tc admissible forget b (b\<lparr>b_way := b_way b - {#m#}\<rparr>)"
| publish: "m \<in># b_way b \<Longrightarrow>
    broadcast_step tc admissible forget b
      (b\<lparr>b_way := b_way b - {#m#}, b_published := b_published b @ [m]\<rparr>)"
| forgets: "forget (b_seen b) s \<Longrightarrow> broadcast_step tc admissible forget b (b\<lparr>b_seen := s\<rparr>)"

abbreviation broadcast_steps where
  "broadcast_steps tc admissible forget \<equiv> (broadcast_step tc admissible forget)\<^sup>*\<^sup>*"

text \<open>All messages of a state.\<close>

definition b_msgs :: "'s broadcast \<Rightarrow> pb_Message multiset" where
  "b_msgs b = mset (b_published b) + b_way b"

section \<open>Runs\<close>

lemma broadcast_publish:
  "b_way b = add_mset m M \<Longrightarrow>
     broadcast_step tc admissible forget b (b\<lparr>b_way := M, b_published := b_published b @ [m]\<rparr>)"
  using broadcast_step.publish [of m b tc admissible forget] by simp

text \<open>Messages can be lost in any number, and a message can be accepted and published at once.\<close>

lemma broadcast_lose:
  assumes "M \<subseteq># b_way b" shows "broadcast_steps tc admissible forget b (b\<lparr>b_way := M\<rparr>)"
proof -
  have "broadcast_steps tc admissible forget b (b\<lparr>b_way := M\<rparr>)" if "b_way b = M + N" for N
    using that
  proof (induction N arbitrary: b)
    case (add m N)
    have "broadcast_step tc admissible forget b (b\<lparr>b_way := M + N\<rparr>)"
      using broadcast_step.lose [of m b tc admissible forget] add.prems by simp
    moreover have "broadcast_steps tc admissible forget (b\<lparr>b_way := M + N\<rparr>) (b\<lparr>b_way := M\<rparr>)"
      using add.IH [of "b\<lparr>b_way := M + N\<rparr>"] by simp
    ultimately show ?case by (rule converse_rtranclp_into_rtranclp)
  next
    case empty
    then have "b\<lparr>b_way := M\<rparr> = b" by (cases b) simp
    then show ?case by simp
  qed
  then show ?thesis using assms by (metis subset_mset.le_iff_add)
qed

lemma broadcast_at_once:
  assumes "\<not> tc_Has tc (b_seen b) (msgID m)" "admissible m"
  shows "broadcast_steps tc admissible forget b
    (b\<lparr>b_seen := tc_Add tc (msgID m) (b_seen b), b_published := b_published b @ [m]\<rparr>)"
proof -
  let ?b = "b\<lparr>b_seen := tc_Add tc (msgID m) (b_seen b), b_way := add_mset m (b_way b)\<rparr>"
  have "broadcast_step tc admissible forget b ?b" using assms by (rule broadcast_step.accept)
  moreover have "broadcast_step tc admissible forget ?b
      (?b\<lparr>b_way := b_way b, b_published := b_published ?b @ [m]\<rparr>)"
    by (rule broadcast_publish) simp
  ultimately show ?thesis by (simp add: converse_rtranclp_into_rtranclp)
qed

section \<open>What the specification guarantees\<close>

text \<open>Nothing that was published is taken back.\<close>

lemma broadcast_published:
  "broadcast_steps tc admissible forget b b' \<Longrightarrow> \<exists>ms. b_published b' = b_published b @ ms"
  by (induction rule: rtranclp_induct) (auto elim!: broadcast_step.cases)

text \<open>Only admissible messages are published, or on the way.\<close>

definition b_admissible :: "(pb_Message \<Rightarrow> bool) \<Rightarrow> 's broadcast \<Rightarrow> bool" where
  "b_admissible admissible b \<longleftrightarrow> (\<forall>m \<in># b_msgs b. admissible m)"

lemma broadcast_admissible_step:
  "broadcast_step tc admissible forget b b' \<Longrightarrow> b_admissible admissible b \<Longrightarrow> b_admissible admissible b'"
proof (induction rule: broadcast_step.induct)
  case (lose m b)
  have "set_mset (b_way b - {#m#}) \<subseteq> set_mset (b_way b)" by (auto dest: in_diffD)
  then show ?case using lose(2) unfolding b_admissible_def b_msgs_def by auto
next
  case (publish m b)
  have "set_mset (b_way b - {#m#}) \<subseteq> set_mset (b_way b)" by (auto dest: in_diffD)
  then show ?case using publish unfolding b_admissible_def b_msgs_def by auto
qed (simp_all add: b_admissible_def b_msgs_def)

lemma broadcast_admissible:
  "broadcast_steps tc admissible forget b b' \<Longrightarrow> b_admissible admissible b \<Longrightarrow> b_admissible admissible b'"
  by (induction rule: rtranclp_induct) (simp_all add: broadcast_admissible_step)

text \<open>What the code relies on in a time cache that does not forget within the time considered.\<close>

definition seen_ok :: "'s seen_methods \<Rightarrow> bool" where
  "seen_ok tc \<longleftrightarrow> (\<forall>x s y. tc_Has tc (tc_Add tc x s) y \<longleftrightarrow> y = x \<or> tc_Has tc s y)"

text \<open>Then an identifier occurs at most once, and only when it was seen.\<close>

definition b_once :: "'s seen_methods \<Rightarrow> 's broadcast \<Rightarrow> bool" where
  "b_once tc b \<longleftrightarrow> (\<forall>x. count (image_mset msgID (b_msgs b)) x \<le> (if tc_Has tc (b_seen b) x then 1 else 0))"

lemma b_once_fresh:
  assumes "seen_ok tc" "b_once tc b" "\<not> tc_Has tc (b_seen b) x"
    and "b_seen b' = tc_Add tc x (b_seen b)" "image_mset msgID (b_msgs b') \<subseteq># add_mset x (image_mset msgID (b_msgs b))"
  shows "b_once tc b'"
  unfolding b_once_def
proof
  fix y
  let ?ids = "\<lambda>b. image_mset msgID (b_msgs b)"
  have "count (?ids b') y \<le> count (?ids b) y + (if y = x then 1 else 0)"
    using mset_subset_eq_count [OF assms(5), of y] by (cases "y = x") simp_all
  moreover have "count (?ids b) y \<le> (if tc_Has tc (b_seen b) y then 1 else 0)" using assms(2) by (simp add: b_once_def)
  moreover have "tc_Has tc (b_seen b') y \<longleftrightarrow> y = x \<or> tc_Has tc (b_seen b) y" using assms(1,4) by (simp add: seen_ok_def)
  ultimately show "count (?ids b') y \<le> (if tc_Has tc (b_seen b') y then 1 else 0)"
    using assms(3) by (auto split: if_splits)
qed

lemma b_once_keep:
  assumes "b_once tc b" "b_seen b' = b_seen b" "b_msgs b' \<subseteq># b_msgs b" shows "b_once tc b'"
  unfolding b_once_def
proof
  fix x
  have "count (image_mset msgID (b_msgs b')) x \<le> count (image_mset msgID (b_msgs b)) x"
    by (rule mset_subset_eq_count [OF image_mset_subseteq_mono [OF assms(3)]])
  also have "\<dots> \<le> (if tc_Has tc (b_seen b) x then 1 else 0)" using assms(1) by (simp only: b_once_def)
  finally show "count (image_mset msgID (b_msgs b')) x \<le> (if tc_Has tc (b_seen b') x then 1 else 0)"
    by (simp only: assms(2))
qed

lemma broadcast_once_step:
  assumes "seen_ok tc" "broadcast_step tc admissible (\<lambda>s s'. s' = s) b b'" "b_once tc b" shows "b_once tc b'"
  using assms(2,3)
proof (induction rule: broadcast_step.induct)
  case (accept b m)
  show ?case by (rule b_once_fresh [OF assms(1) accept(3,1)]) (simp_all add: b_msgs_def)
next
  case (refuse b m)
  show ?case by (rule b_once_fresh [OF assms(1) refuse(2,1)]) (simp_all add: b_msgs_def)
next
  case (lose m b)
  show ?case by (rule b_once_keep [OF lose(2)]) (simp_all add: b_msgs_def)
next
  case (publish m b)
  obtain M where "b_way b = add_mset m M" using publish(1) by (blast dest: multi_member_split)
  then show ?case by (intro b_once_keep [OF publish(2)]) (simp_all add: b_msgs_def)
qed simp

lemma broadcast_once:
  assumes "seen_ok tc" "broadcast_steps tc admissible (\<lambda>s s'. s' = s) b b'" "b_once tc b" shows "b_once tc b'"
  using assms(2,3) by (induction rule: rtranclp_induct) (auto intro: broadcast_once_step [OF assms(1)])

text \<open>The same without multisets.\<close>

lemma count_le_1_distinct:
  assumes "\<And>x. count (mset xs + M) x \<le> 1" shows "distinct xs \<and> set xs \<inter> set_mset M = {}"
  using assms
proof (induction xs)
  case (Cons x xs)
  have le: "count (mset xs + M) y \<le> 1" for y by (rule order_trans [OF _ Cons.prems [of y]]) simp
  have "count (mset xs + M) x = 0" using Cons.prems [of x] by simp
  then have "x \<notin># mset xs + M" by (simp only: not_in_iff)
  with Cons.IH [OF le] show ?case by auto
qed simp

lemma b_once_distinct:
  assumes "b_once tc b"
  shows "distinct (map msgID (b_published b)) \<and> (\<forall>m \<in># b_way b. msgID m \<notin> msgID ` set (b_published b))"
proof -
  have "count (mset (map msgID (b_published b)) + image_mset msgID (b_way b)) x \<le> 1" for x
  proof -
    have "count (image_mset msgID (b_msgs b)) x \<le> (if tc_Has tc (b_seen b) x then 1 else 0)"
      using assms by (simp only: b_once_def)
    then show ?thesis by (simp add: b_msgs_def split: if_splits)
  qed
  from count_le_1_distinct [OF this] show ?thesis by auto
qed

end
