(* ===== verification/Refinement.thy ===== *)
theory Refinement
  imports Broadcast PipelineInv
begin

text \<open>
  The pipeline and the loop refine the specification \<open>Broadcast\<close>. The abstraction \<open>broadcast_of\<close> forgets
  where in the pipeline a message is. Admissible is a message that verifies if it is signed, and that is
  signed if the node demands it. \<open>pipe_refines\<close> says that the pipeline is a state the specification reaches
  from \<open>b\<close>, and adds what the simulation needs: the tokens, the node's policy and identity, which nothing
  changes, and that a node which demands signatures lets no unsigned message even into the queue.
\<close>

definition msg_verified :: "(pb_Message \<Rightarrow> bool) \<Rightarrow> bool \<Rightarrow> pb_Message \<Rightarrow> bool" where
  "msg_verified verify strict m \<longleftrightarrow>
     (strict \<longrightarrow> m_Signature m \<noteq> None) \<and> (m_Signature m \<noteq> None \<longrightarrow> verify m)"

definition broadcast_of :: "'s pipe \<Rightarrow> 's broadcast" where
  "broadcast_of p = \<lparr>b_seen = pi_seen p, b_way = under_way p, b_published = pi_published p\<rparr>"

definition pipe_refines ::
  "'s seen_methods \<Rightarrow> (pb_Message \<Rightarrow> bool) \<Rightarrow> ('s \<Rightarrow> 's \<Rightarrow> bool) \<Rightarrow> bool \<Rightarrow> peer \<times> nat option \<times> peer \<Rightarrow>
   's broadcast \<Rightarrow> 's pipe \<Rightarrow> bool" where
  "pipe_refines tc verify forget strict author b p \<longleftrightarrow>
     pipe_ok p \<and> pi_strict p = strict \<and> pi_author p = author \<and>
     (\<forall>req \<in> set (ch_buf (v_validateQ (pi_val p))). strict \<longrightarrow> m_Signature (vr_msg req) \<noteq> None) \<and>
     broadcast_steps tc (msg_verified verify strict) forget b (broadcast_of p)"

text \<open>A move of the pipeline that brings nothing new into the queue and is matched by the specification.\<close>

lemma pipe_refines_move:
  assumes "pipe_refines tc verify forget strict author b p" "pipe_ok p'"
    and "pi_strict p' = pi_strict p" "pi_author p' = pi_author p"
    and "set (ch_buf (v_validateQ (pi_val p'))) \<subseteq> set (ch_buf (v_validateQ (pi_val p)))"
    and "broadcast_steps tc (msg_verified verify strict) forget (broadcast_of p) (broadcast_of p')"
  shows "pipe_refines tc verify forget strict author b p'"
proof -
  have "broadcast_steps tc (msg_verified verify strict) forget b (broadcast_of p')"
    using rtranclp_trans [OF _ assms(6)] assms(1) by (simp add: pipe_refines_def)
  then show ?thesis using assms(1-5) unfolding pipe_refines_def by blast
qed

lemma pipe_refines_same:
  assumes "pipe_refines tc verify forget strict author b p" "pipe_ok p'"
    and "pi_strict p' = pi_strict p" "pi_author p' = pi_author p" "broadcast_of p' = broadcast_of p"
    and "set (ch_buf (v_validateQ (pi_val p'))) \<subseteq> set (ch_buf (v_validateQ (pi_val p)))"
  shows "pipe_refines tc verify forget strict author b p'"
  by (rule pipe_refines_move [OF assms(1-4,6)]) (simp add: assms(5))

lemma pipe_refinesD:
  assumes "pipe_refines tc verify forget strict author b p"
  shows "pipe_ok p" "pi_strict p = strict" "pi_author p = author"
    "broadcast_steps tc (msg_verified verify strict) forget b (broadcast_of p)"
  using assms by (simp_all add: pipe_refines_def)

section \<open>The loop\<close>

lemma Push_queue:
  assumes "Push src msg v = Some (ok, v')"
  shows "set (ch_buf (v_validateQ v')) \<subseteq> set (ch_buf (v_validateQ v)) \<union>
    {\<lparr>vr_vals = getValidators msg v, vr_src = src, vr_msg = msg\<rparr>}"
  using assms by (auto simp: Push_def Let_def chan_send_def split: if_splits)

lemma Push_unsigned: "Push src msg v = Some (True, v') \<Longrightarrow> m_Signature msg = None"
  by (auto simp: Push_def Let_def split: if_splits option.splits sent.splits)

lemma pipeline_refines: "pipeline tc (pipe_refines tc verify forget strict author b) adm"
proof
  fix p :: "'a pipe" and src and msg :: pb_Message
  assume J: "pipe_refines tc verify forget strict author b p" and signed: "pi_strict p \<longrightarrow> m_Signature msg \<noteq> None"
  obtain ok v where v: "Push src msg (pi_val p) = Some (ok, v)" "pipe_ok (p\<lparr>pi_val := v\<rparr>)"
    using pipe_ok_offer [OF pipe_refinesD(1) [OF J]] by blast
  have "broadcast_of (p\<lparr>pi_val := v\<rparr>) = broadcast_of p" by (simp add: broadcast_of_def under_way_def)
  with J v(2) signed Push_queue [OF v(1)] have "pipe_refines tc verify forget strict author b (p\<lparr>pi_val := v\<rparr>)"
    by (auto simp: pipe_refines_def)
  with v show "\<exists>ok v. Push src msg (pi_val p) = Some (ok, v) \<and>
      pipe_refines tc verify forget strict author b (p\<lparr>pi_val := v\<rparr>)" by blast
next
  fix p :: "'a pipe" and msg :: pb_Message and src
  assume J: "pipe_refines tc verify forget strict author b p" and signed: "pi_strict p \<longrightarrow> m_Signature msg \<noteq> None"
    and out: "Push src msg (pi_val p) = Some (True, pi_val p)" and new: "\<not> tc_Has tc (pi_seen p) (msgID msg)"
  let ?p = "p\<lparr>pi_seen := tc_Add tc (msgID msg) (pi_seen p), pi_published := pi_published p @ [msg]\<rparr>"
  have "msg_verified verify strict msg"
    using signed Push_unsigned [OF out] pipe_refinesD(2) [OF J] by (simp add: msg_verified_def)
  then have "broadcast_steps tc (msg_verified verify strict) forget (broadcast_of p) (broadcast_of ?p)"
    using broadcast_at_once [of tc "broadcast_of p" msg "msg_verified verify strict" forget] new
    by (simp add: broadcast_of_def under_way_def)
  then show "pipe_refines tc verify forget strict author b ?p"
    using pipe_refinesD(1) [OF J] by (intro pipe_refines_move [OF J]) (simp_all add: pipe_ok_def)
next
  fix p :: "'a pipe" and req reqs
  assume J: "pipe_refines tc verify forget strict author b p" and q: "ch_buf (pi_sendMsg p) = req # reqs"
  let ?p = "p\<lparr>pi_sendMsg := (pi_sendMsg p)\<lparr>ch_buf := reqs\<rparr>, pi_published := pi_published p @ [sr_msg req]\<rparr>"
  have "broadcast_step tc (msg_verified verify strict) forget (broadcast_of p) (broadcast_of ?p)"
    using broadcast_publish [of "broadcast_of p" "sr_msg req" "under_way ?p" tc "msg_verified verify strict" forget] q
    by (simp add: broadcast_of_def under_way_def)
  then show "pipe_refines tc verify forget strict author b ?p"
    using pipe_refinesD(1) [OF J] q
    by (intro pipe_refines_move [OF J]) (simp_all add: pipe_ok_def chan_ok_def r_into_rtranclp)
next
  fix p :: "'a pipe" and r assume J: "pipe_refines tc verify forget strict author b p"
  obtain resp v where a: "AddValidator r (pi_val p) = (resp, v)" by force
  show "pipe_refines tc verify forget strict author b (p\<lparr>pi_val := snd (AddValidator r (pi_val p))\<rparr>)"
    using pipe_ok_register [OF pipe_refinesD(1) [OF J], of r] AddValidator_heap [OF a]
    by (intro pipe_refines_same [OF J]) (simp_all add: a broadcast_of_def under_way_def)
next
  fix p :: "'a pipe" and t assume J: "pipe_refines tc verify forget strict author b p"
  obtain resp v where a: "RemoveValidator t (pi_val p) = (resp, v)" by force
  have "v_validateQ v = v_validateQ (pi_val p)" using a by (auto simp: RemoveValidator_def split: if_splits)
  then show "pipe_refines tc verify forget strict author b (p\<lparr>pi_val := snd (RemoveValidator t (pi_val p))\<rparr>)"
    using pipe_ok_remove [OF pipe_refinesD(1) [OF J], of t]
    by (intro pipe_refines_same [OF J]) (simp_all add: a broadcast_of_def under_way_def)
qed

section \<open>The goroutines\<close>

text \<open>A worker accepts only what is admissible; a message it marks and then drops is refused.\<close>

lemma validate_steps:
  fixes st :: "('s, 'b, 'z) node_scheme"
  assumes signed: "strict \<longrightarrow> m_Signature msg \<noteq> None"
  shows "broadcast_steps tc (msg_verified verify strict) forget
    (broadcast_of (pipe_of st)) (broadcast_of (pipe_of (validate tc verify vals src msg st)))"
proof -
  let ?p = "pipe_of st" and ?p' = "pipe_of (validate tc verify vals src msg st)" and ?adm = "msg_verified verify strict"
  let ?b = "broadcast_of ?p"
  have accepted: "broadcast_step tc ?adm forget ?b (broadcast_of ?p')"
    if "\<not> tc_Has tc (pi_seen ?p) (msgID msg)" "m_Signature msg \<noteq> None \<longrightarrow> verify msg"
      "broadcast_of ?p' = ?b\<lparr>b_seen := tc_Add tc (msgID msg) (pi_seen ?p), b_way := add_mset msg (b_way ?b)\<rparr>"
    using broadcast_step.accept [of tc ?b msg ?adm forget] that signed by (simp add: broadcast_of_def msg_verified_def)
  have refused: "broadcast_step tc ?adm forget ?b (broadcast_of ?p')"
    if "\<not> tc_Has tc (pi_seen ?p) (msgID msg)" "broadcast_of ?p' = ?b\<lparr>b_seen := tc_Add tc (msgID msg) (pi_seen ?p)\<rparr>"
    using broadcast_step.refuse [of tc ?b msg ?adm forget] that by (simp add: broadcast_of_def)
  have "broadcast_of ?p' = ?b \<or> \<not> tc_Has tc (pi_seen ?p) (msgID msg) \<and> (m_Signature msg \<noteq> None \<longrightarrow> verify msg) \<and>
    (broadcast_of ?p' = ?b\<lparr>b_seen := tc_Add tc (msgID msg) (pi_seen ?p)\<rparr> \<or>
     broadcast_of ?p' = ?b\<lparr>b_seen := tc_Add tc (msgID msg) (pi_seen ?p), b_way := add_mset msg (b_way ?b)\<rparr>)"
    using validate_cases [where tc = tc and st = st and verify = verify and msg = msg and vals = vals and src = src]
    by (elim disjE conjE exE) (simp_all add: broadcast_of_def under_way_def)
  then show ?thesis
    by (elim disjE conjE)
      (simp, (rule r_into_rtranclp, rule refused, assumption+), (rule r_into_rtranclp, rule accepted, assumption+))
qed

lemma worker_refines:
  fixes st :: "('s, 'b, 'z) node_scheme"
  assumes J: "pipe_refines tc verify forget strict author b (pipe_of st)" and w: "validateWorker tc verify st = Some st'"
  shows "pipe_refines tc verify forget strict author b (pipe_of st')"
proof -
  obtain req reqs where q: "ch_buf (v_validateQ (n_val st)) = req # reqs"
    using w by (auto simp: validateWorker_def split: list.splits)
  note pop = pipe_ok_pop [OF pipe_refinesD(1) [OF J] q]
  let ?s = "st\<lparr>n_val := (n_val st)\<lparr>v_validateQ := (v_validateQ (n_val st))\<lparr>ch_buf := reqs\<rparr>\<rparr>\<rparr>"
  have J1: "pipe_refines tc verify forget strict author b (pipe_of ?s)"
    by (rule pipe_refines_same [OF J pop(1)]) (use q in \<open>auto simp: broadcast_of_def under_way_def\<close>)
  have st': "st' = validate tc verify (vr_vals req) (vr_src req) (vr_msg req) ?s" using w q by (simp add: validateWorker_def)
  have "strict \<longrightarrow> m_Signature (vr_msg req) \<noteq> None" using J q by (simp add: pipe_refines_def)
  note steps = validate_steps [OF this, of tc verify forget ?s "vr_vals req" "vr_src req"]
  have same: "pi_strict (pipe_of st') = pi_strict (pipe_of ?s)" "pi_author (pipe_of st') = pi_author (pipe_of ?s)"
    "v_validateQ (n_val st') = v_validateQ (n_val ?s)"
    unfolding st' by (auto simp: validate_def markSeen_def Let_def split: option.splits)
  show ?thesis
    by (rule pipe_refines_move [OF J1]) (use pipe_ok_validate [OF pop] steps same in \<open>simp_all add: st'\<close>)
qed

lemma outside_pipe_id: "outside_pipe st st' \<Longrightarrow> pi_strict (pipe_of st') = pi_strict (pipe_of st) \<and>
    pi_author (pipe_of st') = pi_author (pipe_of st) \<and> pi_published (pipe_of st') = pi_published (pipe_of st)"
  by (simp add: outside_pipe_def)

lemma begin_refines:
  assumes J: "pipe_refines tc verify forget strict author b (pipe_of st)" and m: "begin_validateTopic k st = Some st'"
  shows "pipe_refines tc verify forget strict author b (pipe_of st')"
  by (rule pipe_refines_same [OF J])
    (use begin_ok [OF pipe_refinesD(1) [OF J] m] outside_pipe_id [OF begin_outside [OF m]] in \<open>simp_all add: broadcast_of_def\<close>)

lemma send_refines:
  assumes J: "pipe_refines tc verify forget strict author b (pipe_of st)" and m: "send_waiting k st = Some st'"
  shows "pipe_refines tc verify forget strict author b (pipe_of st')"
  by (rule pipe_refines_same [OF J])
    (use send_ok [OF pipe_refinesD(1) [OF J] m] outside_pipe_id [OF send_outside [OF m]] in \<open>simp_all add: broadcast_of_def\<close>)

lemma end_refines:
  assumes J: "pipe_refines tc verify forget strict author b (pipe_of st)" and m: "end_validateTopic k st = Some st'"
  shows "pipe_refines tc verify forget strict author b (pipe_of st')"
proof -
  note e = end_ok [OF pipe_refinesD(1) [OF J] m] outside_pipe_id [OF end_outside [OF m]]
  have "broadcast_of (pipe_of st') = (broadcast_of (pipe_of st))\<lparr>b_way := under_way (pipe_of st')\<rparr>"
    using e by (simp add: broadcast_of_def)
  then show ?thesis
    using e broadcast_lose [of "under_way (pipe_of st')" "broadcast_of (pipe_of st)"]
    by (intro pipe_refines_move [OF J]) (simp_all add: broadcast_of_def)
qed

lemma forget_refines:
  assumes J: "pipe_refines tc verify forget strict author b p" and f: "forget (pi_seen p) s"
  shows "pipe_refines tc verify forget strict author b (p\<lparr>pi_seen := s\<rparr>)"
proof -
  have "broadcast_step tc (msg_verified verify strict) forget (broadcast_of p) (broadcast_of (p\<lparr>pi_seen := s\<rparr>))"
    using broadcast_step.forgets [of forget "broadcast_of p" s] f by (simp add: broadcast_of_def under_way_def)
  then show ?thesis using pipe_refinesD(1) [OF J]
    by (intro pipe_refines_move [OF J]) (auto simp: pipe_ok_def)
qed

end
