(* ===== verification/System.thy ===== *)
theory System
  imports Api Comm Refinement
begin

text \<open>
  A whole node: the process loop, the validation workers, the goroutines of asynchronous validation, the
  writers of the peers' queues, the users of subscriptions and of \<open>Publish\<close>, the time cache's own clock and
  the runtime, interleaved in any order. \<open>reach\<close> holds of the states a node can get into.
\<close>

section \<open>The steps of a node\<close>

text \<open>The goroutines beside the loop, the users, the time cache and the runtime.\<close>

inductive goroutine_step ::
  "'s seen_methods \<Rightarrow> crypto \<Rightarrow> ('s \<Rightarrow> 's \<Rightarrow> bool) \<Rightarrow> ('s, 'b, 'z) node_scheme \<Rightarrow> ('s, 'b, 'z) node_scheme \<Rightarrow> bool"
  for tc cr forget where
  worker: "validateWorker tc (verified cr) st = Some st' \<Longrightarrow> goroutine_step tc cr forget st st'"
| throttled: "begin_validateTopic k st = Some st' \<Longrightarrow> goroutine_step tc cr forget st st'"
| validated: "end_validateTopic k st = Some st' \<Longrightarrow> goroutine_step tc cr forget st st'"
| sent: "send_waiting k st = Some st' \<Longrightarrow> goroutine_step tc cr forget st st'"
| written: "mget (n_peers st) p = Some ch \<Longrightarrow> ch_buf ch = rpc # rpcs \<Longrightarrow>
    goroutine_step tc cr forget st (st\<lparr>n_peers := mput p (ch\<lparr>ch_buf := rpcs\<rparr>) (n_peers st)\<rparr>)"
| received: "mget (n_subs st) i = Some sub \<Longrightarrow> Next sub = Some (r, sub') \<Longrightarrow>
    goroutine_step tc cr forget st (st\<lparr>n_subs := mput i sub' (n_subs st)\<rparr>)"
| notified: "mget (n_subs st) i = Some sub \<Longrightarrow> NextPeerEvent sub e = (r, sub', e') \<Longrightarrow>
    goroutine_step tc cr forget st (st\<lparr>n_subs := mput i sub' (n_subs st)\<rparr>)"
| published: "Publish cr topic data st = (r, st') \<Longrightarrow> goroutine_step tc cr forget st st'"
| forgets: "forget (n_seen st) s \<Longrightarrow> goroutine_step tc cr forget st (st\<lparr>n_seen := s\<rparr>)"
| runtime: "n_clock st \<le> t \<Longrightarrow> goroutine_step tc cr forget st (st\<lparr>n_clock := t, n_choices := e\<rparr>)"

inductive node_step ::
  "('s, 'b, 'z) router_methods \<Rightarrow> 'b blacklist_methods \<Rightarrow> 's seen_methods \<Rightarrow>
   (('s, 'b, 'z) node_scheme \<Rightarrow> ('s, 'b, 'z) node_scheme option) \<Rightarrow> crypto \<Rightarrow> ('s \<Rightarrow> 's \<Rightarrow> bool) \<Rightarrow>
   ('s, 'b, 'z) node_scheme \<Rightarrow> ('s, 'b, 'z) node_scheme \<Rightarrow> bool"
  for rt bl tc hb cr forget where
  turn: "valid_event st ev \<Longrightarrow> loop_turn rt bl tc hb ev st = Some st' \<Longrightarrow>
    node_step rt bl tc hb cr forget st st'"
| beside: "goroutine_step tc cr forget st st' \<Longrightarrow> node_step rt bl tc hb cr forget st st'"

lemmas step_worker = node_step.beside [OF goroutine_step.worker]
  and step_sent = node_step.beside [OF goroutine_step.sent]
  and step_published = node_step.beside [OF goroutine_step.published]

inductive reach ::
  "('s, 'b, 'z) router_methods \<Rightarrow> 'b blacklist_methods \<Rightarrow> 's seen_methods \<Rightarrow>
   (('s, 'b, 'z) node_scheme \<Rightarrow> ('s, 'b, 'z) node_scheme option) \<Rightarrow> crypto \<Rightarrow> ('s \<Rightarrow> 's \<Rightarrow> bool) \<Rightarrow>
   ('s, 'b, 'z) node_scheme \<Rightarrow> ('s, 'b, 'z) node_scheme \<Rightarrow> bool"
  for rt bl tc hb cr forget st0 where
  start: "reach rt bl tc hb cr forget st0 st0"
| more: "reach rt bl tc hb cr forget st0 st \<Longrightarrow> node_step rt bl tc hb cr forget st st' \<Longrightarrow>
    reach rt bl tc hb cr forget st0 st'"

section \<open>Steps beside the loop\<close>

lemma outside_good:
  assumes "outside_pipe st st'" "J (pipe_of st) \<Longrightarrow> J (pipe_of st')" "node_inv bl J st" shows "node_inv bl J st'"
  using assms by (auto simp: outside_pipe_def node_inv_def peers_ok_def no_blacklisted_def)

lemma outside_more: "outside_pipe st st' \<Longrightarrow> node.more st' = node.more st"
  by (simp add: outside_pipe_def)

lemma pull_same: "s_topic (fst (snd (pullFromEventLog sub e))) = s_topic sub \<and>
    sub_ok live (fst (snd (pullFromEventLog sub e))) = sub_ok live sub"
  by (auto simp: pullFromEventLog_def sub_ok_def split: prod.split list.split option.split)

lemma NextPeerEvent_same:
  "s_topic (fst (snd (NextPeerEvent sub e))) = s_topic sub \<and>
    sub_ok live (fst (snd (NextPeerEvent sub e))) = sub_ok live sub"
proof (induction sub e rule: NextPeerEvent.induct)
  case (1 sub e)
  obtain r sub1 e1 where p: "pullFromEventLog sub e = (r, sub1, e1)" by (metis prod_cases3)
  have s1: "s_topic sub1 = s_topic sub" "sub_ok live sub1 = sub_ok live sub" using pull_same [of sub e live] p by auto
  show ?case
  proof (cases r)
    case None
    have "sub_ok live (sub\<lparr>s_evtLogCh := b\<rparr>) = sub_ok live sub" for b by (simp add: sub_ok_def)
    with "1.IH" [OF p [symmetric] None refl] None p show ?thesis by (simp add: NextPeerEvent.simps [of sub e])
  next
    case (Some evt)
    with s1 p show ?thesis by (auto simp: NextPeerEvent.simps [of sub e] signal_def sub_ok_def)
  qed
qed

lemma Next_same:
  "Next sub = Some (r, sub') \<Longrightarrow> s_topic sub' = s_topic sub \<and> (sub_ok live sub \<longrightarrow> sub_ok live sub')"
  by (auto simp: Next_def sub_ok_def split: list.splits if_splits)

lemma user_good:
  assumes "node_inv bl J st" "mget (n_subs st) i = Some sub" "s_topic sub' = s_topic sub"
    "\<And>live. sub_ok live sub \<Longrightarrow> sub_ok live sub'"
  shows "node_inv bl J (st\<lparr>n_subs := mput i sub' (n_subs st)\<rparr>)"
proof -
  have "subs_ok (n_subs st) (n_myTopics st)" using assms(1) by (simp add: node_inv_def)
  then have "subs_ok (mput i sub' (n_subs st)) (n_myTopics st)"
    using assms(2-4) subs_okD(2) by (intro subs_ok_update) auto
  with assms(1) show ?thesis by (simp add: node_inv_def peers_ok_def no_blacklisted_def)
qed

lemma written_good:
  assumes "node_inv bl J st" "mget (n_peers st) p = Some ch" "ch_buf ch = rpc # rpcs"
  shows "node_inv bl J (st\<lparr>n_peers := mput p (ch\<lparr>ch_buf := rpcs\<rparr>) (n_peers st)\<rparr>)"
proof -
  have "chan_ok ch" using assms(1,2) by (auto simp: node_inv_def peers_ok_def)
  then have "chan_ok (ch\<lparr>ch_buf := rpcs\<rparr>)" using assms(3) by (simp add: chan_ok_def)
  with assms show ?thesis by (auto simp: node_inv_def peers_ok_def no_blacklisted_def lookup_update mem_mdom)
qed

section \<open>The node's contract\<close>

text \<open>
  A loop as in \<open>pubsub_offered\<close>, and goroutines and a time cache that keep the pipeline's property \<open>J\<close>, too.
\<close>

locale node_offered = pubsub_offered rt rt_inv bl tc J adm hb
  for rt :: "('s, 'b, 'z) router_methods" and rt_inv and bl :: "'b blacklist_methods"
    and tc :: "'s seen_methods" and J and adm and hb +
  fixes cr :: crypto and forget :: "'s \<Rightarrow> 's \<Rightarrow> bool"
  assumes worker_J: "J (pipe_of (st :: ('s, 'b, 'z) node_scheme)) \<Longrightarrow> validateWorker tc (verified cr) st = Some st' \<Longrightarrow> J (pipe_of st')"
    and throttled_J: "J (pipe_of (st :: ('s, 'b, 'z) node_scheme)) \<Longrightarrow> begin_validateTopic k st = Some st' \<Longrightarrow> J (pipe_of st')"
    and validated_J: "J (pipe_of (st :: ('s, 'b, 'z) node_scheme)) \<Longrightarrow> end_validateTopic k st = Some st' \<Longrightarrow> J (pipe_of st')"
    and sent_J: "J (pipe_of (st :: ('s, 'b, 'z) node_scheme)) \<Longrightarrow> send_waiting k st = Some st' \<Longrightarrow> J (pipe_of st')"
    and forget_J: "J p \<Longrightarrow> forget (pi_seen p) s \<Longrightarrow> J (p\<lparr>pi_seen := s\<rparr>)"
begin

lemma goroutine_good:
  assumes "goroutine_step tc cr forget st st'" "good bl J rt_inv st" shows "good bl J rt_inv st'"
  using assms
proof (induction rule: goroutine_step.induct)
  case (worker st st')
  note o = validateWorker_outside [OF worker(1)]
  show ?case by (rule good_step [OF worker(2)]) (use outside_good [OF o] worker_J worker(1) outside_more [OF o] in auto)
next
  case (throttled k st st')
  note o = begin_outside [OF throttled(1)]
  show ?case by (rule good_step [OF throttled(2)]) (use outside_good [OF o] throttled_J throttled(1) outside_more [OF o] in auto)
next
  case (validated k st st')
  note o = end_outside [OF validated(1)]
  show ?case by (rule good_step [OF validated(2)]) (use outside_good [OF o] validated_J validated(1) outside_more [OF o] in auto)
next
  case (sent k st st')
  note o = send_outside [OF sent(1)]
  show ?case by (rule good_step [OF sent(2)]) (use outside_good [OF o] sent_J sent(1) outside_more [OF o] in auto)
next
  case (written st p ch rpc rpcs)
  show ?case by (rule good_step [OF written(3)]) (use written_good written(1,2) in auto)
next
  case (received st i sub r sub')
  have "s_topic sub' = s_topic sub" "sub_ok live sub \<Longrightarrow> sub_ok live sub'" for live
    using Next_same [OF received(2), of live] by simp_all
  then show ?case by (intro good_step [OF received(3)] user_good [OF _ received(1)]) simp_all
next
  case (notified st i sub e r sub' e')
  have "s_topic sub' = s_topic sub" "sub_ok live sub' = sub_ok live sub" for live
    using NextPeerEvent_same [of sub e live] notified(2) by simp_all
  then show ?case by (intro good_step [OF notified(3)] user_good [OF _ notified(1)]) simp_all
next
  case (published topic data st r st')
  then show ?case using Publish_message [OF published(1)]
    by (intro good_step [OF published(2)]) (auto simp: node_inv_def peers_ok_def no_blacklisted_def)
next
  case (forgets st s)
  show ?case by (rule good_step [OF forgets(2)])
    (use forget_J [of "pipe_of st" s] forgets(1) in \<open>auto simp: node_inv_def peers_ok_def no_blacklisted_def\<close>)
next
  case (runtime st t e)
  show ?case by (rule good_step [OF runtime(2)]) (auto simp: node_inv_def peers_ok_def no_blacklisted_def)
qed

lemma turn_good:
  assumes "valid_event st ev" "\<forall>m \<in> given ev. adm m" "loop_turn rt bl tc hb ev st = Some st'" "good bl J rt_inv st"
  shows "good bl J rt_inv st'"
  using loop_turn_stays [OF assms(4,1,2)] assms(3) by (simp add: stays_def)

end

text \<open>A node that is given any messages.\<close>

locale node_system = node_offered rt rt_inv bl tc J "\<lambda>_. True" hb cr forget
  for rt :: "('s, 'b, 'z) router_methods" and rt_inv and bl :: "'b blacklist_methods"
    and tc :: "'s seen_methods" and J and hb and cr and forget

sublocale node_system \<subseteq> pubsub ..

context node_system
begin

lemma step_good:
  "node_step rt bl tc hb cr forget st st' \<Longrightarrow> good bl J rt_inv st \<Longrightarrow> good bl J rt_inv st'"
  by (induction rule: node_step.induct) (auto intro: turn_good goroutine_good)

lemma reach_good:
  "reach rt bl tc hb cr forget st0 st \<Longrightarrow> good bl J rt_inv st0 \<Longrightarrow> good bl J rt_inv st"
  by (induction rule: reach.induct) (auto intro: step_good)

lemma reach_total:
  assumes "reach rt bl tc hb cr forget st0 st" "good bl J rt_inv st0" "valid_event st ev"
  shows "\<exists>st'. loop_turn rt bl tc hb ev st = Some st'"
  using loop_turn_stays [OF reach_good [OF assms(1,2)] assms(3)] by (auto simp: stays_def)

end

section \<open>The three nodes\<close>

lemma forget_ok: "pipe_ok p \<Longrightarrow> pipe_ok (p\<lparr>pi_seen := s\<rparr>)"
  by (simp add: pipe_ok_def)

text \<open>The gossipsub node with any blacklist that keeps its contract.\<close>

lemma gossip_system:
  fixes bl :: "'b blacklist_methods"
  assumes "blacklist bl"
  shows "node_system (gossipsub_router tc :: ('s, 'b, 'z gossipsub_ext) router_methods) gs_inv bl tc pipe_ok heartbeat cr forget"
proof unfold_locales
  show "keeps_frame gs_inv st (heartbeat st)" if "gs_inv st" "peers_ok st"
    for st :: "('s, 'b, 'z) gossipsub_scheme"
    using heartbeat_spec [OF that(2,1)] by (auto simp: keeps_frame_def)
  show "bl_Contains bl (bl_Add bl p b) q \<Longrightarrow> q = p \<or> bl_Contains bl b q" for p b q
    by (rule blacklist.contains_only [OF assms])
qed (auto intro: worker_ok forget_ok blacklist.contains_added [OF assms] dest: begin_ok end_ok send_ok)

interpretation gossip_node: node_system "gossipsub_router tc :: ('s, MapBlacklist, 'z gossipsub_ext) router_methods"
  gs_inv map_blacklist tc pipe_ok heartbeat cr forget for tc cr forget
  by (rule gossip_system [OF map_bl.blacklist_axioms])

interpretation flood_node: node_system "floodsub_router :: ('s, MapBlacklist, 'z floodsub_ext) router_methods"
  "\<lambda>_. True" map_blacklist tc pipe_ok Some cr forget for tc cr forget
  by unfold_locales (auto simp: keeps_frame_def intro: worker_ok forget_ok dest: begin_ok end_ok send_ok)

interpretation random_node: node_system "randomsub_router :: ('s, MapBlacklist, 'z randomsub_ext) router_methods"
  "\<lambda>_. True" map_blacklist tc pipe_ok Some cr forget for tc cr forget
  by unfold_locales (auto simp: keeps_frame_def intro: worker_ok forget_ok dest: begin_ok end_ok send_ok)

section \<open>Created and reachable nodes\<close>

abbreviation gossip_reach where
  "gossip_reach tc cr forget \<equiv> reach (gossipsub_router tc) map_blacklist tc heartbeat cr forget"

abbreviation gossip_turn where
  "gossip_turn tc \<equiv> loop_turn (gossipsub_router tc) map_blacklist tc heartbeat"

lemma gs_new_inv: assumes "node.more st = gs_new" shows "gs_inv st"
proof -
  have "gs_mcache st = NewMessageCache GossipSubHistoryGossip GossipSubHistoryLength"
    using assms by (cases st) (simp add: gs_new_def gossipsub.defs)
  then show ?thesis by (simp add: gs_inv_def New_ok GossipSubHistoryGossip_def GossipSubHistoryLength_def)
qed

lemma created_good:
  assumes "NewPubSub ev rt z opts = Some (Inr (st, protos, workers))"
  shows "node_inv bl pipe_ok st"
  using NewPubSub_fresh [OF assms] fresh_inv by blast

lemma gossip_created_any:
  assumes "NewGossipSub tc ev opts = Some (Inr (st, protos, workers))"
  shows "good bl pipe_ok gs_inv st"
  using assms created_good [of ev "gossipsub_router tc" gs_new opts st protos workers bl]
    NewPubSub_fresh [of ev "gossipsub_router tc" gs_new opts st protos workers] gs_new_inv
  by (auto simp: NewGossipSub_def good_def)

lemmas gossip_created_good = gossip_created_any [where bl = map_blacklist]

lemma gossip_reach_good:
  assumes "NewGossipSub tc ev opts = Some (Inr (st0, protos, workers))" "gossip_reach tc cr forget st0 st"
  shows "good map_blacklist pipe_ok gs_inv st"
  by (rule gossip_node.reach_good [OF assms(2) gossip_created_good [OF assms(1)]])

section \<open>Refinement of the broadcast specification\<close>

text \<open>The router's and the blacklist's part of the contract does not depend on the pipeline's property.\<close>

lemma system_offered:
  fixes rt :: "('s, 'b, 'z) router_methods"
  assumes sys: "node_system rt rt_inv bl tc pipe_ok hb cr forget" and pipe: "pipeline tc J adm"
    and J: "\<And>(st :: ('s, 'b, 'z) node_scheme) st'. J (pipe_of st) \<Longrightarrow> validateWorker tc (verified cr) st = Some st' \<Longrightarrow> J (pipe_of st')"
      "\<And>k (st :: ('s, 'b, 'z) node_scheme) st'. J (pipe_of st) \<Longrightarrow> begin_validateTopic k st = Some st' \<Longrightarrow> J (pipe_of st')"
      "\<And>k (st :: ('s, 'b, 'z) node_scheme) st'. J (pipe_of st) \<Longrightarrow> end_validateTopic k st = Some st' \<Longrightarrow> J (pipe_of st')"
      "\<And>k (st :: ('s, 'b, 'z) node_scheme) st'. J (pipe_of st) \<Longrightarrow> send_waiting k st = Some st' \<Longrightarrow> J (pipe_of st')"
      "\<And>p s. J p \<Longrightarrow> forget (pi_seen p) s \<Longrightarrow> J (p\<lparr>pi_seen := s\<rparr>)"
  shows "node_offered rt rt_inv bl tc J adm hb cr forget"
proof -
  note p = node_offered.axioms(1) [OF node_system.axioms [OF sys]]
  show ?thesis
    by (intro node_offered.intro pubsub_offered.intro node_offered_axioms.intro
        pubsub_offered.axioms(1) [OF p] pubsub_offered.axioms(2) [OF p] pipe pubsub_offered.axioms(4) [OF p])
      (fact J)+
qed

text \<open>Whatever the router: a node system with the pipeline's invariant is one with the refinement, too.\<close>

lemma system_refines:
  assumes "node_system rt rt_inv bl tc pipe_ok hb cr forget"
  shows "node_system rt rt_inv bl tc (pipe_refines tc (verified cr) forget strict author b) hb cr forget"
proof -
  have "node_offered rt rt_inv bl tc (pipe_refines tc (verified cr) forget strict author b) (\<lambda>_. True) hb cr forget"
    by (rule system_offered [OF assms pipeline_refines])
      (auto intro: worker_refines begin_refines end_refines send_refines forget_refines)
  then show ?thesis by (rule node_system.intro)
qed

lemma fresh_refines:
  "fresh_node h bl st \<Longrightarrow> pipe_refines tc verify forget (n_signStrict st) (n_host st, n_signKey st, n_signID st)
     (broadcast_of (pipe_of st)) (pipe_of st)"
  using fresh_inv [of h bl st] by (auto simp: node_inv_def pipe_refines_def fresh_node_def make_chan_def)

lemma gossip_reach_refines:
  assumes "NewGossipSub tc ev opts = Some (Inr (st0, protos, workers))" "gossip_reach tc cr forget st0 st"
  shows "pipe_refines tc (verified cr) forget (n_signStrict st0) (n_host st0, n_signKey st0, n_signID st0)
    (broadcast_of (pipe_of st0)) (pipe_of st)"
proof -
  let ?J = "pipe_refines tc (verified cr) forget (n_signStrict st0) (n_host st0, n_signKey st0, n_signID st0)
    (broadcast_of (pipe_of st0))"
  have "fresh_node (e_host ev) map_blacklist st0"
    using assms(1) unfolding NewGossipSub_def by (rule NewPubSub_fresh [THEN conjunct1])
  then have "good map_blacklist ?J gs_inv st0"
    using gossip_created_good [OF assms(1)] by (simp add: good_def node_inv_def fresh_refines)
  from node_system.reach_good [OF system_refines [OF gossip_node.node_system_axioms] assms(2) this] show ?thesis
    by (simp add: good_def node_inv_def)
qed

text \<open>Nothing changes a node's identity: who it is, and what it signs with.\<close>

lemma gossip_reach_identity:
  assumes "NewGossipSub tc ev opts = Some (Inr (st0, protos, workers))" "gossip_reach tc cr forget st0 st"
  shows "n_host st = n_host st0 \<and> n_signKey st = n_signKey st0 \<and> n_signID st = n_signID st0 \<and>
    n_signStrict st = n_signStrict st0 \<and> author_of st = author_of st0"
  using gossip_reach_refines [OF assms] by (simp add: pipe_refines_def author_of_def)

text \<open>Each single step of a running node is matched by the specification.\<close>

lemma gossip_step_refines:
  assumes "NewGossipSub tc ev opts = Some (Inr (st0, protos, workers))" "gossip_reach tc cr forget st0 st"
    and "node_step (gossipsub_router tc) map_blacklist tc heartbeat cr forget st st'"
  shows "broadcast_steps tc (msg_verified (verified cr) (n_signStrict st)) forget
    (broadcast_of (pipe_of st)) (broadcast_of (pipe_of st'))"
proof -
  let ?J = "pipe_refines tc (verified cr) forget (n_signStrict st) (n_host st, n_signKey st, n_signID st) (broadcast_of (pipe_of st))"
  have "?J (pipe_of st)"
    using gossip_reach_refines [OF assms(1,2)] gossip_reach_identity [OF assms(1,2)] by (simp add: pipe_refines_def)
  then have "good map_blacklist ?J gs_inv st"
    using gossip_reach_good [OF assms(1,2)] by (simp add: good_def node_inv_def)
  from node_system.step_good [OF system_refines [OF gossip_node.node_system_axioms] assms(3) this] show ?thesis
    by (simp add: good_def node_inv_def pipe_refines_def)
qed

lemma fresh_broadcast:
  assumes "NewGossipSub tc ev opts = Some (Inr (st0, protos, workers))"
  shows "b_msgs (broadcast_of (pipe_of st0)) = {#}"
  using NewPubSub_fresh [OF assms [unfolded NewGossipSub_def]]
  by (simp add: fresh_node_def b_msgs_def broadcast_of_def under_way_def make_chan_def)

text \<open>What the specification guarantees, for the node.\<close>

lemma gossip_reach_once:
  assumes "seen_ok tc" "NewGossipSub tc ev opts = Some (Inr (st0, protos, workers))"
    and "gossip_reach tc cr (\<lambda>s s'. s' = s) st0 st"
  shows "b_once tc (broadcast_of (pipe_of st))"
  by (rule broadcast_once [OF assms(1) pipe_refinesD(4) [OF gossip_reach_refines [OF assms(2,3)]]])
    (simp add: b_once_def fresh_broadcast [OF assms(2)])

lemma gossip_reach_admissible:
  assumes "NewGossipSub tc ev opts = Some (Inr (st0, protos, workers))" "gossip_reach tc cr forget st0 st"
  shows "b_admissible (msg_verified (verified cr) (n_signStrict st)) (broadcast_of (pipe_of st))"
proof -
  have "b_admissible (msg_verified (verified cr) (n_signStrict st0)) (broadcast_of (pipe_of st))"
    by (rule broadcast_admissible [OF pipe_refinesD(4) [OF gossip_reach_refines [OF assms]]])
      (simp add: b_admissible_def fresh_broadcast [OF assms(1)])
  then show ?thesis using gossip_reach_identity [OF assms] by simp
qed

end
