(* ===== verification/GossipProps.thy ===== *)
theory GossipProps
  imports Heartbeat
begin

text \<open>
  The properties of the gossiping router: what \<open>sendRPC\<close> sends and retries, the answers to control messages,
  publishing, joining and leaving a topic, and the maintenance of the meshes and fanouts.
\<close>

section \<open>A sample router\<close>

text \<open>Two gossiping peers, \<open>[1]\<close> in the mesh of the topic \<open>art\<close>, a PRUNE for \<open>[2]\<close> waiting to be retried.\<close>

definition sample_gossip :: "'s \<Rightarrow> 'b \<Rightarrow> ('s, 'b) gossipsub" where
  "sample_gossip seen bl = sample_node seen bl
     \<lparr>gs_peers = mput [1] GossipSubID (mput [2] GossipSubID mempty),
      gs_mesh = mput (str ''art'') (mset_of_list [[1]]) mempty,
      gs_fanout = mempty, gs_lastpub = mempty, gs_gossip = mempty,
      gs_control = mput [2] (emptyControl\<lparr>c_Prune := [mkPrune (str ''art'')]\<rparr>) mempty,
      gs_mcache = NewMessageCache 3 5\<rparr>"

lemma sample_gossip_ok [simp]: "peers_ok (sample_gossip seen bl)"
  by (simp add: sample_gossip_def)

lemma sample_gossip_sel [simp]:
  "gs_mesh (sample_gossip seen bl) = mput (str ''art'') (mset_of_list [[1]]) mempty"
  "gs_fanout (sample_gossip seen bl) = mempty"
  "gs_mcache (sample_gossip seen bl) = NewMessageCache 3 5"
  "gs_control (sample_gossip seen bl) = mput [2] (emptyControl\<lparr>c_Prune := [mkPrune (str ''art'')]\<rparr>) mempty"
  "gs_gossip (sample_gossip seen bl) = mempty"
  "gs_peers (sample_gossip seen bl) = mput [1] GossipSubID (mput [2] GossipSubID mempty)"
  "n_peers (sample_gossip seen bl) = sample_peers" "n_topics (sample_gossip seen bl) = sample_topics"
  "n_tags (sample_gossip seen bl) = []" "n_clock (sample_gossip seen bl) = 0"
  "has_room (sample_gossip seen bl) p \<longleftrightarrow> p = [1]" "outbox (sample_gossip seen bl) [1] = []"
  by (simp_all add: sample_gossip_def) (simp_all add: sample_node_def)

lemma sample_gossip_inv [simp]: "gs_inv (sample_gossip seen bl)"
  by (simp add: gs_inv_def New_ok)

section \<open>Sending\<close>

text \<open>
  C11: no GRAFT or PRUNE is lost while its peer has a queue. \<open>sendRPC\<close> returns; the message it queues carries
  its own control entries and those pending for the peer that still agree with the mesh; when the queue is
  full, exactly these become the pending entries, and the gossip is dropped. Nothing pending for another peer
  and no other queue changes.
\<close>

theorem sendRPC_control:
  assumes "peers_ok st"
  shows "\<exists>st'. sendRPC p out st = Some st' \<and> gs_sends st st' \<and>
    (let grafts = rpc_grafts out @ filter (\<lambda>g. in_mesh st (Graft_GetTopicID g) p) (pending_grafts st p);
         prunes = rpc_prunes out @ filter (\<lambda>g. \<not> in_mesh st (Prune_GetTopicID g) p) (pending_prunes st p)
     in if has_room st p
        then mget (gs_control st') p = None \<and>
          (\<exists>m. outbox st' = (outbox st)(p := outbox st p @ [m]) \<and> rpc_grafts m = grafts \<and> rpc_prunes m = prunes \<and>
             r_Publish m = r_Publish out \<and> rpc_iwants m = rpc_iwants out \<and>
             rpc_ihaves m = (case mget (gs_gossip st) p of None \<Rightarrow> rpc_ihaves out | Some g \<Rightarrow> g))
        else outbox st' = outbox st \<and>
          (if p \<in> mdom (n_peers st) then pending_grafts st' p = grafts \<and> pending_prunes st' p = prunes
           else mget (gs_control st') p = None)) \<and>
    mget (gs_gossip st') = (mget (gs_gossip st))(p := None) \<and>
    (\<forall>q. q \<noteq> p \<longrightarrow> mget (gs_control st') q = mget (gs_control st) q)"
proof -
  obtain st' where st': "sendRPC p out st = Some st'" "gs_sends st st'"
    and box: "outbox st' = (if has_room st p then (outbox st)(p := outbox st p @ [merged p out st]) else outbox st)"
    and gos: "mget (gs_gossip st') = (mget (gs_gossip st))(p := None)"
    and ctl: "mget (gs_control st') = (mget (gs_control st))
      (p := if p \<in> mdom (n_peers st) \<and> \<not> has_room st p then retried (merged p out st) else None)"
    using sendRPC_spec [OF assms, of p out] by blast
  have kept: "c_Graft (control_of (retried m)) = rpc_grafts m" "c_Prune (control_of (retried m)) = rpc_prunes m" for m
    by (simp_all add: retried_def rpc_grafts_def rpc_prunes_def)
  show ?thesis
    by (rule exI [of _ st']) (use st' box gos ctl in
      \<open>simp add: Let_def merged_parts [symmetric] pending_grafts_def [of st'] pending_prunes_def [of st'] kept\<close>,
      use merged_parts [of p out st] in blast)
qed

theorem sendRPC_control_witness:
  "\<exists>st'. sendRPC [2] (graft_rpc [65]) (sample_gossip () ()) = Some st' \<and>
     pending_grafts st' [2] = [mkGraft [65]] \<and> pending_prunes st' [2] = [mkPrune (str ''art'')]"
  using sendRPC_control [OF sample_gossip_ok, where seen1 = "()" and bl1 = "()" and p = "[2]" and out = "graft_rpc [65]"]
  by (auto simp: graft_rpc_def Let_def pending_grafts_def pending_prunes_def in_mesh_def mget0_def
      Prune_GetTopicID_def mkPrune_def)

section \<open>Control messages\<close>


text \<open>
  C36: the PRUNEs that answer several GRAFTs for topics without a mesh all name the last of these topics,
  because they hold the address of the loop variable: the other topics are refused silently.
\<close>

theorem handleGraft_last_topic:
  "map Prune_GetTopicID (fst (handleGraft p ctl st)) =
     replicate (length (refused ctl st)) (last (refused ctl st))"
proof -
  obtain us s where g: "graft_loop p (c_Graft ctl) [] st = (us, s)" by force
  have "us = refused ctl st" using graft_loop_spec [OF g] by (simp add: refused_def graft_topics_def)
  then show ?thesis using g
    by (auto simp: handleGraft_def loop_var_ptrs_def Prune_GetTopicID_def mkPrune_def map_replicate_const)
qed

section \<open>Publishing\<close>


section \<open>Joining and leaving\<close>

text \<open>
  C28: joining a topic without a mesh creates it from the topic's fanout, or else from at most six of its
  gossiping peers; every peer of the new mesh is tagged and sent a GRAFT for the topic, and no other peer
  is sent anything. Joining a topic that has a mesh changes nothing.
\<close>

theorem gossip_join:
  assumes "peers_ok st"
  shows "\<exists>st'. rt_Join (gossipsub_router tc) t st = Some st' \<and>
    (if t \<in> mdom (gs_mesh st) then st' = st
     else (\<forall>u. u \<noteq> t \<longrightarrow> mget (gs_mesh st') u = mget (gs_mesh st) u) \<and> mget (gs_fanout st') t = None \<and>
       (case mget (gs_fanout st) t of
          Some f \<Rightarrow> mesh_peers st' t = mdom f
        | None \<Rightarrow> mesh_peers st' t \<subseteq> gs_candidates st t (\<lambda>_. True) \<and>
                  card (mesh_peers st' t) = min 6 (card (gs_candidates st t (\<lambda>_. True)))) \<and>
       (\<exists>ps. distinct ps \<and> set ps = mesh_peers st' t \<and> n_tags st' = n_tags st @ map (\<lambda>p. TagPeer p (topicTag t) 2) ps) \<and>
       (\<forall>p. if p \<in> mesh_peers st' t \<and> has_room st p
            then \<exists>m gs. outbox st' p = outbox st p @ [m] \<and> rpc_grafts m = mkGraft t # gs \<and> r_Publish m = []
            else outbox st' p = outbox st p))"
proof (cases "t \<in> mdom (gs_mesh st)")
  case True
  then show ?thesis by (simp add: gossipsub_router_def gs_Join_def)
next
  case False
  obtain st' s ps gmap where run: "gs_Join t st = Some st'" and ps: "set ps = mdom gmap" "distinct ps"
    and each: "sends_each (\<lambda>_. graft_rpc t) ps (\<lambda>p. [TagPeer p (topicTag t) 2]) s st'"
    and s: "gs_mesh s = mput t gmap (gs_mesh st)" "n_tags s = n_tags st" "n_peers s = n_peers st"
    and fan: "mget (gs_fanout s) = (mget (gs_fanout st))(t := None)"
    and start: "case mget (gs_fanout st) t of Some f \<Rightarrow> gmap = f
       | None \<Rightarrow> mdom gmap \<subseteq> gs_candidates st t (\<lambda>_. True) \<and> mlen gmap = min 6 (card (gs_candidates st t (\<lambda>_. True)))"
    using gs_Join_spec [OF assms False] by blast
  have sends: "gs_sends s st'" and tags: "n_tags st' = n_tags st @ map (\<lambda>p. TagPeer p (topicTag t) 2) ps"
    using each s(2) by (simp_all add: sends_each_def map_concat [symmetric] concat_map_singleton)
  have mesh: "gs_mesh st' = mput t gmap (gs_mesh st)" "mget (gs_fanout st') t = None"
    using sends s(1) fan by (simp_all add: gs_sends_def)
  have peers: "mesh_peers st' t = mdom gmap" by (simp add: mesh_peers_def mesh mget0_update)
  have view: "outbox s = outbox st" "has_room s = has_room st"
    by (simp_all add: s(3) outbox_def has_room_def fun_eq_iff)
  have box: "\<forall>p. if p \<in> mdom gmap \<and> has_room st p
      then \<exists>m gs. outbox st' p = outbox st p @ [m] \<and> rpc_grafts m = mkGraft t # gs \<and> r_Publish m = []
      else outbox st' p = outbox st p"
    using each ps by (simp add: sends_each_def view merged_parts graft_rpc_def)
  have "case mget (gs_fanout st) t of Some f \<Rightarrow> mdom gmap = mdom f
       | None \<Rightarrow> mdom gmap \<subseteq> gs_candidates st t (\<lambda>_. True) \<and> card (mdom gmap) = min 6 (card (gs_candidates st t (\<lambda>_. True)))"
    using start by (simp add: mlen_card split: option.splits)
  moreover have "rt_Join (gossipsub_router tc) t st = Some st'" using run by (simp add: gossipsub_router_def)
  moreover have "\<forall>u. u \<noteq> t \<longrightarrow> mget (gs_mesh st') u = mget (gs_mesh st) u" by (simp add: mesh lookup_update)
  moreover have "\<exists>ps. distinct ps \<and> set ps = mdom gmap \<and> n_tags st' = n_tags st @ map (\<lambda>p. TagPeer p (topicTag t) 2) ps"
    using ps tags by blast
  ultimately show ?thesis
    unfolding peers [symmetric] using False mesh(2) box [folded peers]
    by (intro exI [of _ st']) (simp only: if_False simp_thms)
qed

text \<open>
  Leaving a topic with a mesh removes the mesh; every peer of it is untagged and sent a PRUNE for the
  topic, no other peer is sent anything and no other mesh changes. Leaving any other topic changes nothing.
\<close>

lemma gossip_leave:
  assumes "peers_ok st"
  shows "\<exists>st'. rt_Leave (gossipsub_router tc) t st = Some st' \<and>
    (if t \<notin> mdom (gs_mesh st) then st' = st
     else gs_mesh st' = mdel t (gs_mesh st) \<and>
       (\<exists>ps. distinct ps \<and> set ps = mesh_peers st t \<and> n_tags st' = n_tags st @ map (\<lambda>p. UntagPeer p (topicTag t)) ps) \<and>
       (\<forall>p. if p \<in> mesh_peers st t \<and> has_room st p
            then \<exists>m prs. outbox st' p = outbox st p @ [m] \<and> rpc_prunes m = mkPrune t # prs \<and> r_Publish m = []
            else outbox st' p = outbox st p))"
proof (cases "mget (gs_mesh st) t")
  case None
  then show ?thesis by (simp add: gossipsub_router_def gs_Leave_def mem_mdom)
next
  case (Some gmap)
  let ?s = "st\<lparr>gs_mesh := mdel t (gs_mesh st)\<rparr>"
  obtain st' ps where run: "gs_Leave t st = Some st'" and ps: "set ps = mdom gmap" "distinct ps"
    and each: "sends_each (\<lambda>_. prune_rpc t) ps (\<lambda>p. [UntagPeer p (topicTag t)]) ?s st'"
    using gs_Leave_spec [OF assms Some] by blast
  have peers: "mesh_peers st t = mdom gmap" using Some by (simp add: mesh_peers_def)
  have sends: "gs_mesh st' = mdel t (gs_mesh st)" "n_tags st' = n_tags st @ map (\<lambda>p. UntagPeer p (topicTag t)) ps"
    using each by (simp_all add: sends_each_def gs_sends_def concat_map_singleton)
  have view: "outbox ?s = outbox st" "has_room ?s = has_room st"
    by (simp_all add: outbox_def has_room_def fun_eq_iff)
  have box: "\<forall>p. if p \<in> mdom gmap \<and> has_room st p
      then \<exists>m prs. outbox st' p = outbox st p @ [m] \<and> rpc_prunes m = mkPrune t # prs \<and> r_Publish m = []
      else outbox st' p = outbox st p"
    using each ps by (simp add: sends_each_def view merged_parts prune_rpc_def)
  have rest: "rt_Leave (gossipsub_router tc) t st = Some st'" "t \<in> mdom (gs_mesh st)"
    "\<exists>ps. distinct ps \<and> set ps = mdom gmap \<and> n_tags st' = n_tags st @ map (\<lambda>p. UntagPeer p (topicTag t)) ps"
    using Some run ps sends(2) by (auto simp: gossipsub_router_def)
  show ?thesis
    unfolding peers by (intro exI [of _ st']) (use rest sends(1) box in \<open>simp only: not_True_eq_False if_False simp_thms\<close>)
qed


section \<open>Witnesses\<close>




theorem gossip_join_witness:
  "\<exists>st'. rt_Join (gossipsub_router \<lparr>tc_Has = (\<lambda>_ _. False), tc_Add = (\<lambda>_ s. s)\<rparr>) (str ''art'') (sample_gossip () ()) = Some st'"
  using gossip_join [OF sample_gossip_ok, where seen1 = "()" and bl1 = "()" and t = "str ''art''"
      and tc = "\<lparr>tc_Has = (\<lambda>_ _. False), tc_Add = (\<lambda>_ s. s)\<rparr>"] by blast

section \<open>The heartbeat\<close>

text \<open>
  C10: the heartbeat returns and repairs every mesh: one with fewer than four peers is filled up to six with
  gossiping peers of the topic, one with more than twelve is cut to six, any other is left alone; so after it
  no mesh has more than twelve peers, and one with fewer than four has all there are. The topics stay.
\<close>

theorem heartbeat_mesh:
  assumes "peers_ok st" "gs_inv st"
  shows "\<exists>st'. heartbeat st = Some st' \<and> router_frame st st' \<and> mdom (gs_mesh st') = mdom (gs_mesh st) \<and>
    (\<forall>t \<in> mdom (gs_mesh st). mesh_repaired st t (mesh_peers st' t) \<and> card (mesh_peers st' t) \<le> 12 \<and>
       (card (mesh_peers st' t) < 4 \<longrightarrow> mesh_peers st' t = mesh_peers st t \<union> newcomers st t))"
proof -
  have "card new \<le> 12 \<and> (card new < 4 \<longrightarrow> new = mesh_peers st t \<union> newcomers st t)"
    if r: "mesh_repaired st t new" and fin: "finite new" for t new
  proof -
    have disj: "mesh_peers st t \<inter> newcomers st t = {}" by (auto simp: newcomers_def gs_candidates_def)
    have "new = mesh_peers st t \<union> newcomers st t" if "card new < 4"
    proof -
      have low: "card (mesh_peers st t) < 4" using r that by (auto simp: mesh_repaired_def split: if_splits)
      then have "new \<subseteq> mesh_peers st t \<union> newcomers st t" "card new = card (mesh_peers st t) + card (newcomers st t)"
        using r that by (auto simp: mesh_repaired_def min_def split: if_splits)
      then show ?thesis using disj by (intro card_subset_eq) (simp_all add: card_Un_disjoint)
    qed
    then show ?thesis using r by (auto simp: mesh_repaired_def split: if_splits)
  qed
  moreover have "finite (mesh_peers s t)" for s :: "('a, 'b, 'c) gossipsub_scheme" and t by simp
  ultimately show ?thesis using heartbeat_spec [OF assms] by (auto simp del: finite_mesh_peers) blast
qed

theorem heartbeat_mesh_witness:
  "\<exists>st'. heartbeat (sample_gossip () ()) = Some st' \<and> mesh_peers st' (str ''art'') = {[1], [2]}"
proof -
  let ?st = "sample_gossip () ()"
  have m: "mesh_peers ?st (str ''art'') = {[1]}" by (simp add: mesh_peers_def mget0_def)
  have n: "newcomers ?st (str ''art'') = {[2]}"
    by (auto simp: newcomers_def gs_candidates_def m lookup_update)
  obtain st' where "heartbeat ?st = Some st'" "mesh_repaired ?st (str ''art'') (mesh_peers st' (str ''art''))"
    "card (mesh_peers st' (str ''art'')) < 4 \<longrightarrow> mesh_peers st' (str ''art'') = mesh_peers ?st (str ''art'') \<union> newcomers ?st (str ''art'')"
    using heartbeat_mesh [OF sample_gossip_ok sample_gossip_inv, where seen1 = "()" and bl1 = "()"] by auto
  then show ?thesis by (intro exI [of _ st']) (auto simp: m n mesh_repaired_def)
qed

text \<open>
  C27: the heartbeat removes exactly the fanouts of the topics to which nothing was published for a minute, with
  their times; every other fanout loses the peers that left the topic and is filled up to six; and the message
  cache is shifted by one slot.
\<close>

theorem heartbeat_fanout:
  assumes "peers_ok st" "gs_inv st"
  shows "\<exists>st'. heartbeat st = Some st' \<and> Shift (gs_mcache st) = Some (gs_mcache st') \<and>
    mdom (gs_fanout st') = {t \<in> mdom (gs_fanout st). \<not> expired st t} \<and>
    (\<forall>t \<in> mdom (gs_fanout st'). fanout_repaired st t (fanout_peers st' t)) \<and>
    (\<forall>t. mget (gs_lastpub st') t = (if expired st t then None else mget (gs_lastpub st) t))"
  using heartbeat_spec [OF assms] by blast

theorem heartbeat_fanout_witness:
  "\<exists>st'. heartbeat (sample_gossip () ()) = Some st' \<and> mdom (gs_fanout st') = {}"
  using heartbeat_fanout [OF sample_gossip_ok sample_gossip_inv, where seen1 = "()" and bl1 = "()"] by auto

text \<open>
  C37: the coalesced control message that the heartbeat sends to a peer names, for each of the topics it was
  grafted to (pruned from), the last of these topics: the entries hold the address of the loop variable.
\<close>

theorem sendGraftPrune_last_topic:
  assumes "peers_ok st" "p \<in> mdom tograft \<union> mdom toprune" "has_room st p"
  shows "\<exists>st' m gs prs. sendGraftPrune tograft toprune st = Some st' \<and> outbox st' p = outbox st p @ [m] \<and>
    map Graft_GetTopicID (rpc_grafts m) =
      replicate (length (topics_of tograft p)) (last (topics_of tograft p)) @ map Graft_GetTopicID gs \<and>
    map Prune_GetTopicID (rpc_prunes m) =
      replicate (length (topics_of toprune p)) (last (topics_of toprune p)) @ map Prune_GetTopicID prs \<and>
    set gs \<subseteq> set (pending_grafts st p) \<and> set prs \<subseteq> set (pending_prunes st p)"
proof -
  obtain st' ps where run: "sendGraftPrune tograft toprune st = Some st'" and ps: "set ps = mdom tograft \<union> mdom toprune"
    and each: "sends_each (graft_prune_rpc tograft toprune) ps (\<lambda>_. []) st st'"
    using sendGraftPrune_spec [OF assms(1), of tograft toprune] by blast
  let ?m = "merged p (graft_prune_rpc tograft toprune p) st"
  have "outbox st' p = outbox st p @ [?m]" using each assms(2,3) ps by (simp add: sends_each_def)
  moreover have "map Graft_GetTopicID (map mkGraft (loop_var_ptrs ts)) = replicate (length ts) (last ts)"
    "map Prune_GetTopicID (map mkPrune (loop_var_ptrs ts)) = replicate (length ts) (last ts)" for ts
    by (simp_all add: loop_var_ptrs_def Graft_GetTopicID_def mkGraft_def Prune_GetTopicID_def mkPrune_def map_replicate_const)
  ultimately show ?thesis
    using run
    by (intro exI [of _ st'] exI [of _ ?m]
        exI [of _ "filter (\<lambda>g. in_mesh st (Graft_GetTopicID g) p) (pending_grafts st p)"]
        exI [of _ "filter (\<lambda>g. \<not> in_mesh st (Prune_GetTopicID g) p) (pending_prunes st p)"])
      (auto simp: merged_parts graft_prune_rpc_def simp del: map_map)
qed

theorem sendGraftPrune_last_topic_witness:
  "\<exists>st' m. sendGraftPrune (mput [1] [[65], [66]] mempty) mempty (sample_gossip () ()) = Some st' \<and>
     outbox st' [1] = [m] \<and> map Graft_GetTopicID (rpc_grafts m) = [[66], [66]]"
proof -
  obtain st' m gs where "sendGraftPrune (mput [1] [[65], [66]] mempty) mempty (sample_gossip () ()) = Some st'"
    "outbox st' [1] = [m]" "map Graft_GetTopicID (rpc_grafts m) = [[66], [66]] @ map Graft_GetTopicID gs"
    "set gs \<subseteq> set (pending_grafts (sample_gossip () ()) [1])"
    using sendGraftPrune_last_topic [OF sample_gossip_ok, where seen1 = "()" and bl1 = "()" and p = "[1]"
        and tograft = "mput [1] [[65], [66]] mempty" and toprune = mempty]
    by (auto simp: topics_of_def lookup_update numeral_eq_Suc)
  then show ?thesis by (auto simp: pending_grafts_def)
qed

text \<open>
  A peer that is removed is forgotten: it is in no mesh and no fanout, its protocol is unknown, and nothing is
  pending for it; every other peer keeps its links and what is pending for it.
\<close>

lemma RemovePeer_forgets:
  "\<not> in_mesh (gs_RemovePeer p st) t p \<and> p \<notin> fanout_peers (gs_RemovePeer p st) t \<and>
   mget (gs_peers (gs_RemovePeer p st)) p = None \<and> mget (gs_control (gs_RemovePeer p st)) p = None \<and>
   mget (gs_gossip (gs_RemovePeer p st)) p = None \<and>
   (q \<noteq> p \<longrightarrow> (in_mesh (gs_RemovePeer p st) t q \<longleftrightarrow> in_mesh st t q) \<and>
      (q \<in> fanout_peers (gs_RemovePeer p st) t \<longleftrightarrow> q \<in> fanout_peers st t) \<and>
      mget (gs_peers (gs_RemovePeer p st)) q = mget (gs_peers st) q \<and>
      mget (gs_control (gs_RemovePeer p st)) q = mget (gs_control st) q)"
  by (auto simp: gs_RemovePeer_def in_mesh_def fanout_peers_def mget0_def split: option.splits)

end
