(* ===== verification/Effects.thy ===== *)
theory Effects
  imports System GossipProps
begin

text \<open>
  What the cases of the process loop do, on every branch: the delivery of messages to subscriptions, the
  bookkeeping of who is in which topic, the announcements, and the coming and going of peers.
\<close>

section \<open>Subscription objects\<close>

text \<open>\<open>subs_mapped f st st'\<close>: only subscription objects changed, the one at \<open>i\<close> by \<open>f i\<close>.\<close>

definition subs_mapped ::
  "(nat \<Rightarrow> Subscription \<Rightarrow> Subscription) \<Rightarrow> ('s, 'b, 'z) node_scheme \<Rightarrow> ('s, 'b, 'z) node_scheme \<Rightarrow> bool" where
  "subs_mapped f st st' \<longleftrightarrow> (\<exists>H. st' = st\<lparr>n_subs := H\<rparr>) \<and>
     (\<forall>i. mget (n_subs st') i = map_option (f i) (mget (n_subs st) i))"

lemma subs_mapped_id: "(\<And>i sub. f i sub = sub) \<Longrightarrow> subs_mapped f st st"
proof -
  assume f: "\<And>i sub. f i sub = sub"
  have "st = st\<lparr>n_subs := n_subs st\<rparr>" by simp
  moreover have "mget (n_subs st) i = map_option (f i) (mget (n_subs st) i)" for i
    using f by (cases "mget (n_subs st) i") simp_all
  ultimately show ?thesis unfolding subs_mapped_def by blast
qed

lemma subs_mapped_trans:
  assumes "subs_mapped f st s" "subs_mapped g s st'"
  shows "subs_mapped (\<lambda>i sub. g i (f i sub)) st st'"
  using assms by (auto simp: subs_mapped_def option.map_comp comp_def)

lemma subs_mapped_cong:
  assumes "subs_mapped f st st'" "\<And>i sub. mget (n_subs st) i = Some sub \<Longrightarrow> f i sub = g i sub"
  shows "subs_mapped g st st'"
  using assms by (auto simp: subs_mapped_def intro!: map_option_cong)

lemma upd_sub_mapped: "subs_mapped (\<lambda>j sub. if j = i then f sub else sub) st (upd_sub i f st)"
proof (cases "mget (n_subs st) i")
  case None
  have "subs_mapped (\<lambda>_ sub. sub) st st" by (rule subs_mapped_id) simp
  then have "subs_mapped (\<lambda>j sub. if j = i then f sub else sub) st st"
    by (rule subs_mapped_cong) (use None in auto)
  with None show ?thesis by (simp add: upd_sub_def)
next
  case (Some sub)
  then have "mget (mput i (f sub) (n_subs st)) j =
      map_option (\<lambda>sub. if j = i then f sub else sub) (mget (n_subs st) j)" for j
    by (auto simp: lookup_update option.map_ident)
  with Some show ?thesis by (auto simp: upd_sub_def subs_mapped_def)
qed

lemma fold_upd_sub_mapped:
  assumes "distinct is"
  shows "subs_mapped (\<lambda>j sub. if j \<in> set is then f sub else sub) st (fold (\<lambda>i. upd_sub i f) is st)"
  using assms
proof (induction "is" arbitrary: st)
  case Nil
  show ?case by (simp add: subs_mapped_id)
next
  case (Cons i "is")
  have "subs_mapped (\<lambda>j sub. if j \<in> set is then f sub else sub) (upd_sub i f st) (fold (\<lambda>i. upd_sub i f) is (upd_sub i f st))"
    using Cons by simp
  from subs_mapped_trans [OF upd_sub_mapped this] show ?case
    using Cons.prems by (auto intro: subs_mapped_cong)
qed

lemma notify_topic_mapped:
  "subs_mapped (\<lambda>i sub. if i \<in> mdom (mget0 (n_myTopics st) t) then sendNotification evt sub else sub)
     st (notify_topic t evt st)"
proof (cases "mget (n_myTopics st) t")
  case None
  then show ?thesis by (auto simp: notify_topic_def mget0_def intro: subs_mapped_id)
next
  case (Some subs)
  then show ?thesis
    using fold_upd_sub_mapped [OF distinct_mkeys, of subs "sendNotification evt" st]
    by (simp add: notify_topic_def mget0_def)
qed

section \<open>Delivering a message\<close>

text \<open>\<open>n\<close> attempts to put a message into the channel of a subscription.\<close>

definition deliver_times :: "nat \<Rightarrow> pb_Message \<Rightarrow> Subscription \<Rightarrow> Subscription" where
  "deliver_times n msg sub =
     (let c = s_ch sub
      in sub\<lparr>s_ch := c\<lparr>ch_buf := ch_buf c @ replicate (min n (ch_cap c - length (ch_buf c))) msg\<rparr>\<rparr>)"

lemma deliver_times_0 [simp]: "deliver_times 0 msg sub = sub"
  by (simp add: deliver_times_def)

lemma deliver_times_add: "deliver_times m msg (deliver_times n msg sub) = deliver_times (n + m) msg sub"
proof -
  have "min n c + min m (c - min n c) = min (n + m) c" for c :: nat by linarith
  then show ?thesis by (simp add: deliver_times_def Let_def replicate_add [symmetric] add.assoc [symmetric])
qed

lemma deliver_times_topic [simp]: "s_topic (deliver_times n msg sub) = s_topic sub"
  by (simp add: deliver_times_def Let_def)

lemma deliver_mapped:
  assumes "subs_ok (n_subs st) (n_myTopics st)" "i \<in> mdom (mget0 (n_myTopics st) t)"
  shows "\<exists>st'. deliver msg i st = Some st' \<and> subs_mapped (\<lambda>j sub. if j = i then deliver_times 1 msg sub else sub) st st'"
proof -
  obtain sub where sub: "mget (n_subs st) i = Some sub" "sub_ok True sub"
    using subs_ok_live [OF assms] by blast
  show ?thesis
  proof (cases "chan_room (s_ch sub)")
    case True
    then have "deliver msg i st = Some (upd_sub i (deliver_times 1 msg) st)"
      using sub by (auto simp: deliver_def upd_sub_def deliver_times_def Let_def chan_send_def chan_room_def sub_ok_def Suc_leI)
    with upd_sub_mapped show ?thesis by blast
  next
    case False
    then have full: "deliver_times 1 msg sub = sub" "deliver msg i st = Some st"
      using sub by (auto simp: deliver_def deliver_times_def Let_def chan_send_def chan_room_def sub_ok_def)
    have "subs_mapped (\<lambda>_ sub. sub) st st" by (rule subs_mapped_id) simp
    then have "subs_mapped (\<lambda>j sub. if j = i then deliver_times 1 msg sub else sub) st st"
      by (rule subs_mapped_cong) (use full sub(1) in auto)
    with full show ?thesis by blast
  qed
qed

lemma deliver_all_mapped:
  assumes "subs_ok (n_subs st) (n_myTopics st)" "set is \<subseteq> mdom (mget0 (n_myTopics st) t)" "distinct is"
  shows "\<exists>st'. foldM (deliver msg) is st = Some st' \<and>
    subs_mapped (\<lambda>j sub. if j \<in> set is then deliver_times 1 msg sub else sub) st st'"
  using assms
proof (induction "is" arbitrary: st)
  case Nil
  then show ?case by (simp add: subs_mapped_id)
next
  case (Cons i "is")
  have i: "i \<in> mdom (mget0 (n_myTopics st) t)" using Cons.prems(2) by simp
  obtain s where s: "deliver msg i st = Some s" "same_but_subs st s"
    using deliver_ok [OF Cons.prems(1) i] by blast
  have m: "subs_mapped (\<lambda>j sub. if j = i then deliver_times 1 msg sub else sub) st s"
    using deliver_mapped [OF Cons.prems(1) i, of msg] s(1) by simp
  obtain st' where st': "foldM (deliver msg) is s = Some st'"
    "subs_mapped (\<lambda>j sub. if j \<in> set is then deliver_times 1 msg sub else sub) s st'"
    using Cons.IH [of s] Cons.prems same_but_subs_views [OF s(2)] by auto
  from subs_mapped_trans [OF m st'(2)]
  have "subs_mapped (\<lambda>j sub. if j \<in> set (i # is) then deliver_times 1 msg sub else sub) st st'"
    by (rule subs_mapped_cong) (use Cons.prems(3) in auto)
  with s(1) st'(1) show ?case by auto
qed

lemma notifySubs_mapped:
  assumes "subs_ok (n_subs st) (n_myTopics st)"
  shows "\<exists>st'. notifySubs msg st = Some st' \<and>
    subs_mapped (\<lambda>i sub. if i \<in> mdom (mget0 (n_myTopics st) (s_topic sub))
                        then deliver_times (count_list (m_TopicIDs msg) (s_topic sub)) msg sub else sub) st st'"
proof -
  let ?f = "\<lambda>topic st. foldM (deliver msg) (mkeys (mget0 (n_myTopics st) topic)) st"
  let ?g = "\<lambda>T ts i sub. if i \<in> mdom (mget0 T (s_topic sub)) then deliver_times (count_list ts (s_topic sub)) msg sub else sub"
  have "\<exists>st'. foldM ?f ts s = Some st' \<and> subs_mapped (?g (n_myTopics s) ts) s st'"
    if "subs_ok (n_subs s) (n_myTopics s)" for ts and s :: "('a, 'b, 'c) node_scheme"
    using that
  proof (induction ts arbitrary: s)
    case Nil
    show ?case by (simp add: subs_mapped_id)
  next
    case (Cons t ts)
    let ?is = "mkeys (mget0 (n_myTopics s) t)"
    have sub: "set ?is \<subseteq> mdom (mget0 (n_myTopics s) t)" by simp
    obtain u where u: "?f t s = Some u" "same_but_subs s u" using deliver_all_ok [OF Cons.prems sub] by blast
    have m: "subs_mapped (\<lambda>j sub. if j \<in> set ?is then deliver_times 1 msg sub else sub) s u"
      using deliver_all_mapped [OF Cons.prems sub distinct_mkeys, of msg] u(1) by simp
    note v = same_but_subs_views [OF u(2)]
    obtain st' where st': "foldM ?f ts u = Some st'" "subs_mapped (?g (n_myTopics s) ts) u st'"
      using Cons.IH [of u] v Cons.prems by auto
    have cong: "?g (n_myTopics s) ts i (if i \<in> set ?is then deliver_times 1 msg sub else sub) = ?g (n_myTopics s) (t # ts) i sub"
      if "mget (n_subs s) i = Some sub" for i sub
    proof -
      have "s_topic sub = t" if "i \<in> mdom (mget0 (n_myTopics s) t)"
        using subs_ok_live [OF Cons.prems that] \<open>mget (n_subs s) i = Some sub\<close> by auto
      then show ?thesis by (cases "i \<in> mdom (mget0 (n_myTopics s) t)") (auto simp: deliver_times_add)
    qed
    from subs_mapped_trans [OF m st'(2)] have "subs_mapped (?g (n_myTopics s) (t # ts)) s st'"
      by (rule subs_mapped_cong) (rule cong)
    moreover have "foldM ?f (t # ts) s = Some st'" by (simp add: u(1) st'(1))
    ultimately show ?case by blast
  qed
  from this [OF assms] show ?thesis by (simp add: notifySubs_def)
qed

section \<open>Who is in which topic\<close>

abbreviation members :: "('s, 'b, 'z) node_scheme \<Rightarrow> topic \<Rightarrow> peer set" where
  "members st t \<equiv> mdom (mget0 (n_topics st) t)"

text \<open>\<open>told st p t joined i sub\<close>: the subscription hears of it if \<open>p\<close>'s membership of \<open>t\<close> changes.\<close>

definition told ::
  "('s, 'b, 'z) node_scheme \<Rightarrow> peer \<Rightarrow> topic \<Rightarrow> bool \<Rightarrow> nat \<Rightarrow> Subscription \<Rightarrow> Subscription" where
  "told st p t joined i sub =
     (if i \<in> mdom (mget0 (n_myTopics st) t) \<and> (p \<in> members st t) \<noteq> joined
      then sendNotification \<lparr>ev_Type = (if joined then PeerJoin else PeerLeave), ev_Peer = p\<rparr> sub else sub)"

text \<open>Membership changes as \<open>change\<close> says, the subscriptions are told, nothing else happens.\<close>

definition topic_change ::
  "peer \<Rightarrow> topic \<Rightarrow> bool \<Rightarrow> ('s, 'b, 'z) node_scheme \<Rightarrow> ('s, 'b, 'z) node_scheme \<Rightarrow> bool" where
  "topic_change p t joined st st' \<longleftrightarrow>
     (\<forall>u. members st' u = (if u = t then (if joined then insert p (members st t) else members st t - {p}) else members st u)) \<and>
     subs_mapped (told st p t joined) (st\<lparr>n_topics := n_topics st'\<rparr>) st'"

lemma topic_change_same:
  assumes "(p \<in> members st t) = joined" "\<And>u. mdom (mget0 T u) = members st u"
  shows "topic_change p t joined st (st\<lparr>n_topics := T\<rparr>)"
proof -
  have "subs_mapped (told st p t joined) (st\<lparr>n_topics := T\<rparr>) (st\<lparr>n_topics := T\<rparr>)"
    using assms(1) by (intro subs_mapped_id) (simp add: told_def)
  moreover have "members (st\<lparr>n_topics := T\<rparr>) u =
      (if u = t then (if joined then insert p (members st t) else members st t - {p}) else members st u)" for u
    using assms by auto
  ultimately show ?thesis by (simp add: topic_change_def)
qed

lemma topic_change_notify:
  assumes "(p \<in> members st t) \<noteq> joined"
    and "\<And>u. mdom (mget0 T u) = (if u = t then (if joined then insert p (members st t) else members st t - {p}) else members st u)"
  shows "topic_change p t joined st
    (notify_topic t \<lparr>ev_Type = (if joined then PeerJoin else PeerLeave), ev_Peer = p\<rparr> (st\<lparr>n_topics := T\<rparr>))"
proof -
  let ?evt = "\<lparr>ev_Type = (if joined then PeerJoin else PeerLeave), ev_Peer = p\<rparr>"
  let ?s = "notify_topic t ?evt (st\<lparr>n_topics := T\<rparr>)"
  have T: "n_topics ?s = T" using notify_topic_same [of "st\<lparr>n_topics := T\<rparr>" t ?evt] by (auto simp: same_but_subs_def)
  have "subs_mapped (\<lambda>i sub. if i \<in> mdom (mget0 (n_myTopics st) t) then sendNotification ?evt sub else sub)
      (st\<lparr>n_topics := T\<rparr>) ?s"
    using notify_topic_mapped [of "st\<lparr>n_topics := T\<rparr>" t ?evt] by simp
  then have "subs_mapped (told st p t joined) (st\<lparr>n_topics := T\<rparr>) ?s"
    by (rule subs_mapped_cong) (use assms(1) in \<open>auto simp: told_def\<close>)
  with assms(2) T show ?thesis by (simp add: topic_change_def)
qed

lemma leave_topic_change: "topic_change p t False st (leave_topic p t st)"
proof (cases "p \<in> members st t")
  case True
  have "topic_change p t False st (notify_topic t \<lparr>ev_Type = (if False then PeerJoin else PeerLeave), ev_Peer = p\<rparr>
      (st\<lparr>n_topics := mput t (mdel p (mget0 (n_topics st) t)) (n_topics st)\<rparr>))"
    by (rule topic_change_notify) (use True in \<open>auto simp: mget0_update\<close>)
  with True show ?thesis by (simp add: leave_topic_def Let_def notifyLeave_def)
next
  case False
  then have "topic_change p t False st (st\<lparr>n_topics := n_topics st\<rparr>)" by (intro topic_change_same) auto
  with False show ?thesis by (simp add: leave_topic_def Let_def)
qed

lemma handle_subopt_change: "topic_change p (GetTopicid so) (GetSubscribe so) st (handle_subopt p so st)"
proof (cases "GetSubscribe so")
  case True
  let ?t = "GetTopicid so"
  let ?T = "if mhas (n_topics st) ?t then n_topics st else mput ?t (mget0 (n_topics st) ?t) (n_topics st)"
  have T: "mdom (mget0 ?T u) = members st u" for u by (auto simp: mget0_update)
  have st: "(if mhas (n_topics st) ?t then st else st\<lparr>n_topics := mput ?t (mget0 (n_topics st) ?t) (n_topics st)\<rparr>)
      = st\<lparr>n_topics := ?T\<rparr>" by simp
  show ?thesis
  proof (cases "p \<in> members st ?t")
    case isin: True
    then have "topic_change p ?t True st (st\<lparr>n_topics := ?T\<rparr>)" by (intro topic_change_same T) simp
    then show ?thesis using True isin unfolding handle_subopt_def Let_def st by simp
  next
    case False
    have "topic_change p ?t True st (notify_topic ?t \<lparr>ev_Type = (if True then PeerJoin else PeerLeave), ev_Peer = p\<rparr>
        (st\<lparr>n_topics := mput ?t (mput p () (mget0 (n_topics st) ?t)) ?T\<rparr>))"
      by (rule topic_change_notify) (use False T in \<open>auto simp: mget0_update\<close>)
    then show ?thesis using True False unfolding handle_subopt_def Let_def st by simp
  qed
next
  case False
  then have "handle_subopt p so st = leave_topic p (GetTopicid so) st"
    by (auto simp: handle_subopt_def leave_topic_def Let_def mget0_def split: option.split)
  with leave_topic_change [of p "GetTopicid so" st] False show ?thesis by simp
qed

text \<open>What a sequence of subscription options leaves of a peer's membership: the last one that names the topic counts.\<close>

definition member_after :: "pb_SubOpts list \<Rightarrow> topic \<Rightarrow> bool \<Rightarrow> bool" where
  "member_after sos t old = fold (\<lambda>so b. if GetTopicid so = t then GetSubscribe so else b) sos old"

lemma handle_subopts_members:
  "q \<in> members (fold (handle_subopt p) sos st) t \<longleftrightarrow>
     (if q = p then member_after sos t (p \<in> members st t) else q \<in> members st t)"
proof (induction sos arbitrary: st)
  case (Cons so sos)
  have "members (handle_subopt p so st) t = (if t = GetTopicid so
      then (if GetSubscribe so then insert p (members st t) else members st t - {p}) else members st t)"
    using handle_subopt_change [of p so st] by (auto simp: topic_change_def)
  then show ?case using Cons.IH [of "handle_subopt p so st"] by (auto simp: member_after_def)
qed (simp add: member_after_def)

text \<open>A peer leaves all topics.\<close>

lemma topic_change_fields:
  assumes "topic_change p t joined st st'"
  shows "\<exists>T H. st' = st\<lparr>n_topics := T, n_subs := H\<rparr>"
proof -
  obtain H where "st' = st\<lparr>n_topics := n_topics st'\<rparr>\<lparr>n_subs := H\<rparr>" using assms by (auto simp: topic_change_def subs_mapped_def)
  then show ?thesis by blast
qed

lemma leave_topics_members:
  "members (fold (leave_topic p) ts st) t = (if t \<in> set ts then members st t - {p} else members st t) \<and>
     (\<exists>T H. fold (leave_topic p) ts st = st\<lparr>n_topics := T, n_subs := H\<rparr>)"
proof (induction ts arbitrary: st)
  case Nil
  have "\<exists>T H. st = st\<lparr>n_topics := T, n_subs := H\<rparr>"
    by (rule exI [of _ "n_topics st"], rule exI [of _ "n_subs st"]) simp
  then show ?case by simp
next
  case (Cons u ts)
  have m: "members (leave_topic p u st) t = (if t = u then members st t - {p} else members st t)"
    using leave_topic_change [of p u st] by (auto simp: topic_change_def)
  obtain T H where "leave_topic p u st = st\<lparr>n_topics := T, n_subs := H\<rparr>"
    using topic_change_fields [OF leave_topic_change] by blast
  with m Cons.IH [of "leave_topic p u st"] show ?case by auto
qed

lemma drop_all_topics: "p \<notin> members (fold (leave_topic p) (mkeys (n_topics st)) st) t"
  using leave_topics_members [of p "mkeys (n_topics st)" st t]
  by (auto simp: mget0_def mem_mdom split: option.splits)

text \<open>The subscriptions of the topics it leaves are told.\<close>

lemma subs_mapped_topics:
  assumes "subs_mapped f (st\<lparr>n_topics := T\<rparr>) st'" shows "subs_mapped f (st\<lparr>n_topics := n_topics st'\<rparr>) st'"
  using assms by (auto simp: subs_mapped_def)

lemma leave_topics_mapped:
  assumes "subs_ok (n_subs st) (n_myTopics st)" "distinct ts"
  shows "subs_mapped (\<lambda>i sub. if s_topic sub \<in> set ts then told st p (s_topic sub) False i sub else sub)
    (st\<lparr>n_topics := n_topics (fold (leave_topic p) ts st)\<rparr>) (fold (leave_topic p) ts st)"
  using assms
proof (induction ts arbitrary: st)
  case Nil
  have "subs_mapped (\<lambda>i sub. sub) st st" by (rule subs_mapped_id) simp
  then show ?case by simp
next
  case (Cons t ts)
  let ?s = "leave_topic p t st"
  let ?u = "fold (leave_topic p) ts ?s"
  have ch: "topic_change p t False st ?s" by (rule leave_topic_change)
  obtain T H where s: "?s = st\<lparr>n_topics := T, n_subs := H\<rparr>" using topic_change_fields [OF ch] by blast
  obtain T' H' where u: "?u = ?s\<lparr>n_topics := T', n_subs := H'\<rparr>" using leave_topics_members by blast
  have one: "subs_mapped (told st p t False) (st\<lparr>n_topics := T\<rparr>) ?s" using ch s by (simp add: topic_change_def)
  have ok: "subs_ok (n_subs ?s) (n_myTopics ?s)"
  proof (cases "p \<in> members st t")
    case True
    then show ?thesis
      using notify_topic_same [of "st\<lparr>n_topics := mput t (mdel p (mget0 (n_topics st) t)) (n_topics st)\<rparr>" t
          "\<lparr>ev_Type = PeerLeave, ev_Peer = p\<rparr>"] Cons.prems(1)
      by (auto simp: leave_topic_def Let_def notifyLeave_def same_but_subs_def)
  qed (use Cons.prems(1) in \<open>simp add: leave_topic_def Let_def\<close>)
  have two: "subs_mapped (\<lambda>i sub. if s_topic sub \<in> set ts then told ?s p (s_topic sub) False i sub else sub)
      (?s\<lparr>n_topics := n_topics ?u\<rparr>) ?u"
    using Cons.IH [OF ok] Cons.prems(2) by simp
  have mem: "members ?s v = (if v = t then members st t - {p} else members st v)" for v
    using ch by (simp add: topic_change_def)
  have my: "n_myTopics ?s = n_myTopics st" by (simp add: s)
  have live: "s_topic sub = t" if "mget (n_subs st) i = Some sub" "i \<in> mdom (mget0 (n_myTopics st) t)" for i sub
    using subs_ok_live [OF Cons.prems(1) that(2)] that(1) by auto
  have "(if s_topic (told st p t False i sub) \<in> set ts then told ?s p (s_topic (told st p t False i sub)) False i (told st p t False i sub)
        else told st p t False i sub) =
      (if s_topic sub \<in> set (t # ts) then told st p (s_topic sub) False i sub else sub)"
    if "mget (n_subs st) i = Some sub" for i sub
    using live [OF that] Cons.prems(2) by (auto simp: told_def mem my)
  with one two show ?case by (auto simp: subs_mapped_def s u option.map_comp comp_def intro!: map_option_cong)
qed

section \<open>Announcing\<close>

text \<open>The announcement reaches the peer's queue, or a retry is scheduled; an unknown peer gets nothing.\<close>

definition announced ::
  "RPC \<Rightarrow> topic \<Rightarrow> bool \<Rightarrow> peer set \<Rightarrow> ('s, 'b, 'z) node_scheme \<Rightarrow> ('s, 'b, 'z) node_scheme \<Rightarrow> bool" where
  "announced rpc t sub ps st st' \<longleftrightarrow>
     (\<forall>p. outbox st' p = (if p \<in> ps \<and> has_room st p then outbox st p @ [rpc] else outbox st p)) \<and>
     (\<forall>x. x \<in> set (n_retries st') \<longleftrightarrow>
        x \<in> set (n_retries st) \<or> (\<exists>p \<in> ps \<inter> mdom (n_peers st). \<not> has_room st p \<and> x = (p, t, sub)))"

lemma doAnnounceRetry_announced:
  assumes "peers_ok st"
  shows "\<exists>st'. doAnnounceRetry p t sub st = Some st' \<and> queue_frame st st' \<and>
    announced (rpcWithSubs [mkSubOpts t sub]) t sub {p} st st' \<and> (\<forall>q. q \<noteq> p \<longrightarrow> has_room st' q = has_room st q)"
proof -
  obtain r s where s: "try_send p (rpcWithSubs [mkSubOpts t sub]) st = Some (r, s)"
    using try_send_total [OF assms] by blast
  obtain st' where st': "doAnnounceRetry p t sub st = Some st'" "queue_frame st st'"
    using doAnnounceRetry_ok [OF assms] by blast
  have "outbox (s\<lparr>n_retries := R\<rparr>) = outbox s" "has_room (s\<lparr>n_retries := R\<rparr>) = has_room s" for R
    by (simp_all add: outbox_def has_room_def fun_eq_iff)
  moreover have "has_room s q = has_room st q" if "q \<noteq> p" for q
    using s that by (auto simp: try_send_def has_room_def split: option.splits sent.splits)
  moreover have "p \<in> mdom (n_peers st) \<or> \<not> has_room st p" by (auto simp: has_room_def)
  ultimately show ?thesis
    using st' s try_send_cases [OF assms s]
    by (auto simp: doAnnounceRetry_def announced_def split: send_result.splits)
qed

lemma announce_all:
  assumes "peers_ok st" "distinct ps"
  shows "\<exists>st'. foldM (\<lambda>p. doAnnounceRetry p t sub) ps st = Some st' \<and> queue_frame st st' \<and>
    announced (rpcWithSubs [mkSubOpts t sub]) t sub (set ps) st st'"
  using assms
proof (induction ps arbitrary: st)
  case Nil
  then show ?case by (simp add: announced_def)
next
  case (Cons p ps)
  let ?rpc = "rpcWithSubs [mkSubOpts t sub]"
  obtain s where s: "doAnnounceRetry p t sub st = Some s" "queue_frame st s" "announced ?rpc t sub {p} st s"
    and room: "\<And>q. q \<noteq> p \<Longrightarrow> has_room s q = has_room st q"
    using doAnnounceRetry_announced [OF Cons.prems(1), of p t sub] by blast
  have dom: "mdom (n_peers s) = mdom (n_peers st)" using s(2) by (simp add: queue_frame_def queues_extend_def)
  obtain st' where st': "foldM (\<lambda>p. doAnnounceRetry p t sub) ps s = Some st'" "queue_frame s st'"
    "announced ?rpc t sub (set ps) s st'"
    using Cons.IH [OF queue_frame_peers_ok [OF Cons.prems(1) s(2)]] Cons.prems(2) by auto
  have room': "has_room s q = has_room st q" if "q \<in> set ps" for q using room [of q] that Cons.prems(2) by auto
  have "announced ?rpc t sub (set (p # ps)) st st'"
    unfolding announced_def
  proof (intro conjI allI)
    show "outbox st' q = (if q \<in> set (p # ps) \<and> has_room st q then outbox st q @ [?rpc] else outbox st q)" for q
      using s(3) st'(3) Cons.prems(2) room' [of q] by (auto simp: announced_def)
    show "x \<in> set (n_retries st') \<longleftrightarrow> x \<in> set (n_retries st) \<or>
        (\<exists>q \<in> set (p # ps) \<inter> mdom (n_peers st). \<not> has_room st q \<and> x = (q, t, sub))" for x
      using s(3) st'(3) room' by (cases x) (auto simp: announced_def dom)
  qed
  with s(1) st'(1) queue_frame_trans [OF s(2) st'(2)] show ?case by auto
qed

lemma announce_announced:
  assumes "peers_ok st"
  shows "\<exists>st'. announce t sub st = Some st' \<and> queue_frame st st' \<and>
    announced (rpcWithSubs [mkSubOpts t sub]) t sub UNIV st st'"
proof -
  obtain ps s where r: "range_over (mkeys (n_peers st)) st = (ps, s)" by force
  obtain e where s: "s = st\<lparr>n_choices := e\<rparr>" using range_over_set(4) [OF r] by blast
  have f: "queue_frame st s" by (rule range_over_queue_frame [OF r])
  have ps: "set ps = mdom (n_peers st)" "distinct ps" using range_over_set [OF r] by simp_all
  obtain st' where st': "foldM (\<lambda>p. doAnnounceRetry p t sub) ps s = Some st'" "queue_frame s st'"
    "announced (rpcWithSubs [mkSubOpts t sub]) t sub (set ps) s st'"
    using announce_all [OF queue_frame_peers_ok [OF assms f] ps(2)] by blast
  have "has_room st p \<Longrightarrow> p \<in> mdom (n_peers st)" for p by (auto simp: has_room_def)
  then have "announced (rpcWithSubs [mkSubOpts t sub]) t sub UNIV st st'"
    using st'(3) by (auto simp: announced_def ps(1) s)
  with st' f show ?thesis by (auto simp: announce_def r intro: queue_frame_trans)
qed

text \<open>A router's operation only adds to the queues.\<close>

lemma frame_outbox:
  assumes "router_frame st st'" shows "\<exists>xs. outbox st' p = outbox st p @ xs"
proof (cases "mget (n_peers st) p")
  case None
  then have "p \<notin> mdom (n_peers st')" using frame_mdom_peers [OF assms] by (simp add: mem_mdom)
  then have "mget (n_peers st') p = None" by (simp add: mem_mdom)
  with None show ?thesis by (simp add: outbox_def)
next
  case (Some c)
  then have "p \<in> mdom (n_peers st')" using frame_mdom_peers [OF assms] by auto
  then obtain c' where "mget (n_peers st') p = Some c'" by (auto simp: mem_mdom)
  with Some assms show ?thesis by (auto simp: outbox_def router_frame_def queues_extend_def)
qed

lemma outbox_subs [simp]:
  "outbox (st\<lparr>n_subs := H\<rparr>) = outbox st" "outbox (st\<lparr>n_myTopics := T\<rparr>) = outbox st"
  "outbox (st\<lparr>n_subs := H, n_myTopics := T\<rparr>) = outbox st"
  by (simp_all add: outbox_def fun_eq_iff)

section \<open>The cases of the loop\<close>

text \<open>What \<open>pushMsg\<close> drops at once, what it queues, and what a publication does to a subscription.\<close>

definition rejected ::
  "'b blacklist_methods \<Rightarrow> 's seen_methods \<Rightarrow> peer \<Rightarrow> pb_Message \<Rightarrow> ('s, 'b, 'z) node_scheme \<Rightarrow> bool" where
  "rejected bl tc src msg st \<longleftrightarrow>
     bl_Contains bl (n_blacklist st) src \<or> bl_Contains bl (n_blacklist st) (GetFrom msg) \<or>
     (n_signStrict st \<and> m_Signature msg = None) \<or> tc_Has tc (n_seen st) (msgID msg)"

definition queued :: "peer \<Rightarrow> pb_Message \<Rightarrow> validation \<Rightarrow> validation" where
  "queued src msg v =
     (let q = v_validateQ v
      in if chan_room q
         then v\<lparr>v_validateQ := q\<lparr>ch_buf := ch_buf q @ [\<lparr>vr_vals = getValidators msg v, vr_src = src, vr_msg = msg\<rparr>]\<rparr>\<rparr>
         else v)"

definition delivered :: "('s, 'b, 'z) node_scheme \<Rightarrow> pb_Message \<Rightarrow> nat \<Rightarrow> Subscription \<Rightarrow> Subscription" where
  "delivered st msg i sub =
     (if i \<in> mdom (mget0 (n_myTopics st) (s_topic sub))
      then deliver_times (count_list (m_TopicIDs msg) (s_topic sub)) msg sub else sub)"

text \<open>What follows when a message is forwarded at once.\<close>

definition forwards ::
  "('s, 'b, 'z) router_methods \<Rightarrow> 's seen_methods \<Rightarrow> peer \<Rightarrow> pb_Message \<Rightarrow> ('s, 'b, 'z) node_scheme \<Rightarrow> ('s, 'b, 'z) node_scheme \<Rightarrow> bool" where
  "forwards rt tc src msg st st' \<longleftrightarrow>
     (\<exists>H. let s = st\<lparr>n_seen := tc_Add tc (msgID msg) (n_seen st), n_published := n_published st @ [msg], n_subs := H\<rparr>
          in rt_Publish rt src msg s = Some st' \<and> router_frame s st' \<and>
             (\<forall>i. mget H i = map_option (delivered st msg i) (mget (n_subs st) i)))"

context pubsub
begin

lemma AddSub_effect:
  assumes g: "good bl J rt_inv st"
  shows "\<exists>st'. handleAddSubscription rt (newSubscription t) st = Some (mlen (n_subs st), st') \<and>
    n_myTopics st' = mput t (mput (mlen (n_subs st)) () (mget0 (n_myTopics st) t)) (n_myTopics st) \<and>
    (\<exists>sub. n_subs st' = mput (mlen (n_subs st)) sub (n_subs st) \<and> s_topic sub = t \<and> sub_ok True sub \<and>
      ch_buf (s_ch sub) = [] \<and> (\<forall>p. mget (s_evtLog sub) p = (if p \<in> members st t then Some PeerJoin else None))) \<and>
    (if t \<in> mdom (n_myTopics st) then n_peers st' = n_peers st \<and> n_retries st' = n_retries st
     else \<forall>p \<in> mdom (n_peers st).
       if has_room st p then \<exists>xs. outbox st' p = outbox st p @ rpcWithSubs [mkSubOpts t True] # xs
       else (p, t, True) \<in> set (n_retries st'))"
proof -
  have ok: "subs_ok (n_subs st) (n_myTopics st)" using g by (simp add: good_def node_inv_def)
  have first: "mlen (mget0 (n_myTopics st) t) = 0 \<longleftrightarrow> t \<notin> mdom (n_myTopics st)"
    using subs_okD(3) [OF ok] by (auto simp: mlen_card mget0_def mem_mdom split: option.splits)
  let ?evs = "\<lambda>s. newSubscription t\<lparr>s_evtLog := fold (\<lambda>p. mput p PeerJoin) (mkeys (mget0 (n_topics s) t)) (s_evtLog (newSubscription t))\<rparr>"
  let ?new = "\<lambda>s. s\<lparr>n_subs := mput (mlen (n_subs s)) (?evs s) (n_subs s),
    n_myTopics := mput t (mput (mlen (n_subs s)) () (mget0 (n_myTopics s) t)) (n_myTopics s)\<rparr>"
  have log: "mget (fold (\<lambda>p. mput p PeerJoin) ks m) p = (if p \<in> set ks then Some PeerJoin else mget m p)" for ks m and p :: peer
    by (induction ks arbitrary: m) (auto simp: lookup_update)
  have evs: "s_topic (?evs st) = t \<and> sub_ok True (?evs st) \<and> ch_buf (s_ch (?evs st)) = [] \<and>
      (\<forall>p. mget (s_evtLog (?evs st)) p = (if p \<in> members st t then Some PeerJoin else None))"
    by (simp add: newSubscription_def sub_ok_def make_chan_def log)
  show ?thesis
  proof (cases "t \<in> mdom (n_myTopics st)")
    case True
    then have "handleAddSubscription rt (newSubscription t) st = Some (mlen (n_subs st), ?new st)"
      using first by (simp add: handleAddSubscription_def Let_def newSubscription_def)
    then show ?thesis using True evs by auto
  next
    case False
    obtain s where s: "announce t True st = Some s" "queue_frame st s" "announced (rpcWithSubs [mkSubOpts t True]) t True UNIV st s"
      using announce_announced [OF good_peers_ok [OF g]] by blast
    have gs: "good bl J rt_inv s" by (rule good_queue [OF g s(2)])
    obtain u where u: "rt_Join rt t s = Some u" "router_frame s u"
      using join [OF good_inv(2) [OF gs] good_peers_ok [OF gs], of t] by (auto simp: keeps_frame_def)
    have same: "n_subs u = n_subs st" "n_myTopics u = n_myTopics st" "n_topics u = n_topics st" "n_retries u = n_retries s"
      using s(2) u(2) by (auto simp: queue_frame_def router_frame_def)
    have add: "handleAddSubscription rt (newSubscription t) st = Some (mlen (n_subs st), ?new u)"
      using False first s(1) u(1) same by (simp add: handleAddSubscription_def Let_def newSubscription_def)
    have "if has_room st p then \<exists>xs. outbox u p = outbox st p @ rpcWithSubs [mkSubOpts t True] # xs
        else (p, t, True) \<in> set (n_retries u)" if "p \<in> mdom (n_peers st)" for p
      using s(3) that frame_outbox [OF u(2), of p] same(4) by (auto simp: announced_def)
    then have "\<forall>p \<in> mdom (n_peers st). if has_room st p then \<exists>xs. outbox (?new u) p = outbox st p @ rpcWithSubs [mkSubOpts t True] # xs
        else (p, t, True) \<in> set (n_retries (?new u))"
      by (simp add: outbox_subs)
    moreover have "?evs u = ?evs st" by (simp add: same)
    ultimately show ?thesis using add evs False by (auto simp: same)
  qed
qed

lemma CancelSub_effect:
  assumes g: "good bl J rt_inv st" and i: "mget (n_subs st) i = Some sub" "\<not> s_cancelled sub"
  defines "t \<equiv> s_topic sub"
  shows "\<exists>st'. handleRemoveSubscription rt i st = Some st' \<and>
    n_subs st' = mput i (sub\<lparr>s_cancelled := True, s_ch := (s_ch sub)\<lparr>ch_closed := True\<rparr>\<rparr>) (n_subs st) \<and>
    mdom (mget0 (n_myTopics st') t) = mdom (mget0 (n_myTopics st) t) - {i} \<and>
    (if mdom (mget0 (n_myTopics st) t) \<noteq> {i} then n_peers st' = n_peers st \<and> n_retries st' = n_retries st
     else t \<notin> mdom (n_myTopics st') \<and> (\<forall>p \<in> mdom (n_peers st).
       if has_room st p then \<exists>xs. outbox st' p = outbox st p @ rpcWithSubs [mkSubOpts t False] # xs
       else (p, t, False) \<in> set (n_retries st')))"
proof -
  have ok: "subs_ok (n_subs st) (n_myTopics st)" using g by (simp add: good_def node_inv_def)
  have live: "i \<in> mdom (mget0 (n_myTopics st) t)" "sub_ok True sub"
    using subs_okD(2) [OF ok i(1)] i(2) by (auto simp: sub_ok_def t_def)
  then obtain ss where ss: "mget (n_myTopics st) t = Some ss" "i \<in> mdom ss"
    by (cases "mget (n_myTopics st) t") auto
  have ss0: "mget0 (n_myTopics st) t = ss" using ss by (simp add: mget0_def)
  let ?sub = "sub\<lparr>s_cancelled := True, s_ch := (s_ch sub)\<lparr>ch_closed := True\<rparr>\<rparr>"
  have close: "close_sub (sub\<lparr>s_cancelled := True\<rparr>) = Some ?sub"
    using live(2) by (simp add: close_sub_def chan_close_def sub_ok_def)
  have "sub_ok False ?sub" using live(2) by (simp add: sub_ok_def)
  then have rem: "subs_ok (mput i ?sub (n_subs st))
      (if mlen (mdel i ss) = 0 then mdel t (n_myTopics st) else mput t (mdel i ss) (n_myTopics st))"
    by (intro subs_ok_remove [OF ok ss]) (simp_all add: t_def)
  have last: "mlen (mdel i ss) = 0 \<longleftrightarrow> mdom ss = {i}"
    using ss(2) mlen_card [of "mdel i ss"] by auto
  show ?thesis
  proof (cases "mdom ss = {i}")
    case False
    let ?s = "st\<lparr>n_subs := mput i ?sub (n_subs st), n_myTopics := mput t (mdel i ss) (n_myTopics st)\<rparr>"
    have "handleRemoveSubscription rt i st = Some ?s"
      using False last i(1) ss(1) by (simp add: handleRemoveSubscription_def Let_def close t_def)
    then show ?thesis using False by (auto simp: ss0 mget0_update)
  next
    case True
    let ?s = "st\<lparr>n_subs := mput i ?sub (n_subs st), n_myTopics := mdel t (n_myTopics st)\<rparr>"
    have gs: "good bl J rt_inv ?s"
      by (intro good_step [OF g]) (use rem True last in \<open>auto simp: node_inv_def peers_ok_def no_blacklisted_def\<close>)
    obtain u where u: "announce t False ?s = Some u" "queue_frame ?s u"
      "announced (rpcWithSubs [mkSubOpts t False]) t False UNIV ?s u"
      using announce_announced [OF good_peers_ok [OF gs]] by blast
    have gu: "good bl J rt_inv u" by (rule good_queue [OF gs u(2)])
    obtain v where v: "rt_Leave rt t u = Some v" "router_frame u v"
      using leave [OF good_inv(2) [OF gu] good_peers_ok [OF gu], of t] by (auto simp: keeps_frame_def)
    have same: "n_subs v = n_subs ?s" "n_myTopics v = n_myTopics ?s" "n_retries v = n_retries u"
      using u(2) v(2) by (auto simp: queue_frame_def router_frame_def)
    have "mdel t (mput t (mdel i ss) (n_myTopics st)) = mdel t (n_myTopics st)" by (rule mdel_mput)
    then have call: "handleRemoveSubscription rt i st = Some v"
      using True last i(1) ss(1) u(1) v(1) by (simp add: handleRemoveSubscription_def Let_def close t_def)
    have room: "has_room ?s = has_room st" by (simp add: has_room_def fun_eq_iff)
    have "if has_room st p then \<exists>xs. outbox v p = outbox st p @ rpcWithSubs [mkSubOpts t False] # xs
        else (p, t, False) \<in> set (n_retries v)" if "p \<in> mdom (n_peers st)" for p
      using u(3) that frame_outbox [OF v(2), of p] same(3) by (auto simp: announced_def room)
    with call show ?thesis using True by (auto simp: ss0 same(1,2) mget0_delete)
  qed
qed

lemma drop_peer_effect:
  assumes g: "good bl J rt_inv st"
  shows "n_blacklist (drop_peer rt p st) = n_blacklist st \<and>
    mdom (n_peers (drop_peer rt p st)) = mdom (n_peers st) - {p} \<and>
    (\<forall>t. members (drop_peer rt p st) t = members st t - {p}) \<and>
    (\<forall>i. mget (n_subs (drop_peer rt p st)) i = map_option (\<lambda>sub. told st p (s_topic sub) False i sub) (mget (n_subs st) i))"
proof -
  let ?s = "st\<lparr>n_peers := mdel p (n_peers st)\<rparr>"
  let ?u = "fold (leave_topic p) (mkeys (n_topics ?s)) ?s"
  have gs: "good bl J rt_inv ?s"
    using g by (rule good_step) (auto simp: node_inv_def peers_ok_def no_blacklisted_def)
  have ok: "subs_ok (n_subs ?s) (n_myTopics ?s)" using gs by (simp add: good_def node_inv_def)
  have gu: "good bl J rt_inv ?u"
    using gs by (intro good_fold) (auto simp: leave_topic_def Let_def notifyLeave_def topics_good notify_good)
  have frame: "router_frame ?u (drop_peer rt p st)"
    using remove_peer [OF good_inv(2) [OF gu]] by (simp add: drop_peer_def Let_def)
  obtain T H where u: "?u = ?s\<lparr>n_topics := T, n_subs := H\<rparr>" using leave_topics_members by blast
  have peers: "mdom (n_peers (drop_peer rt p st)) = mdom (n_peers st) - {p}"
    using frame_mdom_peers [OF frame] u by simp
  have mem: "members ?u t = members st t - {p}" for t
  proof (cases "t \<in> mdom (n_topics st)")
    case True
    then show ?thesis using leave_topics_members [of p "mkeys (n_topics ?s)" ?s t] by simp
  next
    case False
    then have "members st t = {}" by (simp add: mget0_def mem_mdom)
    then show ?thesis using leave_topics_members [of p "mkeys (n_topics ?s)" ?s t] False by simp
  qed
  have "told ?s p (s_topic sub) False i sub = told st p (s_topic sub) False i sub" for i sub by (simp add: told_def)
  moreover have "told st p (s_topic sub) False i sub = sub" if "s_topic sub \<notin> mdom (n_topics st)" for i sub
    using that by (simp add: told_def mget0_def mem_mdom)
  ultimately have subs: "mget (n_subs ?u) i = map_option (\<lambda>sub. told st p (s_topic sub) False i sub) (mget (n_subs st) i)" for i
    using leave_topics_mapped [OF ok distinct_mkeys, where p = p and m1 = "n_topics ?s"]
    by (auto simp: subs_mapped_def intro!: map_option_cong)
  have "n_topics (drop_peer rt p st) = n_topics ?u" "n_subs (drop_peer rt p st) = n_subs ?u"
    "n_blacklist (drop_peer rt p st) = n_blacklist st"
    using frame u by (auto simp: router_frame_def)
  with peers mem subs show ?thesis by simp
qed

lemma PeerDead_drops:
  assumes g: "good bl J rt_inv st" and p: "p \<in> mdom (n_peers st)"
  shows "\<exists>st'. onPeerDead rt p False st = Some st' \<and> mdom (n_peers st') = mdom (n_peers st) - {p} \<and>
    (\<forall>t. members st' t = members st t - {p}) \<and>
    (\<forall>i. mget (n_subs st') i = map_option (\<lambda>sub. told st p (s_topic sub) False i sub) (mget (n_subs st) i))"
proof -
  obtain ch where ch: "mget (n_peers st) p = Some ch" using p by (auto simp: mem_mdom)
  have "onPeerDead rt p False st = Some (drop_peer rt p st)"
    using close_open [OF g ch] ch by (auto simp: onPeerDead_def)
  with drop_peer_effect [OF g] show ?thesis by blast
qed

lemma Blacklist_drops:
  assumes g: "good bl J rt_inv st" and p: "p \<in> mdom (n_peers st)"
  defines "s \<equiv> st\<lparr>n_blacklist := bl_Add bl p (n_blacklist st)\<rparr>"
  shows "onBlacklistPeer rt bl p st = Some (drop_peer rt p s) \<and> n_blacklist (drop_peer rt p s) = bl_Add bl p (n_blacklist st) \<and>
    mdom (n_peers (drop_peer rt p s)) = mdom (n_peers st) - {p} \<and> (\<forall>t. members (drop_peer rt p s) t = members st t - {p})"
proof -
  obtain ch where ch: "mget (n_peers st) p = Some ch" using p by (auto simp: mem_mdom)
  let ?g = "s\<lparr>n_peers := mdel p (n_peers st)\<rparr>"
  have "good bl J rt_inv ?g"
    by (intro good_step [OF g]) (auto simp: s_def node_inv_def peers_ok_def no_blacklisted_def dest: contains_only)
  from drop_peer_effect [OF this, of p]
  have "mdom (n_peers (drop_peer rt p ?g)) = mdom (n_peers st) - {p}" "\<And>t. members (drop_peer rt p ?g) t = members st t - {p}"
    by (auto simp: s_def)
  moreover have "drop_peer rt p ?g = drop_peer rt p s" by (simp add: drop_peer_def s_def mdel_none)
  moreover have "n_blacklist (drop_peer rt p ?g) = bl_Add bl p (n_blacklist st)"
    using drop_peer_effect [OF \<open>good bl J rt_inv ?g\<close>, of p] by (simp add: s_def)
  ultimately show ?thesis using close_open [OF g ch] ch by (auto simp: onBlacklistPeer_def s_def)
qed

lemma publishMessage_effect:
  assumes g: "good bl J rt_inv (st\<lparr>n_published := n_published st @ [msg]\<rparr>)"
  shows "\<exists>H st'. publishMessage rt src msg st = Some st' \<and>
    rt_Publish rt src msg (st\<lparr>n_published := n_published st @ [msg], n_subs := H\<rparr>) = Some st' \<and>
    router_frame (st\<lparr>n_published := n_published st @ [msg], n_subs := H\<rparr>) st' \<and>
    (\<forall>i. mget H i = map_option (delivered st msg i) (mget (n_subs st) i))"
proof -
  let ?st = "st\<lparr>n_published := n_published st @ [msg]\<rparr>"
  have ok: "subs_ok (n_subs ?st) (n_myTopics ?st)" using g by (simp add: good_def node_inv_def)
  obtain s where s: "notifySubs msg ?st = Some s" "same_but_subs ?st s" using notifySubs_ok [OF ok] by blast
  have m: "subs_mapped (delivered st msg) ?st s"
    using notifySubs_mapped [OF ok, of msg] s(1) by (auto simp: delivered_def [abs_def] simp del: if_cancel)
  then obtain H where H: "s = ?st\<lparr>n_subs := H\<rparr>" by (auto simp: subs_mapped_def)
  have gs: "good bl J rt_inv s" using g s(2) by (rule good_subs)
  obtain st' where "rt_Publish rt src msg s = Some st'" "router_frame s st'"
    using publish [OF good_inv(2) [OF gs] good_peers_ok [OF gs], of src msg] by (auto simp: keeps_frame_def)
  moreover have "\<forall>i. mget H i = map_option (delivered st msg i) (mget (n_subs st) i)"
    using m H by (simp add: subs_mapped_def)
  ultimately show ?thesis using s(1) H by (auto simp: publishMessage_def simp del: map_option_eq_Some)
qed

lemma pushMsg_effect:
  assumes g: "good bl J rt_inv st"
  shows "\<exists>st'. pushMsg rt bl tc src msg st = Some st' \<and>
    (if rejected bl tc src msg st then st' = st
     else if getValidators msg (n_val st) \<noteq> [] \<or> m_Signature msg \<noteq> None then st' = st\<lparr>n_val := queued src msg (n_val st)\<rparr>
     else forwards rt tc src msg st st')"
proof (cases "rejected bl tc src msg st")
  case True
  then show ?thesis by (auto simp: rejected_def pushMsg_def Let_def seenMessage_def)
next
  case False
  have J: "J (pipe_of st)" using g by (simp add: good_def node_inv_def)
  have signed: "pi_strict (pipe_of st) \<longrightarrow> m_Signature msg \<noteq> None" using False by (auto simp: rejected_def)
  obtain ok v where v: "Push src msg (n_val st) = Some (ok, v)" "J ((pipe_of st)\<lparr>pi_val := v\<rparr>)"
    using offer [OF J signed, of src] by auto
  show ?thesis
  proof (cases "getValidators msg (n_val st) \<noteq> [] \<or> m_Signature msg \<noteq> None")
    case True
    then have "ok = False \<and> v = queued src msg (n_val st)"
      using v(1) by (auto simp: Push_def queued_def Let_def chan_send_def chan_room_def split: if_splits)
    with False True v(1) show ?thesis by (auto simp: rejected_def pushMsg_def Let_def seenMessage_def)
  next
    case fresh: False
    then have okv: "ok = True" "v = n_val st" using v(1) by (auto simp: Push_def Let_def)
    have new: "\<not> tc_Has tc (n_seen st) (msgID msg)" using False by (simp add: rejected_def)
    let ?s = "st\<lparr>n_seen := tc_Add tc (msgID msg) (n_seen st)\<rparr>"
    have "good bl J rt_inv (?s\<lparr>n_published := n_published ?s @ [msg]\<rparr>)"
      by (rule good_pipe [OF g]) (use publish_fresh [OF J signed, of src] v(1) okv new in simp_all)
    from publishMessage_effect [OF this, of src]
    obtain H st' where s: "publishMessage rt src msg ?s = Some st'"
      "rt_Publish rt src msg (?s\<lparr>n_published := n_published ?s @ [msg], n_subs := H\<rparr>) = Some st'"
      "router_frame (?s\<lparr>n_published := n_published ?s @ [msg], n_subs := H\<rparr>) st'"
      "\<forall>i. mget H i = map_option (delivered ?s msg i) (mget (n_subs ?s) i)" by blast
    have "pushMsg rt bl tc src msg st = Some st'"
      using False new v(1) okv s(1) by (auto simp: rejected_def pushMsg_def Let_def seenMessage_def markSeen_def)
    moreover have "delivered ?s msg = delivered st msg" by (simp add: delivered_def fun_eq_iff)
    then have "forwards rt tc src msg st st'"
      using s(2-4) unfolding forwards_def Let_def by (intro exI [of _ H]) simp
    ultimately show ?thesis using False fresh by auto
  qed
qed

text \<open>Membership is what the subscription options say, whoever sends them and whatever else the message holds.\<close>

lemma pushMsg_same:
  assumes "good bl J rt_inv st" "pushMsg rt bl tc src msg st = Some st'"
  shows "n_topics st' = n_topics st" "n_blacklist st' = n_blacklist st"
proof -
  have "n_topics st' = n_topics st \<and> n_blacklist st' = n_blacklist st" if "forwards rt tc src msg st st'"
    using that by (auto simp: forwards_def Let_def router_frame_def)
  then show "n_topics st' = n_topics st" "n_blacklist st' = n_blacklist st"
    using pushMsg_effect [OF assms(1), of src msg] assms(2) by (auto split: if_splits)
qed

lemma pushes_same:
  assumes "good bl J rt_inv s"
  shows "\<exists>u. foldM (\<lambda>pmsg st. if \<not> subscribedToMsg pmsg st then Some st else pushMsg rt bl tc src pmsg st) msgs s = Some u \<and>
    good bl J rt_inv u \<and> n_topics u = n_topics s \<and> n_blacklist u = n_blacklist s"
  using assms
proof (induction msgs arbitrary: s)
  case (Cons m msgs)
  let ?f = "\<lambda>pmsg st. if \<not> subscribedToMsg pmsg st then Some st else pushMsg rt bl tc src pmsg st"
  have "stays bl J rt_inv (?f m s)" using Cons.prems by (simp add: pushMsg_stays)
  then obtain v where v: "?f m s = Some v" "good bl J rt_inv v" by (auto simp: stays_def)
  then have "n_topics v = n_topics s" "n_blacklist v = n_blacklist s"
    using pushMsg_same [OF Cons.prems] by (auto split: if_splits)
  with v Cons.IH [OF v(2)] show ?case by auto
qed simp

lemma Incoming_members:
  assumes g: "good bl J rt_inv st"
  shows "\<exists>st'. handleIncomingRPC rt bl tc rpc st = Some st' \<and>
    (\<forall>p t. p \<in> members st' t \<longleftrightarrow>
      (if p = r_from rpc then member_after (r_Subscriptions rpc) t (p \<in> members st t) else p \<in> members st t))"
proof -
  let ?s = "fold (handle_subopt (r_from rpc)) (r_Subscriptions rpc) st"
  let ?f = "\<lambda>pmsg st. if \<not> subscribedToMsg pmsg st then Some st else pushMsg rt bl tc (r_from rpc) pmsg st"
  have gs: "good bl J rt_inv ?s" using g by (intro good_fold) (auto simp: handle_subopt_good)
  from pushes_same [OF gs] obtain u where u: "foldM ?f (r_Publish rpc) ?s = Some u" "good bl J rt_inv u" "n_topics u = n_topics ?s"
    by blast
  obtain st' where st': "rt_HandleRPC rt rpc u = Some st'" "router_frame u st'"
    using handle_rpc [OF good_inv(2) [OF u(2)] good_peers_ok [OF u(2)], of rpc] by (auto simp: keeps_frame_def)
  have "n_topics st' = n_topics ?s" using st'(2) u(3) by (simp add: router_frame_def)
  then have "p \<in> members st' t \<longleftrightarrow>
      (if p = r_from rpc then member_after (r_Subscriptions rpc) t (p \<in> members st t) else p \<in> members st t)" for p t
    using handle_subopts_members [of p "r_from rpc" "r_Subscriptions rpc" st t] by simp
  moreover have "handleIncomingRPC rt bl tc rpc st = Some st'"
    using u(1) st'(1) by (simp add: handleIncomingRPC_def)
  ultimately show ?thesis by blast
qed
text \<open>Only the loop's own \<open>Add\<close> changes the blacklist.\<close>

lemma frame_blacklist: "keeps_frame I st m \<Longrightarrow> m = Some st' \<Longrightarrow> n_blacklist st' = n_blacklist st"
  by (auto simp: keeps_frame_def router_frame_def)

lemma frame_pipe: "keeps_frame I st m \<Longrightarrow> m = Some st' \<Longrightarrow> pipe_of st' = pipe_of st"
  by (auto simp: keeps_frame_def pipe_of_frame)

lemma announced_then_same:
  assumes g: "good bl J rt_inv st" and m: "Option.bind (announce t b st) f = Some st'"
    and f: "\<And>s. good bl J rt_inv s \<Longrightarrow> keeps_frame rt_inv s (f s)"
  shows "n_blacklist st' = n_blacklist st" "pipe_of st' = pipe_of st"
proof -
  obtain s where s: "announce t b st = Some s" "queue_frame st s" using announce_ok [OF good_peers_ok [OF g]] by blast
  note k = f [OF good_queue [OF g s(2)]]
  have "f s = Some st'" using m s(1) by simp
  from frame_blacklist [OF k this] frame_pipe [OF k this] s(2)
  show "n_blacklist st' = n_blacklist st" "pipe_of st' = pipe_of st" by (auto simp: queue_frame_def)
qed

lemma add_same:
  assumes g: "good bl J rt_inv st" and "handleAddSubscription rt sub st = Some (i, st')"
  shows "n_blacklist st' = n_blacklist st" "pipe_of st' = pipe_of st"
proof -
  let ?t = "s_topic sub"
  let ?m = "if mlen (mget0 (n_myTopics st) ?t) = 0 then Option.bind (announce ?t True st) (rt_Join rt ?t) else Some st"
  obtain s where s: "?m = Some s" using assms(2) by (cases ?m) (simp_all add: handleAddSubscription_def Let_def)
  have "n_blacklist s = n_blacklist st" "pipe_of s = pipe_of st"
    using s announced_then_same [OF g _ join [OF good_inv(2) good_peers_ok]] by (auto split: if_splits)
  moreover have "n_blacklist st' = n_blacklist s" "pipe_of st' = pipe_of s"
    using assms(2) s by (auto simp: handleAddSubscription_def Let_def)
  ultimately show "n_blacklist st' = n_blacklist st" "pipe_of st' = pipe_of st" by simp_all
qed

lemma remove_blacklist:
  assumes g: "good bl J rt_inv st" and i: "mget (n_subs st) i = Some sub" "\<not> s_cancelled sub"
    and m: "handleRemoveSubscription rt i st = Some st'"
  shows "n_blacklist st' = n_blacklist st"
proof -
  let ?t = "s_topic sub"
  have ok: "subs_ok (n_subs st) (n_myTopics st)" using g by (simp add: good_def node_inv_def)
  have live: "i \<in> mdom (mget0 (n_myTopics st) ?t)" "sub_ok True sub"
    using subs_okD(2) [OF ok i(1)] i(2) by (auto simp: sub_ok_def)
  then obtain ss where ss: "mget (n_myTopics st) ?t = Some ss" "i \<in> mdom ss"
    by (cases "mget (n_myTopics st) ?t") auto
  let ?sub = "sub\<lparr>s_cancelled := True, s_ch := (s_ch sub)\<lparr>ch_closed := True\<rparr>\<rparr>"
  have close: "close_sub (sub\<lparr>s_cancelled := True\<rparr>) = Some ?sub"
    using live(2) by (simp add: close_sub_def chan_close_def sub_ok_def)
  have "sub_ok False ?sub" using live(2) by (simp add: sub_ok_def)
  then have rem: "subs_ok (mput i ?sub (n_subs st))
      (if mlen (mdel i ss) = 0 then mdel ?t (n_myTopics st) else mput ?t (mdel i ss) (n_myTopics st))"
    by (intro subs_ok_remove [OF ok ss]) simp_all
  let ?s = "st\<lparr>n_subs := mput i ?sub (n_subs st), n_myTopics := mdel ?t (n_myTopics st)\<rparr>"
  show ?thesis
  proof (cases "mlen (mdel i ss) = 0")
    case False
    then show ?thesis using m i(1) ss(1) by (auto simp: handleRemoveSubscription_def Let_def close)
  next
    case True
    have gs: "good bl J rt_inv ?s"
      by (intro good_step [OF g]) (use rem True in \<open>auto simp: node_inv_def peers_ok_def no_blacklisted_def\<close>)
    have "mdel ?t (mput ?t (mdel i ss) (n_myTopics st)) = mdel ?t (n_myTopics st)" by (rule mdel_mput)
    then have "Option.bind (announce ?t False ?s) (rt_Leave rt ?t) = Some st'"
      using True m i(1) ss(1) by (simp add: handleRemoveSubscription_def Let_def close)
    from announced_then_same(1) [OF gs this leave [OF good_inv(2) good_peers_ok]] show ?thesis by simp
  qed
qed

lemma incoming_blacklist:
  assumes g: "good bl J rt_inv st" and "handleIncomingRPC rt bl tc rpc st = Some st'"
  shows "n_blacklist st' = n_blacklist st"
proof -
  let ?s = "fold (handle_subopt (r_from rpc)) (r_Subscriptions rpc) st"
  have gs: "good bl J rt_inv ?s" using g by (intro good_fold) (auto simp: handle_subopt_good)
  have notify: "n_blacklist (notify_topic t evt s) = n_blacklist s" for t evt and s :: "('s, 'b, 'z) node_scheme"
    using notify_topic_same [of s t evt] by (auto simp: same_but_subs_def)
  have "n_blacklist (handle_subopt p so s) = n_blacklist s" for p so and s :: "('s, 'b, 'z) node_scheme"
    by (auto simp: handle_subopt_def notifyLeave_def Let_def notify split: option.split)
  then have "n_blacklist (fold (handle_subopt p) sos s) = n_blacklist s" for p sos and s :: "('s, 'b, 'z) node_scheme"
    by (induction sos arbitrary: s) simp_all
  then have "n_blacklist ?s = n_blacklist st" by simp
  moreover obtain u where u: "foldM (\<lambda>pmsg st. if \<not> subscribedToMsg pmsg st then Some st
      else pushMsg rt bl tc (r_from rpc) pmsg st) (r_Publish rpc) ?s = Some u" "good bl J rt_inv u" "n_blacklist u = n_blacklist ?s"
    using pushes_same [OF gs] by blast
  moreover have "n_blacklist st' = n_blacklist u"
    by (rule frame_blacklist [OF handle_rpc [OF good_inv(2) [OF u(2)] good_peers_ok [OF u(2)]]])
      (use assms(2) u(1) in \<open>simp add: handleIncomingRPC_def\<close>)
  ultimately show ?thesis by simp
qed

lemma sendMsg_blacklist:
  assumes g: "good bl J rt_inv st" and "onSendMsg rt st = Some st'" shows "n_blacklist st' = n_blacklist st"
proof (cases "ch_buf (n_sendMsg st)")
  case (Cons req reqs)
  let ?s = "st\<lparr>n_sendMsg := (n_sendMsg st)\<lparr>ch_buf := reqs\<rparr>\<rparr>"
  have "good bl J rt_inv (?s\<lparr>n_published := n_published ?s @ [sr_msg req]\<rparr>)"
    by (rule good_pipe [OF g]) (use publish_validated [of "pipe_of st" req reqs] Cons in auto)
  from publishMessage_effect [OF this, of "sr_from req"] show ?thesis
    using assms(2) Cons by (auto simp: onSendMsg_def router_frame_def)
qed (use assms(2) in \<open>simp add: onSendMsg_def\<close>)

lemma range_blacklist: "n_blacklist (snd (range_over ks st)) = n_blacklist st"
  using range_over_frame [of ks st] by (cases "range_over ks st") (simp add: router_frame_def)

lemma spawn_blacklist: "n_blacklist (spawn_writer p st) = n_blacklist st"
  using range_blacklist [of "mkeys (n_myTopics st)" st]
  by (simp add: spawn_writer_def getHelloPacket_def case_prod_unfold Let_def)

lemma turn_blacklist:
  assumes g: "good bl J rt_inv st" and v: "valid_event st ev" and m: "loop_turn rt bl tc hb ev st = Some st'"
  shows "n_blacklist st' = n_blacklist st \<or> (\<exists>p. n_blacklist st' = bl_Add bl p (n_blacklist st))"
proof (cases ev)
  case (NewPeer p)
  then show ?thesis using m spawn_blacklist by (auto simp: loop_turn_def onNewPeers_def)
next
  case (NewPeerStream p proto)
  have "n_blacklist (rt_AddPeer rt p proto st) = n_blacklist st"
    using add_peer [OF good_inv(2) [OF g], of p proto] by (simp add: router_frame_def)
  then show ?thesis
    using NewPeerStream m by (auto simp: loop_turn_def onNewPeerStream_def split: option.splits if_splits Option.bind_splits)
next
  case (PeerDead p c)
  have "n_blacklist (drop_peer rt p st) = n_blacklist st" using drop_peer_effect [OF g] by blast
  then show ?thesis
    using PeerDead m spawn_blacklist by (auto simp: loop_turn_def onPeerDead_def split: option.splits if_splits Option.bind_splits)
next
  case (AddSub t)
  then obtain i where "handleAddSubscription rt (newSubscription t) st = Some (i, st')" using m by (auto simp: loop_turn_def)
  then show ?thesis using add_same(1) [OF g] by blast
next
  case (CancelSub i)
  then obtain sub where "mget (n_subs st) i = Some sub" "\<not> s_cancelled sub" using v by (auto simp: valid_event_def)
  then show ?thesis using CancelSub m remove_blacklist [OF g] by (simp add: loop_turn_def)
next
  case (EvalRetry k)
  obtain p t b where r: "n_retries st ! k = (p, t, b)" by (metis prod_cases3)
  let ?s = "st\<lparr>n_retries := take k (n_retries st) @ drop (Suc k) (n_retries st)\<rparr>"
  have "peers_ok ?s" using good_peers_ok [OF g] by (simp add: peers_ok_def)
  from announceRetry_ok [OF this, of p t b] show ?thesis
    using EvalRetry m r by (auto simp: loop_turn_def queue_frame_def split: if_splits)
next
  case EvalHeartbeat
  then show ?thesis
    using m frame_blacklist [OF heartbeat [OF good_inv(2) [OF g] good_peers_ok [OF g]]] by (simp add: loop_turn_def)
next
  case (BlacklistPeer p)
  then show ?thesis
    using m Blacklist_drops [OF g, of p] by (cases "p \<in> mdom (n_peers st)")
      (auto simp: loop_turn_def onBlacklistPeer_def mem_mdom Let_def)
next
  case (GetPeers t)
  then show ?thesis using m range_blacklist [of "mkeys (n_peers st)" st]
    by (auto simp: loop_turn_def onGetPeers_def case_prod_unfold Let_def split: if_splits)
qed (use m range_blacklist incoming_blacklist [OF g] pushMsg_same(2) [OF g] sendMsg_blacklist [OF g] in
  \<open>auto simp: loop_turn_def onNewPeerError_def onGetTopics_def onAddVal_def onRmVal_def case_prod_unfold Let_def\<close>)

end

text \<open>A blacklist that forgets nothing keeps every peer, whatever happens.\<close>

lemma goroutine_blacklist: "goroutine_step tc cr forget st st' \<Longrightarrow> n_blacklist st' = n_blacklist st"
proof (induction rule: goroutine_step.induct)
  case (published topic data st r st')
  then show ?case using Publish_message [OF published(1)] by auto
qed (auto dest!: validateWorker_outside begin_outside end_outside send_outside simp: outside_pipe_def)

context node_system
begin

lemma reach_blacklist:
  assumes "reach rt bl tc hb cr forget st st'" "good bl J rt_inv st" "perfect_blacklist bl" "bl_Contains bl (n_blacklist st) p"
  shows "bl_Contains bl (n_blacklist st') p"
  using assms(1)
proof (induction rule: reach.induct)
  case (more s s')
  have g: "good bl J rt_inv s" by (rule reach_good [OF more(1) assms(2)])
  from more(2) have "n_blacklist s' = n_blacklist s \<or> (\<exists>q. n_blacklist s' = bl_Add bl q (n_blacklist s))"
    by (cases rule: node_step.cases) (auto dest: turn_blacklist [OF g] goroutine_blacklist)
  with more(3) show ?case using perfect_blacklist.contains_mono [OF assms(3)] by auto
qed (rule assms(4))

end

section \<open>A gossipsub node's states\<close>

definition gossip_state ::
  "'s seen_methods \<Rightarrow> crypto \<Rightarrow> ('s \<Rightarrow> 's \<Rightarrow> bool) \<Rightarrow> ('s, MapBlacklist) gossipsub \<Rightarrow> bool" where
  "gossip_state tc cr forget st \<longleftrightarrow>
     (\<exists>ev opts st0 protos workers. NewGossipSub tc ev opts = Some (Inr (st0, protos, workers)) \<and>
        gossip_reach tc cr forget st0 st)"

lemma gossip_state_good: "gossip_state tc cr forget st \<Longrightarrow> good map_blacklist pipe_ok gs_inv st"
  using gossip_reach_good unfolding gossip_state_def by blast

lemma gossip_state_turn:
  assumes "gossip_state tc cr forget st" "valid_event st e" "gossip_turn tc e st = Some st'"
  shows "gossip_state tc cr forget st'"
  using assms reach.more node_step.turn unfolding gossip_state_def by metis

definition sample_tc :: "unit seen_methods" where
  "sample_tc = \<lparr>tc_Has = \<lambda>_ _. False, tc_Add = \<lambda>_ s. s\<rparr>"

definition sample_state :: "(unit, MapBlacklist) gossipsub" where
  "sample_state = newPS sample_env gs_new"

lemma sample_created: "NewGossipSub sample_tc sample_env [] = Some (Inr (sample_state, [GossipSubID, FloodSubID], 4))"
  by (simp add: NewGossipSub_def NewPubSub_def sample_state_def newPS_def newValidation_def sample_env_def
      gossipsub_router_def gs_Protocols_def)

lemma sample_gossip_state: "gossip_state sample_tc sample_crypto (=) sample_state"
  unfolding gossip_state_def using sample_created reach.start by blast

lemma sample_state_sel [simp]:
  "n_peers sample_state = mempty" "n_subs sample_state = mempty" "n_myTopics sample_state = mempty"
  "n_topics sample_state = mempty" "n_signStrict sample_state = True" "n_blacklist sample_state = NewMapBlacklist"
  by (simp_all add: sample_state_def newPS_def sample_env_def)

lemma sample_spawned: "gossip_state sample_tc sample_crypto (=) (spawn_writer [8] sample_state)"
  by (rule gossip_state_turn [OF sample_gossip_state, where e = "NewPeer [8]"])
    (simp_all add: valid_event_def loop_turn_def onNewPeers_def map_blacklist_def MapBlacklist_Contains_def NewMapBlacklist_def)

lemma sample_connected: "\<exists>st. gossip_state sample_tc sample_crypto (=) st \<and> [8] \<in> mdom (n_peers st)"
proof (intro exI conjI)
  show "gossip_state sample_tc sample_crypto (=) (spawn_writer [8] sample_state)" by (rule sample_spawned)
  show "[8] \<in> mdom (n_peers (spawn_writer [8] sample_state))"
    by (simp add: spawn_writer_def case_prod_unfold Let_def)
qed

lemma sample_subscribed:
  "\<exists>st sub. gossip_state sample_tc sample_crypto (=) st \<and> mget (n_subs st) 0 = Some sub \<and> \<not> s_cancelled sub \<and>
     s_topic sub = str ''art''"
proof -
  obtain st' sub where add: "handleAddSubscription (gossipsub_router sample_tc) (newSubscription (str ''art'')) sample_state = Some (0, st')"
    and sub: "n_subs st' = mput 0 sub mempty" "s_topic sub = str ''art''" "sub_ok True sub"
    using gossip_node.AddSub_effect [OF gossip_state_good [OF sample_gossip_state], where tc = sample_tc and t = "str ''art''"]
    by (auto simp: mlen_card)
  have "gossip_state sample_tc sample_crypto (=) st'"
    by (rule gossip_state_turn [OF sample_gossip_state, where e = "AddSub (str ''art'')"])
      (simp_all add: valid_event_def loop_turn_def add)
  with sub show ?thesis by (auto simp: lookup_update sub_ok_def)
qed

text \<open>Two subscriptions of one topic, the first of which was cancelled.\<close>

lemma sample_half_cancelled:
  "\<exists>st sub. gossip_state sample_tc sample_crypto (=) st \<and> mget (n_subs st) 0 = Some sub \<and> s_cancelled sub \<and>
     s_topic sub \<in> mdom (n_myTopics st)"
proof -
  let ?t = "str ''art''" and ?rt = "gossipsub_router sample_tc"
  obtain s1 sub where 1: "handleAddSubscription ?rt (newSubscription ?t) sample_state = Some (0, s1)"
    "n_subs s1 = mput 0 sub mempty" "n_myTopics s1 = mput ?t (mput 0 () mempty) mempty" "s_topic sub = ?t" "sub_ok True sub"
    using gossip_node.AddSub_effect [OF gossip_state_good [OF sample_gossip_state], where tc = sample_tc and t = ?t]
    by (auto simp: mlen_card mget0_def)
  have g1: "gossip_state sample_tc sample_crypto (=) s1"
    by (rule gossip_state_turn [OF sample_gossip_state, where e = "AddSub ?t"]) (simp_all add: valid_event_def loop_turn_def 1)
  have len: "mlen (mput 0 sub mempty) = Suc 0" for sub :: Subscription by (simp add: mlen_card)
  obtain s2 sub2 where 2: "handleAddSubscription ?rt (newSubscription ?t) s1 = Some (1, s2)"
    "n_subs s2 = mput 1 sub2 (mput 0 sub mempty)" "n_myTopics s2 = mput ?t (mput 1 () (mput 0 () mempty)) (n_myTopics s1)"
    using gossip_node.AddSub_effect [OF gossip_state_good [OF g1], where tc = sample_tc and t = ?t]
    by (auto simp: 1(2,3) len mget0_def lookup_update)
  have g2: "gossip_state sample_tc sample_crypto (=) s2"
    by (rule gossip_state_turn [OF g1, where e = "AddSub ?t"]) (simp_all add: valid_event_def loop_turn_def 2)
  have sub: "mget (n_subs s2) 0 = Some sub" "\<not> s_cancelled sub" using 1(5) by (simp_all add: 2 lookup_update sub_ok_def)
  have my: "mdom (mget0 (n_myTopics s2) (s_topic sub)) = {0, 1}" by (auto simp: 2 1(4) mget0_def lookup_update)
  obtain s3 where 3: "handleRemoveSubscription ?rt 0 s2 = Some s3"
    "n_subs s3 = mput 0 (sub\<lparr>s_cancelled := True, s_ch := (s_ch sub)\<lparr>ch_closed := True\<rparr>\<rparr>) (n_subs s2)"
    "mdom (mget0 (n_myTopics s3) (s_topic sub)) = {0, 1} - {0}"
    using gossip_node.CancelSub_effect [OF gossip_state_good [OF g2] sub, where tc = sample_tc] my by auto
  have "gossip_state sample_tc sample_crypto (=) s3"
    by (rule gossip_state_turn [OF g2, where e = "CancelSub 0"]) (use sub 3 in \<open>simp_all add: valid_event_def loop_turn_def\<close>)
  moreover have "s_topic sub \<in> mdom (n_myTopics s3)" using 3(3) by (auto simp: mget0_def mem_mdom split: option.splits)
  ultimately show ?thesis using 3(2) by (intro exI [of _ s3]) (simp add: lookup_update)
qed

section \<open>Properties\<close>

text \<open>
  A subscription option of a remote peer sets its membership of that topic and nothing else; the local
  subscriptions of the topic are notified, and only when the membership really changed: repeating an
  option, or leaving a topic the peer is not in, is silent.
\<close>

lemma handle_subopt_spec:
  "\<exists>T H. handle_subopt p so st = st\<lparr>n_topics := T, n_subs := H\<rparr> \<and>
     (\<forall>u. mdom (mget0 T u) =
        (if u \<noteq> GetTopicid so then members st u
         else if GetSubscribe so then insert p (members st u) else members st u - {p})) \<and>
     (\<forall>i. mget H i = map_option (told st p (GetTopicid so) (GetSubscribe so) i) (mget (n_subs st) i))"
proof -
  let ?X = "handle_subopt p so st"
  have ch: "topic_change p (GetTopicid so) (GetSubscribe so) st ?X" by (rule handle_subopt_change)
  then obtain H where H: "?X = st\<lparr>n_topics := n_topics ?X\<rparr>\<lparr>n_subs := H\<rparr>" by (auto simp: topic_change_def subs_mapped_def)
  have "n_subs ?X = H" by (subst H) simp
  then have "\<forall>i. mget H i = map_option (told st p (GetTopicid so) (GetSubscribe so) i) (mget (n_subs st) i)"
    using ch by (simp add: topic_change_def subs_mapped_def)
  moreover have "\<forall>u. mdom (mget0 (n_topics ?X) u) =
      (if u \<noteq> GetTopicid so then members st u
       else if GetSubscribe so then insert p (members st u) else members st u - {p})"
    using ch by (simp add: topic_change_def)
  ultimately show ?thesis using H by blast
qed

text \<open>
  A publication offers the message to every open subscription of a topic of the message, once for each
  time the message names the topic, as far as the subscription's channel has room, and to no other; it
  never blocks and never panics.
\<close>

lemma notifySubs_spec:
  assumes "subs_ok (n_subs st) (n_myTopics st)"
  shows "\<exists>H. notifySubs msg st = Some (st\<lparr>n_subs := H\<rparr>) \<and>
    (\<forall>i. mget H i = map_option (delivered st msg i) (mget (n_subs st) i))"
proof -
  obtain st' where "notifySubs msg st = Some st'" "subs_mapped (delivered st msg) st st'"
    using notifySubs_mapped [OF assms, of msg] by (auto simp: delivered_def [abs_def] simp del: if_cancel)
  then show ?thesis by (auto simp: subs_mapped_def)
qed

text \<open>
  C12: what happens to a message that a peer sent or the user published. It is dropped without a trace if its
  source or its author is blacklisted, if it is unsigned though signatures are demanded, or if its identifier
  was seen; otherwise it goes to the validation queue if it is signed or one of its topics has a validator
  (and is lost when the queue is full), and is forwarded at once if not: marked as seen, offered to the
  subscriptions, and published by the router.
\<close>

theorem pushMsg_spec:
  assumes "gossip_state tc cr forget st"
  shows "\<exists>st'. pushMsg (gossipsub_router tc) map_blacklist tc src msg st = Some st' \<and>
    (if MapBlacklist_Contains (n_blacklist st) src \<or> MapBlacklist_Contains (n_blacklist st) (GetFrom msg) \<or>
        n_signStrict st \<and> m_Signature msg = None \<or> tc_Has tc (n_seen st) (msgID msg) then st' = st
     else if getValidators msg (n_val st) \<noteq> [] \<or> m_Signature msg \<noteq> None then st' = st\<lparr>n_val := queued src msg (n_val st)\<rparr>
     else forwards (gossipsub_router tc) tc src msg st st')"
  using gossip_node.pushMsg_effect [OF gossip_state_good [OF assms], where src = src and msg = msg and tc = tc]
  by (auto simp: rejected_def map_blacklist_def split: if_splits)

theorem pushMsg_spec_witness:
  "pushMsg (gossipsub_router sample_tc) map_blacklist sample_tc [8] (text_msg [8] [5] [str ''art'']) sample_state = Some sample_state"
  using pushMsg_spec [OF sample_gossip_state, of "[8]" "text_msg [8] [5] [str ''art'']"] by auto

text \<open>
  After an RPC a peer is in exactly the topics its subscription options say (the last one counts), no
  other peer's membership changes, and this does not depend on the blacklist: the options and the control
  messages of a blacklisted peer are obeyed; only its messages are dropped.
\<close>

lemma handleIncomingRPC_members:
  assumes "gossip_state tc cr forget st"
  shows "\<exists>st'. handleIncomingRPC (gossipsub_router tc) map_blacklist tc rpc st = Some st' \<and>
    (\<forall>p t. p \<in> members st' t \<longleftrightarrow>
      (if p = r_from rpc then member_after (r_Subscriptions rpc) t (p \<in> members st t) else p \<in> members st t))"
  by (rule gossip_node.Incoming_members [OF gossip_state_good [OF assms]])

text \<open>
  C23: subscribing returns the address of a new open subscription of the topic with an empty channel, whose
  event log starts with a join of every current member. The first subscription of a topic announces it: every
  connected peer finds the announcement in its queue, behind what was there, or a retry is scheduled because
  the queue is full. A further subscription sends nothing.
\<close>

theorem handleAddSubscription_spec:
  assumes "gossip_state tc cr forget st"
  shows "\<exists>st'. handleAddSubscription (gossipsub_router tc) (newSubscription t) st = Some (mlen (n_subs st), st') \<and>
    n_myTopics st' = mput t (mput (mlen (n_subs st)) () (mget0 (n_myTopics st) t)) (n_myTopics st) \<and>
    (\<exists>sub. n_subs st' = mput (mlen (n_subs st)) sub (n_subs st) \<and> s_topic sub = t \<and> sub_ok True sub \<and>
      ch_buf (s_ch sub) = [] \<and> (\<forall>p. mget (s_evtLog sub) p = (if p \<in> members st t then Some PeerJoin else None))) \<and>
    (if t \<in> mdom (n_myTopics st) then n_peers st' = n_peers st \<and> n_retries st' = n_retries st
     else \<forall>p \<in> mdom (n_peers st).
       if has_room st p then \<exists>xs. outbox st' p = outbox st p @ rpcWithSubs [mkSubOpts t True] # xs
       else (p, t, True) \<in> set (n_retries st'))"
  by (rule gossip_node.AddSub_effect [OF gossip_state_good [OF assms]])

theorem handleAddSubscription_spec_witness:
  "\<exists>st st' xs. gossip_state sample_tc sample_crypto (=) st \<and> [8] \<in> mdom (n_peers st) \<and>
     handleAddSubscription (gossipsub_router sample_tc) (newSubscription (str ''art'')) st = Some (0, st') \<and>
     outbox st' [8] = outbox st [8] @ rpcWithSubs [mkSubOpts (str ''art'') True] # xs"
proof -
  let ?st = "spawn_writer [8] sample_state"
  have s: "gossip_state sample_tc sample_crypto (=) ?st" by (rule sample_spawned)
  have room: "has_room ?st [8]" "[8] \<in> mdom (n_peers ?st)" "mlen (n_subs ?st) = 0" "n_myTopics ?st = mempty"
    by (simp_all add: spawn_writer_def getHelloPacket_def range_over_def case_prod_unfold Let_def has_room_def
        chan_room_def make_chan_def lookup_update mlen_card)
  from handleAddSubscription_spec [OF s, of "str ''art''"] room s show ?thesis by fastforce
qed

text \<open>
  C24: cancelling an open subscription closes it (what is buffered can still be read) and takes it from its
  topic. When it was the topic's last one the topic is left, and every connected peer is told so in its
  queue, or a retry is scheduled.
\<close>

theorem handleRemoveSubscription_spec:
  assumes "gossip_state tc cr forget st" "mget (n_subs st) i = Some sub" "\<not> s_cancelled sub"
  shows "\<exists>st'. handleRemoveSubscription (gossipsub_router tc) i st = Some st' \<and>
    n_subs st' = mput i (sub\<lparr>s_cancelled := True, s_ch := (s_ch sub)\<lparr>ch_closed := True\<rparr>\<rparr>) (n_subs st) \<and>
    mdom (mget0 (n_myTopics st') (s_topic sub)) = mdom (mget0 (n_myTopics st) (s_topic sub)) - {i} \<and>
    (if mdom (mget0 (n_myTopics st) (s_topic sub)) \<noteq> {i} then n_peers st' = n_peers st \<and> n_retries st' = n_retries st
     else s_topic sub \<notin> mdom (n_myTopics st') \<and> (\<forall>p \<in> mdom (n_peers st).
       if has_room st p then \<exists>xs. outbox st' p = outbox st p @ rpcWithSubs [mkSubOpts (s_topic sub) False] # xs
       else (p, s_topic sub, False) \<in> set (n_retries st')))"
  by (rule gossip_node.CancelSub_effect [OF gossip_state_good [OF assms(1)] assms(2,3)])

theorem handleRemoveSubscription_spec_witness:
  "\<exists>st st' sub. gossip_state sample_tc sample_crypto (=) st \<and> mget (n_subs st) 0 = Some sub \<and>
     handleRemoveSubscription (gossipsub_router sample_tc) 0 st = Some st' \<and>
     n_subs st' = mput 0 (sub\<lparr>s_cancelled := True, s_ch := (s_ch sub)\<lparr>ch_closed := True\<rparr>\<rparr>) (n_subs st)"
proof -
  obtain st sub where s: "gossip_state sample_tc sample_crypto (=) st" "mget (n_subs st) 0 = Some sub" "\<not> s_cancelled sub"
    using sample_subscribed by blast
  from handleRemoveSubscription_spec [OF s] s(1,2) show ?thesis by blast
qed

text \<open>
  C25: a connected peer whose stream died and that the host no longer knows is forgotten: it has no queue and
  is in no topic, and exactly the subscriptions of topics it was in are told that it left. No other peer
  loses anything.
\<close>

theorem onPeerDead_spec:
  assumes "gossip_state tc cr forget st" "p \<in> mdom (n_peers st)"
  shows "\<exists>st'. onPeerDead (gossipsub_router tc) p False st = Some st' \<and>
    mdom (n_peers st') = mdom (n_peers st) - {p} \<and> (\<forall>t. members st' t = members st t - {p}) \<and>
    (\<forall>i. mget (n_subs st') i = map_option (\<lambda>sub. told st p (s_topic sub) False i sub) (mget (n_subs st) i))"
  using gossip_node.PeerDead_drops [OF gossip_state_good [OF assms(1)] assms(2)] by blast

theorem onPeerDead_spec_witness:
  "\<exists>st st'. gossip_state sample_tc sample_crypto (=) st \<and> [8] \<in> mdom (n_peers st) \<and>
     onPeerDead (gossipsub_router sample_tc) [8] False st = Some st' \<and> [8] \<notin> mdom (n_peers st')"
proof -
  obtain st where s: "gossip_state sample_tc sample_crypto (=) st" "[8] \<in> mdom (n_peers st)"
    using sample_connected by blast
  obtain st' where "onPeerDead (gossipsub_router sample_tc) [8] False st = Some st'" "mdom (n_peers st') = mdom (n_peers st) - {[8]}"
    by (rule exE [OF onPeerDead_spec [OF s]], elim conjE, rule that)
  with s show ?thesis by - (rule exI [of _ st], rule exI [of _ st'], simp)
qed

text \<open>
  C26: blacklisting a peer takes effect at once and for good. At once: the peer is in the blacklist, its queue is
  gone, and it is in no topic. For good: in every state the node gets into afterwards, the peer is still in the
  blacklist and has no queue, and a message handed to \<open>pushMsg\<close> that the peer sent or wrote changes nothing. (Only
  the messages are dropped: subscription options and control messages of the peer are still obeyed, and messages
  of it that were past \<open>pushMsg\<close> before are not taken back.)
\<close>

theorem onBlacklistPeer_spec:
  assumes "gossip_state tc cr forget st" "p \<in> mdom (n_peers st)"
  shows "\<exists>st'. onBlacklistPeer (gossipsub_router tc) map_blacklist p st = Some st' \<and>
    MapBlacklist_Contains (n_blacklist st') p \<and> mdom (n_peers st') = mdom (n_peers st) - {p} \<and>
    (\<forall>t. members st' t = members st t - {p}) \<and>
    (\<forall>later. gossip_reach tc cr forget st' later \<longrightarrow>
       MapBlacklist_Contains (n_blacklist later) p \<and> p \<notin> mdom (n_peers later) \<and>
       (\<forall>src msg. src = p \<or> GetFrom msg = p \<longrightarrow>
          pushMsg (gossipsub_router tc) map_blacklist tc src msg later = Some later))"
proof -
  note g = gossip_state_good [OF assms(1)]
  obtain st' where st': "onBlacklistPeer (gossipsub_router tc) map_blacklist p st = Some st'"
    "n_blacklist st' = MapBlacklist_Add p (n_blacklist st)" "mdom (n_peers st') = mdom (n_peers st) - {p}"
    "\<forall>t. members st' t = members st t - {p}"
    using gossip_node.Blacklist_drops [OF g assms(2), where tc = tc] by (simp add: map_blacklist_def)
  have now: "MapBlacklist_Contains (n_blacklist st') p"
    by (simp add: st'(2) MapBlacklist_Contains_def MapBlacklist_Add_def)
  have g': "good map_blacklist pipe_ok gs_inv st'"
    using gossip_node.onBlacklistPeer_stays [OF g, where tc = tc and p = p] st'(1) by (simp add: stays_def)
  have later: "MapBlacklist_Contains (n_blacklist s) p \<and> p \<notin> mdom (n_peers s)" if r: "gossip_reach tc cr forget st' s" for s
  proof -
    have bl: "bl_Contains map_blacklist (n_blacklist s) p"
      by (rule gossip_node.reach_blacklist [OF r g' map_bl.perfect_blacklist_axioms]) (use now in \<open>simp add: map_blacklist_def\<close>)
    moreover have "no_blacklisted map_blacklist s"
      using gossip_node.reach_good [OF r g'] by (simp add: good_def node_inv_def)
    ultimately show ?thesis by (auto simp: map_blacklist_def no_blacklisted_def)
  qed
  have "pushMsg (gossipsub_router tc) map_blacklist tc src msg s = Some s"
    if "gossip_reach tc cr forget st' s" "src = p \<or> GetFrom msg = p" for s src msg
    using later [OF that(1)] that(2) by (auto simp: pushMsg_def map_blacklist_def)
  with later have "\<forall>s. gossip_reach tc cr forget st' s \<longrightarrow>
      MapBlacklist_Contains (n_blacklist s) p \<and> p \<notin> mdom (n_peers s) \<and>
      (\<forall>src msg. src = p \<or> GetFrom msg = p \<longrightarrow> pushMsg (gossipsub_router tc) map_blacklist tc src msg s = Some s)"
    by simp
  then show ?thesis by (intro exI [of _ st'] conjI st'(1,3,4) now)
qed

theorem onBlacklistPeer_spec_witness:
  "\<exists>st st' later. gossip_state sample_tc sample_crypto (=) st \<and> [8] \<in> mdom (n_peers st) \<and>
     onBlacklistPeer (gossipsub_router sample_tc) map_blacklist [8] st = Some st' \<and>
     gossip_turn sample_tc (NewPeer [9]) st' = Some later \<and>
     pushMsg (gossipsub_router sample_tc) map_blacklist sample_tc [8] (text_msg [7] (PutUint64 5) [[3], []]) later = Some later"
proof -
  obtain st where s: "gossip_state sample_tc sample_crypto (=) st" "[8] \<in> mdom (n_peers st)"
    using sample_connected by blast
  obtain st' where st': "onBlacklistPeer (gossipsub_router sample_tc) map_blacklist [8] st = Some st'"
    and all: "\<forall>later. gossip_reach sample_tc sample_crypto (=) st' later \<longrightarrow>
      MapBlacklist_Contains (n_blacklist later) [8] \<and> [8] \<notin> mdom (n_peers later) \<and>
      (\<forall>src msg. src = [8] \<or> GetFrom msg = [8] \<longrightarrow>
         pushMsg (gossipsub_router sample_tc) map_blacklist sample_tc src msg later = Some later)"
    by (rule exE [OF onBlacklistPeer_spec [where cr = sample_crypto, OF s]], elim conjE, rule that)
  have dropped: "pushMsg (gossipsub_router sample_tc) map_blacklist sample_tc [8] (text_msg [7] (PutUint64 5) [[3], []]) later = Some later"
    if "gossip_reach sample_tc sample_crypto (=) st' later" for later
    using all that by simp
  let ?later = "onNewPeers map_blacklist [9] st'"
  have turn: "gossip_turn sample_tc (NewPeer [9]) st' = Some ?later" by (simp add: loop_turn_def)
  have "gossip_reach sample_tc sample_crypto (=) st' ?later"
    by (rule reach.more [OF reach.start node_step.turn [OF _ turn]]) (simp add: valid_event_def)
  with s st' turn dropped show ?thesis by blast
qed

text \<open>
  The first message in the queue of a new peer announces exactly the topics this node subscribes to, each
  once; a known or a blacklisted peer gets no new queue.
\<close>

lemma onNewPeers_spec:
  "if pid \<in> mdom (n_peers st) \<or> MapBlacklist_Contains (n_blacklist st) pid then onNewPeers map_blacklist pid st = st
   else \<exists>ts. set ts = mdom (n_myTopics st) \<and> distinct ts \<and>
     outbox (onNewPeers map_blacklist pid st) pid = [rpcWithSubs (map (\<lambda>t. mkSubOpts t True) ts)] \<and>
     n_spawned (onNewPeers map_blacklist pid st) = n_spawned st @ [pid]"
proof -
  obtain ts s where r: "range_over (mkeys (n_myTopics st)) st = (ts, s)" by force
  obtain e where "s = st\<lparr>n_choices := e\<rparr>" using range_over_set(4) [OF r] by blast
  then show ?thesis
    using range_over_set [OF r]
    by (auto simp: onNewPeers_def map_blacklist_def spawn_writer_def getHelloPacket_def r Let_def outbox_def lookup_update)
qed

text \<open>
  A retried announcement is sent only if it still holds: if the node has meanwhile left the topic it
  announced (or joined the one it left) nothing is sent and no further retry is scheduled; otherwise it is
  queued, or scheduled again while the peer's queue is full, and dropped when the peer is gone.
\<close>

lemma announceRetry_spec:
  assumes "peers_ok st"
  shows "if (t \<in> mdom (n_myTopics st)) \<noteq> sub then announceRetry p t sub st = Some st
    else \<exists>st'. announceRetry p t sub st = Some st' \<and>
      (\<forall>q. outbox st' q = (if q = p \<and> has_room st p then outbox st p @ [rpcWithSubs [mkSubOpts t sub]] else outbox st q)) \<and>
      ((p, t, sub) \<in> set (n_retries st') \<longleftrightarrow>
         (p, t, sub) \<in> set (n_retries st) \<or> p \<in> mdom (n_peers st) \<and> \<not> has_room st p)"
  using doAnnounceRetry_announced [OF assms, of p t sub]
  by (auto simp: announceRetry_def Let_def announced_def)

text \<open>
  \<open>ListPeers\<close> answers with the connected peers in the topic, or with all connected peers for the empty
  topic, each once.
\<close>

lemma onGetPeers_spec:
  "set (fst (onGetPeers t st)) = {p \<in> mdom (n_peers st). t = [] \<or> p \<in> members st t} \<and>
     distinct (fst (onGetPeers t st)) \<and> (\<exists>e. snd (onGetPeers t st) = st\<lparr>n_choices := e\<rparr>)"
proof (cases "t \<noteq> [] \<and> t \<notin> mdom (n_topics st)")
  case True
  have "\<exists>e. st = st\<lparr>n_choices := e\<rparr>" by (rule exI [of _ "n_choices st"]) simp
  moreover have "members st t = {}" using True by (simp add: mget0_def mem_mdom)
  ultimately show ?thesis using True by (auto simp: onGetPeers_def)
next
  case False
  obtain ps s where r: "range_over (mkeys (n_peers st)) st = (ps, s)" by force
  with False range_over_set [OF r] show ?thesis by (auto simp: onGetPeers_def)
qed

end
