(* ===== verification/Forwarding.thy ===== *)
theory Forwarding
  imports Effects
begin

text \<open>
  What leaves a node: every message that waits in the queue of a peer, in the channel of a subscription or
  in the router's cache was published by the node, and so went through the validation pipeline. The locale
  \<open>forwarding\<close> says what a router must keep to: it sends and caches nothing but what it is given to publish
  and what it has cached.
\<close>

section \<open>The messages a node holds\<close>

definition boxed :: "('s, 'b, 'z) node_scheme \<Rightarrow> pb_Message set" where
  "boxed st = {m. \<exists>p rpc. rpc \<in> set (outbox st p) \<and> m \<in> set (r_Publish rpc)}"

definition inbox :: "('s, 'b, 'z) node_scheme \<Rightarrow> pb_Message set" where
  "inbox st = {m. \<exists>i sub. mget (n_subs st) i = Some sub \<and> m \<in> set (ch_buf (s_ch sub))}"

text \<open>A router's step: \<open>K\<close> is what it was given.\<close>

definition passes ::
  "(('s, 'b, 'z) node_scheme \<Rightarrow> pb_Message set) \<Rightarrow> pb_Message set \<Rightarrow>
   ('s, 'b, 'z) node_scheme \<Rightarrow> ('s, 'b, 'z) node_scheme \<Rightarrow> bool" where
  "passes cached K st st' \<longleftrightarrow>
     boxed st' \<union> cached st' \<subseteq> boxed st \<union> cached st \<union> K \<and> n_subs st' = n_subs st \<and> n_published st' = n_published st"

text \<open>A step of the loop.\<close>

definition held :: "(('s, 'b, 'z) node_scheme \<Rightarrow> pb_Message set) \<Rightarrow> ('s, 'b, 'z) node_scheme \<Rightarrow> pb_Message set" where
  "held cached st = boxed st \<union> cached st \<union> inbox st"

definition carries ::
  "(('s, 'b, 'z) node_scheme \<Rightarrow> pb_Message set) \<Rightarrow> ('s, 'b, 'z) node_scheme \<Rightarrow> ('s, 'b, 'z) node_scheme \<Rightarrow> bool" where
  "carries cached st st' \<longleftrightarrow>
     held cached st' \<subseteq> held cached st \<union> set (n_published st') \<and> set (n_published st) \<subseteq> set (n_published st')"

lemma passes_refl [simp, intro]: "passes cached K st st"
  by (auto simp: passes_def)

lemma passes_trans: "passes cached K s t \<Longrightarrow> passes cached K t u \<Longrightarrow> passes cached K s u"
  unfolding passes_def by auto

lemma carries_refl [simp, intro]: "carries cached st st"
  by (auto simp: carries_def)

lemma carries_trans: "carries cached s t \<Longrightarrow> carries cached t u \<Longrightarrow> carries cached s u"
  unfolding carries_def by blast

lemma passes_foldM:
  "foldM f xs st = Some st' \<Longrightarrow> (\<And>x s s'. f x s = Some s' \<Longrightarrow> passes cached K s s') \<Longrightarrow> passes cached K st st'"
  by (rule foldM_rel [where R = "passes cached K"]) (auto intro: passes_trans)

lemma carries_foldM:
  "foldM f xs st = Some st' \<Longrightarrow> (\<And>x s s'. f x s = Some s' \<Longrightarrow> carries cached s s') \<Longrightarrow> carries cached st st'"
  by (rule foldM_rel [where R = "carries cached"]) (auto intro: carries_trans)

lemma carries_fold: "(\<And>x s. carries cached s (f x s)) \<Longrightarrow> carries cached st (fold f xs st)"
  by (induction xs arbitrary: st) (auto intro: carries_trans)

lemma passes_carries:
  assumes "passes cached {} st st'" shows "carries cached st st'"
  using assms by (auto simp: passes_def carries_def held_def inbox_def)

lemma passes_quiet:
  assumes "n_peers st' = n_peers st" "n_subs st' = n_subs st" "n_published st' = n_published st" "cached st' = cached st"
  shows "passes cached K st st'"
  using assms by (auto simp: passes_def boxed_def outbox_def)

text \<open>A message is put into a queue.\<close>

lemma boxed_put: "boxed (st\<lparr>n_peers := mput p c (n_peers st)\<rparr>) \<subseteq> boxed st \<union> (\<Union>rpc \<in> set (ch_buf c). set (r_Publish rpc))"
  by (auto simp: boxed_def outbox_def lookup_update split: option.splits if_splits)

lemma boxed_in:
  assumes "mget (n_peers st) p = Some c" "rpc \<in> set (ch_buf c)" "m \<in> set (r_Publish rpc)" shows "m \<in> boxed st"
proof -
  have "rpc \<in> set (outbox st p)" using assms(1,2) by (simp add: outbox_def)
  with assms(3) show ?thesis unfolding boxed_def by blast
qed

lemma boxed_del: "boxed (st\<lparr>n_peers := mdel p (n_peers st)\<rparr>) \<subseteq> boxed st"
proof
  let ?st = "st\<lparr>n_peers := mdel p (n_peers st)\<rparr>"
  fix m assume "m \<in> boxed ?st"
  then obtain q rpc where q: "rpc \<in> set (outbox ?st q)" "m \<in> set (r_Publish rpc)" by (auto simp: boxed_def)
  then have "outbox ?st q = outbox st q" by (auto simp: outbox_def lookup_delete split: if_splits)
  with q show "m \<in> boxed st" by (auto simp: boxed_def)
qed

lemma try_send_boxed:
  assumes "try_send p out st = Some (r, st')" shows "boxed st' \<subseteq> boxed st \<union> set (r_Publish out)"
proof (cases r)
  case Queued
  then obtain c c' where c: "mget (n_peers st) p = Some c" "chan_send out c = Some (Sent c')"
    "st' = st\<lparr>n_peers := mput p c' (n_peers st)\<rparr>"
    using assms by (auto simp: try_send_def split: option.splits sent.splits)
  then have "set (ch_buf c') = insert out (set (ch_buf c))" by (auto simp: chan_send_def split: if_splits)
  then show ?thesis using boxed_put [where st = st and p = p and c = c'] boxed_in [OF c(1)] by (auto simp: c(3))
qed (use assms in \<open>auto simp: try_send_def split: option.splits sent.splits\<close>)

lemma try_send_same:
  "try_send p out st = Some (r, st') \<Longrightarrow> n_subs st' = n_subs st \<and> n_published st' = n_published st \<and> node.more st' = node.more st"
  by (auto simp: try_send_def split: option.splits sent.splits)

lemma passes_try_send:
  assumes "try_send p out st = Some (r, st')" "set (r_Publish out) \<subseteq> K" "cached st' = cached st"
  shows "passes cached K st st'"
  using try_send_boxed [OF assms(1)] try_send_same [OF assms(1)] assms(2,3) by (auto simp: passes_def)

lemma passes_range: "range_over ks st = (ks', st') \<Longrightarrow> cached st' = cached st \<Longrightarrow> passes cached K st st'"
  using range_over_set(4) by (fastforce intro: passes_quiet)

lemma r_Publish_with [simp]:
  "r_Publish (rpcWithMessages ms) = ms" "r_Publish (rpcWithSubs subs) = []"
  "r_Publish (rpcWithControl ms ihave iwant graft prune) = ms"
  by (simp_all add: rpcWithMessages_def rpcWithSubs_def rpcWithControl_def)

section \<open>The routers' contract\<close>

locale forwarding =
  fixes rt :: "('s, 'b, 'z) router_methods"
    and hb :: "('s, 'b, 'z) node_scheme \<Rightarrow> ('s, 'b, 'z) node_scheme option"
    and cached :: "('s, 'b, 'z) node_scheme \<Rightarrow> pb_Message set"
  assumes cached_own: "node.more st' = node.more st \<Longrightarrow> cached st' = cached st"
    and adds_peer: "passes cached {} st (rt_AddPeer rt p proto st)"
    and removes_peer: "passes cached {} st (rt_RemovePeer rt p st)"
    and handles_rpc: "rt_HandleRPC rt rpc st = Some st' \<Longrightarrow> passes cached {} st st'"
    and publishes: "rt_Publish rt src msg st = Some st' \<Longrightarrow> passes cached {msg} st st'"
    and joins: "rt_Join rt t st = Some st' \<Longrightarrow> passes cached {} st st'"
    and leaves: "rt_Leave rt t st = Some st' \<Longrightarrow> passes cached {} st st'"
    and beats: "hb st = Some st' \<Longrightarrow> passes cached {} st st'"
begin

lemma carries_quiet:
  assumes "n_peers st' = n_peers st" "n_subs st' = n_subs st" "n_published st' = n_published st" "node.more st' = node.more st"
  shows "carries cached st st'"
  by (rule passes_carries [OF passes_quiet [OF assms(1-3) cached_own [OF assms(4)]]])

text \<open>Subscriptions: their events are no messages.\<close>

lemma carries_subs:
  assumes "n_peers st' = n_peers st" "n_published st' = n_published st" "node.more st' = node.more st"
    and "\<And>i sub. mget (n_subs st') i = Some sub \<Longrightarrow> set (ch_buf (s_ch sub)) \<subseteq> inbox st"
  shows "carries cached st st'"
proof -
  have "inbox st' \<subseteq> inbox st" using assms(4) unfolding inbox_def [of st'] by blast
  moreover have "boxed st' = boxed st" using assms(1) by (simp add: boxed_def outbox_def)
  ultimately show ?thesis using cached_own [OF assms(3)] assms(2) by (auto simp: carries_def held_def)
qed

lemma inbox_in: "mget (n_subs st) i = Some sub \<Longrightarrow> set (ch_buf (s_ch sub)) \<subseteq> inbox st"
  by (auto simp: inbox_def)

lemma carries_upd_sub:
  assumes "\<And>sub. set (ch_buf (s_ch (f sub))) \<subseteq> set (ch_buf (s_ch sub))" shows "carries cached st (upd_sub i f st)"
proof (cases "mget (n_subs st) i")
  case (Some sub)
  show ?thesis
  proof (rule carries_subs)
    fix j sub' assume "mget (n_subs (upd_sub i f st)) j = Some sub'"
    then show "set (ch_buf (s_ch sub')) \<subseteq> inbox st"
      using assms [of sub] inbox_in [OF Some] inbox_in [of st j sub']
      by (auto simp: upd_sub_def Some lookup_update split: if_splits)
  qed (simp_all add: upd_sub_def Some)
qed (simp add: upd_sub_def)

lemma carries_notify: "carries cached st (notify_topic t evt st)"
proof -
  have "carries cached s (upd_sub i (sendNotification evt) s)" for i s
    by (rule carries_upd_sub) (simp add: sendNotification_def addToEventLog_def signal_def Let_def split: option.split)
  then show ?thesis by (auto simp: notify_topic_def intro: carries_fold split: option.split)
qed

lemma carries_topics: "carries cached st (notify_topic t evt (st\<lparr>n_topics := T\<rparr>))"
  by (rule carries_trans [OF carries_quiet carries_notify]) simp_all

lemma carries_subopt: "carries cached st (handle_subopt p so st)"
proof -
  have "carries cached st (st\<lparr>n_topics := T\<rparr>)" for T by (rule carries_quiet) simp_all
  moreover have "carries cached st (notify_topic t evt (st\<lparr>n_topics := T, n_topics := U\<rparr>))" for t evt T U
    using carries_topics [where T = U] by simp
  ultimately show ?thesis
    using carries_topics by (auto simp: handle_subopt_def notifyLeave_def Let_def split: option.split)
qed

text \<open>Publishing: the message is among the published ones first.\<close>

lemma deliver_carries:
  assumes "deliver msg i st = Some st'" "msg \<in> set (n_published st)"
  shows "carries cached st st' \<and> n_published st' = n_published st"
proof (cases "st' = st")
  case False
  then obtain sub c where d: "mget (n_subs st) i = Some sub" "chan_send msg (s_ch sub) = Some (Sent c)"
    "st' = st\<lparr>n_subs := mput i (sub\<lparr>s_ch := c\<rparr>) (n_subs st)\<rparr>"
    using assms(1) by (auto simp: deliver_def split: option.splits sent.splits)
  have "set (ch_buf c) \<subseteq> insert msg (set (ch_buf (s_ch sub)))" using d(2) by (auto simp: chan_send_def split: if_splits)
  then have "inbox st' \<subseteq> inbox st \<union> {msg}"
    using d(1) by (auto simp: inbox_def d(3) lookup_update split: if_splits)
  moreover have "boxed st' = boxed st" by (simp add: d(3) boxed_def outbox_def)
  moreover have "cached st' = cached st" by (rule cached_own) (simp add: d(3))
  ultimately show ?thesis using assms(2) by (auto simp: carries_def held_def d(3))
qed simp

lemma notifySubs_carries:
  assumes "notifySubs msg st = Some st'" "msg \<in> set (n_published st)"
  shows "carries cached st st' \<and> n_published st' = n_published st"
proof -
  let ?R = "\<lambda>s s'. msg \<in> set (n_published s) \<longrightarrow> carries cached s s' \<and> n_published s' = n_published s"
  have tr: "?R s t \<Longrightarrow> ?R t u \<Longrightarrow> ?R s u" for s t u by (auto intro: carries_trans)
  have "?R s s'" if "foldM (deliver msg) is s = Some s'" for "is" s s'
    by (rule foldM_rel [where R = ?R, OF that]) (use deliver_carries tr in blast)+
  then have "?R st st'"
    by (intro foldM_rel [where R = ?R, OF assms(1) [unfolded notifySubs_def]]) (use tr in blast)+
  with assms(2) show ?thesis by blast
qed

lemma publishMessage_carries:
  assumes "publishMessage rt src msg st = Some st'" shows "carries cached st st'"
proof -
  let ?st = "st\<lparr>n_published := n_published st @ [msg]\<rparr>"
  obtain s where s: "notifySubs msg ?st = Some s" "rt_Publish rt src msg s = Some st'"
    using assms by (auto simp: publishMessage_def split: Option.bind_splits)
  have 1: "carries cached ?st s" "n_published s = n_published ?st" using notifySubs_carries [OF s(1)] by simp_all
  have "cached ?st = cached st" by (rule cached_own) simp
  then have 0: "carries cached st ?st" by (auto simp: carries_def held_def boxed_def outbox_def inbox_def)
  have "carries cached s st'"
    using publishes [OF s(2)] 1(2) by (auto simp: passes_def carries_def held_def inbox_def)
  with 0 1(1) show ?thesis by (blast intro: carries_trans)
qed

lemma pushMsg_carries: assumes "pushMsg rt bl tc src msg st = Some st'" shows "carries cached st st'"
proof -
  have q: "carries cached st (st\<lparr>n_val := v\<rparr>)" "carries cached st (st\<lparr>n_val := v, n_seen := x\<rparr>)" for v x
    by (rule carries_quiet; simp)+
  show ?thesis
    using assms q carries_trans [OF q(2) publishMessage_carries]
    by (fastforce simp: pushMsg_def Let_def markSeen_def split: if_splits Option.bind_splits prod.splits)
qed

text \<open>Announcements hold no messages.\<close>

lemma send_carries: "try_send p out st = Some (r, st') \<Longrightarrow> r_Publish out = [] \<Longrightarrow> carries cached st st'"
  by (rule passes_carries [OF passes_try_send [OF _ _ cached_own]]) (simp_all add: try_send_same)

lemma retry_carries: "doAnnounceRetry p t b st = Some st' \<Longrightarrow> carries cached st st'"
proof -
  assume d: "doAnnounceRetry p t b st = Some st'"
  then obtain r s where s: "try_send p (rpcWithSubs [mkSubOpts t b]) st = Some (r, s)"
    "st' = (case r of QueueFull \<Rightarrow> s\<lparr>n_retries := n_retries s @ [(p, t, b)]\<rparr> | _ \<Rightarrow> s)"
    by (auto simp: doAnnounceRetry_def split: Option.bind_splits)
  have "carries cached s st'" unfolding s(2) by (cases r) (auto intro: carries_quiet)
  with send_carries [OF s(1)] show ?thesis by (auto intro: carries_trans)
qed

lemma announce_carries: assumes "announce t b st = Some st'" shows "carries cached st st'"
proof -
  obtain ps s where r: "range_over (mkeys (n_peers st)) st = (ps, s)" by force
  have "carries cached st s" using range_over_set(4) [OF r] by (auto intro: carries_quiet)
  moreover have "carries cached s st'"
    using assms by (auto simp: announce_def r intro: carries_foldM retry_carries)
  ultimately show ?thesis by (rule carries_trans)
qed

lemma carries_new_sub:
  assumes "ch_buf (s_ch sub) = []" shows "carries cached st (st\<lparr>n_subs := mput i sub (n_subs st), n_myTopics := M\<rparr>)"
  by (rule carries_subs) (use inbox_in [of st] assms in \<open>auto simp: lookup_update split: if_splits\<close>)

lemma add_carries:
  assumes "handleAddSubscription rt sub st = Some (i, st')" "ch_buf (s_ch sub) = []" shows "carries cached st st'"
proof -
  let ?t = "s_topic sub"
  let ?m = "if mlen (mget0 (n_myTopics st) ?t) = 0 then Option.bind (announce ?t True st) (rt_Join rt ?t) else Some st"
  obtain s where s: "?m = Some s" using assms(1) by (cases ?m) (simp_all add: handleAddSubscription_def Let_def)
  have 1: "carries cached st s"
    using s by (auto split: if_splits Option.bind_splits
        intro: carries_trans [OF announce_carries passes_carries [OF joins]])
  have "carries cached s st'"
    using assms s by (auto simp: handleAddSubscription_def Let_def intro!: carries_new_sub)
  with 1 show ?thesis by (rule carries_trans)
qed

lemma remove_carries: assumes "handleRemoveSubscription rt i st = Some st'" shows "carries cached st st'"
proof (cases "st' = st")
  case False
  then obtain sub subs where sub: "mget (n_subs st) i = Some sub" "mget (n_myTopics st) (s_topic sub) = Some subs"
    "\<not> ch_closed (s_ch sub)"
    using assms by (auto simp: handleRemoveSubscription_def close_sub_def chan_close_def Let_def
        split: option.splits if_splits Option.bind_splits)
  let ?t = "s_topic sub" and ?sub = "sub\<lparr>s_cancelled := True, s_ch := (s_ch sub)\<lparr>ch_closed := True\<rparr>\<rparr>"
  let ?s = "st\<lparr>n_subs := mput i ?sub (n_subs st), n_myTopics := mput ?t (mdel i subs) (n_myTopics st)\<rparr>"
  have 1: "carries cached st ?s"
    by (rule carries_subs) (use inbox_in [OF sub(1)] inbox_in [of st] in \<open>auto simp: lookup_update split: if_splits\<close>)
  have 2: "carries cached ?s (?s\<lparr>n_myTopics := M\<rparr>)" for M by (rule carries_quiet) simp_all
  have "st' = ?s \<or> Option.bind (announce ?t False (?s\<lparr>n_myTopics := mdel ?t (n_myTopics ?s)\<rparr>)) (rt_Leave rt ?t) = Some st'"
    using assms sub by (auto simp: handleRemoveSubscription_def close_sub_def chan_close_def Let_def split: if_splits)
  then show ?thesis
  proof
    assume "Option.bind (announce ?t False (?s\<lparr>n_myTopics := mdel ?t (n_myTopics ?s)\<rparr>)) (rt_Leave rt ?t) = Some st'"
    then obtain u where u: "announce ?t False (?s\<lparr>n_myTopics := mdel ?t (n_myTopics ?s)\<rparr>) = Some u" "rt_Leave rt ?t u = Some st'"
      by (auto split: Option.bind_splits)
    have "carries cached u st'" by (rule passes_carries [OF leaves [OF u(2)]])
    with 1 2 announce_carries [OF u(1)] show ?thesis by (meson carries_trans)
  qed (simp add: 1)
qed simp

text \<open>Peers come with a hello packet, and take their queue with them.\<close>

lemma spawn_carries: "carries cached st (spawn_writer p st)"
proof -
  obtain ts s where r: "range_over (mkeys (n_myTopics st)) st = (ts, s)" by force
  let ?q = "(make_chan 32)\<lparr>ch_buf := [rpcWithSubs (map (\<lambda>t. mkSubOpts t True) ts)]\<rparr>"
  let ?s = "s\<lparr>n_spawned := n_spawned s @ [p], n_peers := mput p ?q (n_peers s)\<rparr>"
  have 1: "carries cached st s" using range_over_set(4) [OF r] by (auto intro: carries_quiet)
  have "boxed (s\<lparr>n_peers := mput p ?q (n_peers s)\<rparr>) \<subseteq> boxed s" using boxed_put [where st = s and p = p and c = ?q] by simp
  moreover have "boxed ?s = boxed (s\<lparr>n_peers := mput p ?q (n_peers s)\<rparr>)" by (simp add: boxed_def outbox_def)
  moreover have "cached ?s = cached s" by (rule cached_own) simp
  ultimately have "passes cached {} s ?s" by (auto simp: passes_def)
  then have "carries cached s ?s" by (rule passes_carries)
  with 1 have "carries cached st ?s" by (rule carries_trans)
  then show ?thesis by (simp add: spawn_writer_def getHelloPacket_def r)
qed

lemma carries_peers: "boxed (st\<lparr>n_peers := P\<rparr>) \<subseteq> boxed st \<Longrightarrow> carries cached st (st\<lparr>n_peers := P\<rparr>)"
  by (rule passes_carries) (use cached_own [of "st\<lparr>n_peers := P\<rparr>" st] in \<open>auto simp: passes_def\<close>)

lemma close_carries:
  assumes "mget (n_peers st) p = Some c" "chan_close c = Some c'" shows "carries cached st (st\<lparr>n_peers := mput p c' (n_peers st)\<rparr>)"
proof -
  have "ch_buf c' = ch_buf c" using assms(2) by (auto simp: chan_close_def split: if_splits)
  then have "boxed (st\<lparr>n_peers := mput p c' (n_peers st)\<rparr>) \<subseteq> boxed st"
    using boxed_put [where st = st and p = p and c = c'] boxed_in [OF assms(1)] by auto
  then show ?thesis by (rule carries_peers)
qed

lemma drop_carries: "carries cached st (drop_peer rt p st)"
proof -
  let ?s = "st\<lparr>n_peers := mdel p (n_peers st)\<rparr>"
  have "carries cached s (leave_topic p t s)" for t s
    using carries_topics by (simp add: leave_topic_def notifyLeave_def Let_def)
  then have "carries cached ?s (fold (leave_topic p) (mkeys (n_topics ?s)) ?s)" by (rule carries_fold)
  moreover have "carries cached st ?s" by (rule carries_peers [OF boxed_del])
  moreover have "carries cached s (rt_RemovePeer rt p s)" for s by (rule passes_carries [OF removes_peer])
  ultimately show ?thesis unfolding drop_peer_def Let_def by (blast intro: carries_trans)
qed

lemma incoming_carries:
  assumes "handleIncomingRPC rt bl tc rpc st = Some st'" shows "carries cached st st'"
proof -
  let ?f = "\<lambda>pmsg st. if \<not> subscribedToMsg pmsg st then Some st else pushMsg rt bl tc (r_from rpc) pmsg st"
  let ?s = "fold (handle_subopt (r_from rpc)) (r_Subscriptions rpc) st"
  obtain u where u: "foldM ?f (r_Publish rpc) ?s = Some u" "rt_HandleRPC rt rpc u = Some st'"
    using assms by (auto simp: handleIncomingRPC_def split: Option.bind_splits)
  have "carries cached st ?s" by (rule carries_fold [OF carries_subopt])
  moreover have "carries cached ?s u" using u(1) by (rule carries_foldM) (auto split: if_splits intro: pushMsg_carries)
  moreover have "carries cached u st'" by (rule passes_carries [OF handles_rpc [OF u(2)]])
  ultimately show ?thesis by (blast intro: carries_trans)
qed

lemma range_carries: "range_over ks st = (ks', st') \<Longrightarrow> carries cached st st'"
  using range_over_set(4) by (fastforce intro: carries_quiet)

lemma peer_events_carry:
  "carries cached st (onNewPeers bl p st)"
  "onNewPeerStream rt bl p proto st = Some st' \<Longrightarrow> carries cached st st'"
  "carries cached st (onNewPeerError p st)"
  "onPeerDead rt p connected st = Some st' \<Longrightarrow> carries cached st st'"
  "onBlacklistPeer rt bl p st = Some st' \<Longrightarrow> carries cached st st'"
proof -
  show "carries cached st (onNewPeers bl p st)" using spawn_carries by (simp add: onNewPeers_def)
  show "onNewPeerStream rt bl p proto st = Some st' \<Longrightarrow> carries cached st st'"
    using close_carries passes_carries [OF adds_peer]
    by (auto simp: onNewPeerStream_def split: option.splits if_splits Option.bind_splits)
  show "carries cached st (onNewPeerError p st)" by (simp add: onNewPeerError_def carries_peers [OF boxed_del])
  show "onPeerDead rt p connected st = Some st' \<Longrightarrow> carries cached st st'"
    using spawn_carries drop_carries by (auto simp: onPeerDead_def split: option.splits Option.bind_splits)
  have "carries cached st (st\<lparr>n_blacklist := b\<rparr>)" for b by (rule carries_quiet) simp_all
  then show "onBlacklistPeer rt bl p st = Some st' \<Longrightarrow> carries cached st st'"
    using carries_trans [OF _ drop_carries] by (auto simp: onBlacklistPeer_def Let_def split: option.splits Option.bind_splits)
qed

lemma request_events_carry:
  "carries cached st (snd (onGetTopics st))" "carries cached st (snd (onGetPeers t st))"
  "carries cached st (snd (onAddVal req st))" "carries cached st (snd (onRmVal t st))"
proof -
  show "carries cached st (snd (onGetTopics st))"
    unfolding onGetTopics_def by (rule range_carries [OF surjective_pairing])
  have "carries cached st (snd (range_over ks st))" for ks :: "peer list" by (rule range_carries [OF surjective_pairing])
  then show "carries cached st (snd (onGetPeers t st))" by (simp add: onGetPeers_def case_prod_unfold Let_def)
  have "carries cached st (st\<lparr>n_val := v\<rparr>)" for v by (rule carries_quiet) simp_all
  then show "carries cached st (snd (onAddVal req st))" "carries cached st (snd (onRmVal t st))"
    by (simp_all add: onAddVal_def onRmVal_def case_prod_unfold Let_def)
qed

lemma sendMsg_carries: assumes "onSendMsg rt st = Some st'" shows "carries cached st st'"
proof -
  have q: "carries cached st (st\<lparr>n_sendMsg := q\<rparr>)" for q by (rule carries_quiet) simp_all
  then show ?thesis
    using assms by (auto simp: onSendMsg_def intro: carries_trans [OF q publishMessage_carries] split: list.splits)
qed

lemma evalRetry_carries: "announceRetry p t b (st\<lparr>n_retries := R\<rparr>) = Some st' \<Longrightarrow> carries cached st st'"
proof -
  have 1: "carries cached st (st\<lparr>n_retries := R\<rparr>)" by (rule carries_quiet) simp_all
  assume "announceRetry p t b (st\<lparr>n_retries := R\<rparr>) = Some st'"
  then have "carries cached (st\<lparr>n_retries := R\<rparr>) st'"
    by (auto simp: announceRetry_def Let_def intro: retry_carries split: if_splits)
  with 1 show ?thesis by (rule carries_trans)
qed

lemma turn_carries: assumes "loop_turn rt bl tc hb ev st = Some st'" shows "carries cached st st'"
proof (cases ev)
  case (AddSub t)
  then obtain i where "handleAddSubscription rt (newSubscription t) st = Some (i, st')" using assms by (auto simp: loop_turn_def)
  then show ?thesis by (rule add_carries) (simp add: newSubscription_def make_chan_def)
next
  case (EvalRetry k)
  then show ?thesis using assms by (auto simp: loop_turn_def intro: evalRetry_carries split: if_splits prod.splits)
qed (use assms in \<open>auto simp: loop_turn_def intro: peer_events_carry request_events_carry remove_carries incoming_carries
  pushMsg_carries sendMsg_carries passes_carries beats\<close>)

text \<open>The other steps of a node.\<close>

lemma outside_carries: "outside_pipe st st' \<Longrightarrow> carries cached st st'"
  by (rule carries_quiet) (simp_all add: outside_pipe_def)

lemma user_carries:
  assumes "mget (n_subs st) i = Some sub" "set (ch_buf (s_ch sub')) \<subseteq> set (ch_buf (s_ch sub))"
  shows "carries cached st (st\<lparr>n_subs := mput i sub' (n_subs st)\<rparr>)"
  by (rule carries_subs) (use assms(2) inbox_in [OF assms(1)] inbox_in [of st] in \<open>auto simp: lookup_update split: if_splits\<close>)

lemma NextPeerEvent_ch: "s_ch (fst (snd (NextPeerEvent sub e))) = s_ch sub"
proof (induction sub e rule: NextPeerEvent.induct)
  case (1 sub e)
  obtain r sub1 e1 where p: "pullFromEventLog sub e = (r, sub1, e1)" by (metis prod_cases3)
  then have "s_ch sub1 = s_ch sub" by (auto simp: pullFromEventLog_def split: prod.splits list.splits option.splits)
  with "1.IH" [OF p [symmetric]] p show ?case
    by (cases r) (auto simp: NextPeerEvent.simps [of sub e] signal_def)
qed

lemma goroutine_carries: "goroutine_step tc cr forget st st' \<Longrightarrow> carries cached st st'"
proof (induction rule: goroutine_step.induct)
  case (written st p ch rpc rpcs)
  have "boxed (st\<lparr>n_peers := mput p (ch\<lparr>ch_buf := rpcs\<rparr>) (n_peers st)\<rparr>) \<subseteq> boxed st"
    using boxed_put [where st = st and p = p and c = "ch\<lparr>ch_buf := rpcs\<rparr>"] boxed_in [OF written(1)] written(2) by auto
  then show ?case by (rule carries_peers)
next
  case (received st i sub r sub')
  have "set (ch_buf (s_ch sub')) \<subseteq> set (ch_buf (s_ch sub))"
    using received(2) by (auto simp: Next_def split: list.splits if_splits)
  with received(1) show ?case by (rule user_carries)
next
  case (notified st i sub e r sub' e')
  then show ?case using NextPeerEvent_ch [of sub e] by (intro user_carries [OF notified(1)]) simp
next
  case (published topic data st r st')
  then show ?case using Publish_message [OF published(1)] by (intro carries_quiet) auto
qed (auto intro: outside_carries validateWorker_outside begin_outside end_outside send_outside carries_quiet)

lemma step_carries: "node_step rt bl tc hb cr forget st st' \<Longrightarrow> carries cached st st'"
  by (induction rule: node_step.induct) (auto intro: turn_carries goroutine_carries)

lemma reach_carries: "reach rt bl tc hb cr forget st0 st \<Longrightarrow> carries cached st0 st"
  by (induction rule: reach.induct) (auto intro: carries_trans step_carries)

lemma reach_held:
  assumes "reach rt bl tc hb cr forget st0 st" "held cached st0 = {}" shows "held cached st \<subseteq> set (n_published st)"
  using reach_carries [OF assms(1)] assms(2) by (auto simp: carries_def)

end

end
