(* ===== verification/RouterForwarding.thy ===== *)
theory RouterForwarding
  imports Forwarding GossipSpec
begin

text \<open>
  The routers keep to the contract \<open>forwarding\<close>: floodsub and randomsub cache nothing and send only the
  message they are given; gossipsub caches it, too, and answers IWANT from the cache.
\<close>

section \<open>The flooding routers\<close>

lemma send_unless_passes:
  assumes "foldM (\<lambda>p st. if c p then Some st else map_option snd (try_send p out st)) ps st = Some st'" "set (r_Publish out) \<subseteq> K"
  shows "passes (\<lambda>_. {}) K st st'"
  by (rule passes_foldM [OF assms(1)]) (auto split: if_splits intro: passes_try_send [OF _ assms(2)])

lemma fs_Publish_passes: assumes "fs_Publish src msg st = Some st'" shows "passes (\<lambda>_. {}) {msg} st st'"
proof -
  let ?tosend = "topic_peers (n_topics st) (m_TopicIDs msg) mempty"
  obtain ps s where r: "range_over (mkeys ?tosend) st = (ps, s)" by force
  have "passes (\<lambda>_. {}) {msg} s st'"
    using assms by (intro send_unless_passes) (auto simp: fs_Publish_def r Let_def)
  with passes_range [OF r refl] show ?thesis by (rule passes_trans)
qed

interpretation flood_forwards: forwarding "floodsub_router :: ('s, 'b, 'z floodsub_ext) router_methods" Some "\<lambda>_. {}"
  by unfold_locales (auto simp: floodsub_router_def intro: fs_Publish_passes)

lemma rs_Publish_passes: assumes "rs_Publish src msg st = Some st'" shows "passes (\<lambda>_. {}) {msg} st st'"
proof -
  obtain A B where c: "rs_collect (rs_peers st) (n_topics st) src (GetFrom msg) (m_TopicIDs msg) (mempty, mempty) = (A, B)" by force
  obtain sel s where sel: "rs_select A B st = (sel, s)" by force
  obtain ps u where r: "range_over (mkeys sel) s = (ps, u)" by force
  have "foldM (\<lambda>p st. if False then Some st else map_option snd (try_send p (rpcWithMessages [msg]) st)) ps u = Some st'"
    using assms by (simp add: rs_Publish_def c sel r Let_def)
  then have "passes (\<lambda>_. {}) {msg} u st'" by (rule send_unless_passes) simp
  moreover have "passes (\<lambda>_. {}) {msg} st s" using rs_select_spec(2) [OF sel] by (auto intro: passes_quiet)
  moreover have "passes (\<lambda>_. {}) {msg} s u" by (rule passes_range [OF r refl])
  ultimately show ?thesis by (blast intro: passes_trans)
qed

interpretation random_forwards: forwarding "randomsub_router :: ('s, 'b, 'z randomsub_ext) router_methods" Some "\<lambda>_. {}"
  by unfold_locales
    (auto simp: randomsub_router_def rs_AddPeer_def rs_RemovePeer_def intro: rs_Publish_passes passes_quiet)

section \<open>Gossipsub\<close>

definition gs_cached :: "('s, 'b, 'z) gossipsub_scheme \<Rightarrow> pb_Message set" where
  "gs_cached st = {m. \<exists>mid. mget (mc_msgs (gs_mcache st)) mid = Some m}"

text \<open>A step that leaves queues and cache alone.\<close>

definition gs_quiet :: "('s, 'b, 'z) gossipsub_scheme \<Rightarrow> ('s, 'b, 'z) gossipsub_scheme \<Rightarrow> bool" where
  "gs_quiet st st' \<longleftrightarrow> n_peers st' = n_peers st \<and> n_subs st' = n_subs st \<and> n_published st' = n_published st \<and>
     gs_mcache st' = gs_mcache st"

lemma gs_quiet_refl [simp]: "gs_quiet st st" by (simp add: gs_quiet_def)

lemma gs_quiet_trans: "gs_quiet s t \<Longrightarrow> gs_quiet t u \<Longrightarrow> gs_quiet s u" by (simp add: gs_quiet_def)

lemma quiet_passes: "gs_quiet st st' \<Longrightarrow> passes gs_cached K st st'"
  by (rule passes_quiet) (simp_all add: gs_quiet_def gs_cached_def)

lemma gs_quiet_fold: "(\<And>x s. gs_quiet s (f x s)) \<Longrightarrow> gs_quiet st (fold f xs st)"
  by (induction xs arbitrary: st) (auto intro: gs_quiet_trans)

lemma gs_quiet_updates [simp]:
  "gs_quiet st (tagPeer p t st)" "gs_quiet st (untagPeer p t st)" "gs_quiet st (st\<lparr>n_choices := e\<rparr>)"
  "gs_quiet st (st\<lparr>gs_mesh := m\<rparr>)" "gs_quiet st (st\<lparr>gs_fanout := f\<rparr>)" "gs_quiet st (st\<lparr>gs_control := c\<rparr>)"
  "gs_quiet st (st\<lparr>gs_gossip := g\<rparr>)" "gs_quiet st (st\<lparr>gs_lastpub := l\<rparr>)" "gs_quiet st (st\<lparr>gs_peers := P\<rparr>)"
  "gs_quiet st (pushGossip p ih st)" "gs_quiet st (pushControl p ctl st)"
  "gs_quiet st (tagPeer p t (st\<lparr>gs_mesh := m\<rparr>))" "gs_quiet st (untagPeer p t (st\<lparr>gs_mesh := m\<rparr>))"
  by (simp_all add: gs_quiet_def tagPeer_def untagPeer_def pushGossip_def pushControl_def Let_def)

lemma range_quiet: "range_over ks (st :: ('s, 'b, 'z) gossipsub_scheme) = (ks', st') \<Longrightarrow> gs_quiet st st'"
  using range_over_set(4) by fastforce

lemma getPeers_quiet: "getPeers t n f st = (ps, st') \<Longrightarrow> gs_quiet st st'"
  using getPeers_choices by fastforce

lemma shuffle_quiet: "shufflePeers ps (st :: ('s, 'b, 'z) gossipsub_scheme) = (ps', st') \<Longrightarrow> gs_quiet st st'"
  by (auto simp: shufflePeers_def Let_def split: prod.splits)

text \<open>Sending takes control messages along, but no other messages.\<close>

lemma sendRPC_passes:
  assumes "sendRPC p out st = Some st'" "set (r_Publish out) \<subseteq> gs_cached st \<union> K" shows "passes gs_cached K st st'"
proof -
  obtain out1 s where w: "with_gossip p (with_control p out st) = (out1, s)" by force
  obtain r u where t: "try_send p out1 s = Some (r, u)"
    and st': "st' = (case r of QueueFull \<Rightarrow> (case r_Control out1 of None \<Rightarrow> u | Some ctl \<Rightarrow> pushControl p ctl u) | _ \<Rightarrow> u)"
    using assms(1) by (auto simp: sendRPC_def w split: Option.bind_splits)
  have out: "r_Publish out1 = r_Publish out" and s: "gs_quiet st s"
    using w by (auto simp: with_gossip_def with_control_def piggybackGossip_def piggybackControl_def copyRPC_def Let_def
        gs_quiet_def split: option.splits if_splits)
  have "gs_quiet u st'" by (auto simp: st' split: send_result.split option.split)
  moreover have "passes gs_cached (gs_cached st \<union> K) s u"
    using try_send_sends [OF t] assms(2) out
    by (intro passes_try_send [OF t]) (simp_all add: gs_sends_def gs_frame_def gs_cached_def)
  ultimately have "passes gs_cached (gs_cached st \<union> K) st st'"
    using quiet_passes s by (blast intro: passes_trans)
  then show ?thesis by (auto simp: passes_def)
qed

lemma quiet_foldM:
  assumes "gs_quiet st s" "foldM f ps s = Some st'" "\<And>x s s'. f x s = Some s' \<Longrightarrow> passes gs_cached K s s'"
  shows "passes gs_cached K st st'"
proof -
  have "passes gs_cached K s st'" by (rule passes_foldM [OF assms(2)]) (rule assms(3))
  with quiet_passes [OF assms(1)] show ?thesis by (rule passes_trans)
qed

lemma gs_Join_passes: assumes "gs_Join t st = Some st'" shows "passes gs_cached {} st st'"
proof -
  have send: "passes gs_cached {} s s'" if "map_option (tagPeer p t) (sendGraft p t s) = Some s'" for p s s'
    using that by (auto simp: sendGraft_def intro: passes_trans [OF sendRPC_passes quiet_passes])
  show ?thesis
  proof (cases "mhas (gs_mesh st) t")
    case False
    obtain gmap s where g: "(case mget (gs_fanout st) t of
          Some gmap \<Rightarrow> (gmap, st\<lparr>gs_mesh := mput t gmap (gs_mesh st), gs_fanout := mdel t (gs_fanout st),
                               gs_lastpub := mdel t (gs_lastpub st)\<rparr>)
        | None \<Rightarrow> let (peers, st1) = getPeers t GossipSubD (\<lambda>p. True) st; gmap = peerListToMap peers
                  in (gmap, st1\<lparr>gs_mesh := mput t gmap (gs_mesh st1)\<rparr>)) = (gmap, s)" (is "?g = _") by (cases ?g)
    obtain ps u where r: "range_over (mkeys gmap) s = (ps, u)" by force
    have "gs_quiet st s"
      using g getPeers_quiet [of t GossipSubD "\<lambda>p. True" st]
      by (auto simp: gs_quiet_def Let_def split: option.splits prod.splits)
    then have "gs_quiet st u" using range_quiet [OF r] by (rule gs_quiet_trans)
    moreover have "foldM (\<lambda>p st. map_option (tagPeer p t) (sendGraft p t st)) ps u = Some st'"
      using assms False g r by (simp add: gs_Join_def)
    ultimately show ?thesis using send by (rule quiet_foldM)
  qed (use assms in \<open>simp add: gs_Join_def\<close>)
qed

lemma gs_Leave_passes: assumes "gs_Leave t st = Some st'" shows "passes gs_cached {} st st'"
proof (cases "mget (gs_mesh st) t")
  case (Some gmap)
  have send: "passes gs_cached {} s s'" if "map_option (untagPeer p t) (sendPrune p t s) = Some s'" for p s s'
    using that by (auto simp: sendPrune_def intro: passes_trans [OF sendRPC_passes quiet_passes])
  obtain ps u where r: "range_over (mkeys gmap) (st\<lparr>gs_mesh := mdel t (gs_mesh st)\<rparr>) = (ps, u)" by force
  have "gs_quiet st u" using range_quiet [OF r] gs_quiet_updates(4) by (blast intro: gs_quiet_trans)
  moreover have "foldM (\<lambda>p st. map_option (untagPeer p t) (sendPrune p t st)) ps u = Some st'"
    using assms Some r by (simp add: gs_Leave_def)
  ultimately show ?thesis using send by (rule quiet_foldM)
qed (use assms in \<open>simp add: gs_Leave_def\<close>)

text \<open>IWANT is answered from the cache.\<close>

lemma handleIWant_cached:
  assumes "handleIWant p ctl st = (ms, st')"
  shows "set ms \<subseteq> gs_cached st \<and> gs_quiet st st'"
proof -
  obtain mids where "set mids = servable ctl st" "ms = map (the \<circ> Get (gs_mcache st)) mids"
    using handleIWant_spec(2) [OF assms] by blast
  then have "set ms \<subseteq> gs_cached st" by (fastforce simp: servable_def gs_cached_def Get_def)
  moreover have "gs_quiet st st'" using handleIWant_spec(1) [OF assms] by (auto simp: gs_quiet_def)
  ultimately show ?thesis by blast
qed

lemma graft_loop_quiet: "graft_loop p gs prune st = (prune', st') \<Longrightarrow> gs_quiet st st'"
proof (induction p gs prune st rule: graft_loop.induct)
  case (2 p graft grafts prune st)
  then show ?case by (auto simp: Let_def split: option.splits intro: gs_quiet_trans [OF gs_quiet_updates(12)])
qed simp

lemma prune_loop_quiet: "gs_quiet st (prune_loop p prs st)"
proof (induction p prs st rule: prune_loop.induct)
  case (2 p pr prs st)
  then show ?case by (auto simp: Let_def split: option.splits intro: gs_quiet_trans [OF gs_quiet_updates(13)])
qed simp

lemma gs_HandleRPC_passes: assumes "gs_HandleRPC tc rpc st = Some st'" shows "passes gs_cached {} st st'"
proof (cases "r_Control rpc")
  case (Some ctl)
  let ?p = "r_from rpc"
  obtain iwant st1 where 1: "handleIHave tc ?p ctl st = (iwant, st1)" by force
  obtain ihave st2 where 2: "handleIWant ?p ctl st1 = (ihave, st2)" by force
  obtain prune st3 where 3: "handleGraft ?p ctl st2 = (prune, st3)" by force
  let ?s = "handlePrune ?p ctl st3"
  have q1: "gs_quiet st st1" using 1 by (auto simp: handleIHave_def Let_def split: if_splits prod.splits intro: range_quiet)
  have q3: "gs_quiet st2 st3" using 3 by (auto simp: handleGraft_def split: prod.splits if_splits intro: graft_loop_quiet)
  have q: "gs_quiet st ?s"
    unfolding handlePrune_def using handleIWant_cached [OF 2]
    by (intro gs_quiet_trans [OF gs_quiet_trans [OF gs_quiet_trans [OF q1] q3] prune_loop_quiet]) simp
  have "gs_cached st1 = gs_cached ?s" using q1 q by (simp add: gs_quiet_def gs_cached_def)
  then have "set ihave \<subseteq> gs_cached ?s" using handleIWant_cached [OF 2] by simp
  then have "passes gs_cached {} ?s u" if "sendRPC ?p (rpcWithControl ihave [] iwant [] prune) ?s = Some u" for u
    using that by (intro sendRPC_passes [OF that]) simp
  moreover have "st' = ?s \<or> sendRPC ?p (rpcWithControl ihave [] iwant [] prune) ?s = Some st'"
    using assms by (auto simp: gs_HandleRPC_def Some 1 2 3 Let_def split: if_splits)
  ultimately show ?thesis using quiet_passes [OF q] by (auto intro: passes_trans)
qed (use assms in \<open>simp add: gs_HandleRPC_def\<close>)

text \<open>What is published is cached and sent.\<close>

lemma publish_topics_quiet: "fold publish_topic ts (tosend, st) = (tosend', st') \<Longrightarrow> gs_quiet st st'"
proof (induction ts arbitrary: tosend st)
  case (Cons t ts)
  obtain tosend1 s where s: "publish_topic t (tosend, st) = (tosend1, s)" by force
  have "gs_quiet st u" if "publish_gmap t st = (gmap, u)" for gmap u
  proof -
    obtain ps v where g: "getPeers t GossipSubD (\<lambda>p. True) st = (ps, v)" by force
    show ?thesis using that getPeers_quiet [OF g]
      by (auto simp: publish_gmap_def g Let_def gs_quiet_def split: option.splits if_splits)
  qed
  then have "gs_quiet st s" using s by (auto simp: publish_topic_def Let_def split: option.splits prod.splits)
  moreover have "gs_quiet s st'" using Cons s by simp
  ultimately show ?case by (rule gs_quiet_trans)
qed simp

lemma gs_Publish_passes: assumes "gs_Publish src msg st = Some st'" shows "passes gs_cached {msg} st st'"
proof -
  obtain mc where mc: "Put msg (gs_mcache st) = Some mc" using assms by (auto simp: gs_Publish_def split: Option.bind_splits)
  let ?s = "st\<lparr>gs_mcache := mc\<rparr>"
  obtain tosend st1 where 1: "fold publish_topic (m_TopicIDs msg) (mempty, ?s) = (tosend, st1)" by force
  obtain ps st2 where 2: "range_over (mkeys tosend) st1 = (ps, st2)" by force
  have "mc_msgs mc = mput (msgID msg) msg (mc_msgs (gs_mcache st))"
    using mc by (auto simp: Put_def Let_def split: list.splits)
  then have "gs_cached ?s \<subseteq> gs_cached st \<union> {msg}" by (auto simp: gs_cached_def lookup_update split: if_splits)
  then have 0: "passes gs_cached {msg} st ?s" by (auto simp: passes_def boxed_def outbox_def)
  have "gs_quiet ?s st2" using publish_topics_quiet [OF 1] range_quiet [OF 2] by (rule gs_quiet_trans)
  moreover have "foldM (\<lambda>pid st. if pid = src \<or> pid = GetFrom msg then Some st else sendRPC pid (rpcWithMessages [msg]) st) ps st2 = Some st'"
    using assms by (simp add: gs_Publish_def mc 1 2)
  ultimately have "passes gs_cached {msg} ?s st'" by (rule quiet_foldM) (auto split: if_splits intro: sendRPC_passes)
  with 0 show ?thesis by (rule passes_trans)
qed

lemma gs_Publish_caches: assumes "gs_Publish src msg st = Some st'" shows "mget (mc_msgs (gs_mcache st')) (msgID msg) = Some msg"
proof -
  obtain mc where mc: "Put msg (gs_mcache st) = Some mc" using assms by (auto simp: gs_Publish_def split: Option.bind_splits)
  obtain tosend st1 where 1: "fold publish_topic (m_TopicIDs msg) (mempty, st\<lparr>gs_mcache := mc\<rparr>) = (tosend, st1)" by force
  obtain ps st2 where 2: "range_over (mkeys tosend) st1 = (ps, st2)" by force
  have "foldM (\<lambda>pid st. if pid = src \<or> pid = GetFrom msg then Some st else sendRPC pid (rpcWithMessages [msg]) st) ps st2 = Some st'"
    using assms by (simp add: gs_Publish_def mc 1 2)
  then have "gs_sends st2 st'" by (rule foldM_sends) (auto split: if_splits intro: sendRPC_sends)
  then have same: "gs_mcache st' = mc"
    using publish_topics_quiet [OF 1] range_quiet [OF 2] by (simp add: gs_sends_def gs_frame_def gs_quiet_def)
  have "mget (mc_msgs mc) (msgID msg) = Some msg" using mc by (auto simp: Put_def Let_def split: list.splits)
  then show ?thesis by (simp only: same)
qed

text \<open>The heartbeat sends control messages and gossip about identifiers only, and forgets old messages.\<close>

lemma flush_passes: assumes "flush st = Some st'" shows "passes gs_cached {} st st'"
proof -
  obtain ps s where r: "range_over (mkeys (gs_gossip st)) st = (ps, s)" by force
  obtain t where t: "foldM flush_gossip ps s = Some t" using assms by (auto simp: flush_def r split: Option.bind_splits)
  obtain ps' u where r': "range_over (mkeys (gs_control t)) t = (ps', u)" by force
  have "foldM flush_control ps' u = Some st'" using assms t r r' by (simp add: flush_def)
  then have "passes gs_cached {} t st'"
  proof (rule quiet_foldM [OF range_quiet [OF r']])
    fix p s s' assume "flush_control p s = Some s'"
    then show "passes gs_cached {} s s'"
      by (auto simp: flush_control_def split: option.splits
          intro: passes_trans [OF quiet_passes [OF gs_quiet_updates(6)] sendRPC_passes])
  qed
  moreover have "passes gs_cached {} st t"
  proof (rule quiet_foldM [OF range_quiet [OF r] t])
    fix p s s' assume "flush_gossip p s = Some s'"
    then show "passes gs_cached {} s s'"
      by (auto simp: flush_gossip_def split: option.splits
          intro: passes_trans [OF quiet_passes [OF gs_quiet_updates(7)] sendRPC_passes])
  qed
  ultimately show ?thesis by (rule passes_trans [rotated])
qed

lemma emitGossip_quiet: "emitGossip t peers st = Some st' \<Longrightarrow> gs_quiet st st'"
proof -
  have push: "gs_quiet s (fold (\<lambda>p st. if p \<in> A then st else pushGossip p ih st) ps s)" for ps s ih A
    by (rule gs_quiet_fold) simp
  show "emitGossip t peers st = Some st' \<Longrightarrow> gs_quiet st st'"
    by (auto simp: emitGossip_def split: Option.bind_splits if_splits prod.splits
        intro: gs_quiet_trans [OF getPeers_quiet push])
qed

lemma links_quiet:
  "more_links t (st, a) = (st', a') \<Longrightarrow> gs_quiet st st'" "fewer_links t (st, a) = (st', a') \<Longrightarrow> gs_quiet st st'"
proof -
  have add: "gs_quiet s (fst (fold (add_link t) ps (s, b)))" for ps s and b :: "(peer, topic list) alist"
  proof (induction ps arbitrary: s b)
    case (Cons p ps)
    show ?case unfolding fold_simps comp_apply add_link_def prod.case
      by (rule gs_quiet_trans [OF gs_quiet_updates(12) Cons.IH [unfolded add_link_def]])
  qed simp
  have drop: "gs_quiet s (fst (fold (drop_link t) ps (s, b)))" for ps s and b :: "(peer, topic list) alist"
  proof (induction ps arbitrary: s b)
    case (Cons p ps)
    show ?case unfolding fold_simps comp_apply drop_link_def prod.case
      by (rule gs_quiet_trans [OF gs_quiet_updates(13) Cons.IH [unfolded drop_link_def]])
  qed simp
  show "gs_quiet st st'" if "more_links t (st, a) = (st', a')"
  proof -
    obtain ps s where g: "getPeers t (GossipSubD - int (mlen (mget0 (gs_mesh st) t))) (\<lambda>p. \<not> mhas (mget0 (gs_mesh st) t) p) st = (ps, s)" by force
    have "st' = st \<or> st' = fst (fold (add_link t) ps (s, a))"
      using that unfolding more_links_def Let_def prod.case g by (auto split: if_splits)
    then show ?thesis using gs_quiet_trans [OF getPeers_quiet [OF g] add] by auto
  qed
  show "gs_quiet st st'" if "fewer_links t (st, a) = (st', a')"
  proof -
    obtain ps s where g: "peerMapToList (mget0 (gs_mesh st) t) st = (ps, s)" by force
    obtain qs u where h: "shufflePeers ps s = (qs, u)" by force
    have "\<exists>rs. st' = st \<or> st' = fst (fold (drop_link t) rs (u, a))"
      using that by (auto simp: fewer_links_def g h Let_def split: if_splits) (metis fst_conv)
    moreover have "gs_quiet st u"
      using g shuffle_quiet [OF h] by (auto simp: peerMapToList_def intro: gs_quiet_trans [OF range_quiet])
    ultimately show ?thesis using gs_quiet_trans [OF _ drop] by auto
  qed
qed

lemma mesh_topic_quiet: "mesh_topic t (st, a, b) = Some (st', a', b') \<Longrightarrow> gs_quiet st st'"
proof -
  obtain s a1 where m: "more_links t (st, a) = (s, a1)" by force
  obtain u b1 where f: "fewer_links t (s, b) = (u, b1)" by force
  assume "mesh_topic t (st, a, b) = Some (st', a', b')"
  then have "emitGossip t (mget0 (gs_mesh u) t) u = Some st'"
    by (auto simp: mesh_topic_def m f split: Option.bind_splits)
  then show ?thesis using links_quiet(1) [OF m] links_quiet(2) [OF f] emitGossip_quiet by (blast intro: gs_quiet_trans)
qed

lemma mesh_loop_quiet: "foldM mesh_topic ts x = Some y \<Longrightarrow> gs_quiet (fst x) (fst y)"
  by (rule foldM_rel [where R = "\<lambda>x y. gs_quiet (fst x) (fst y)"]) (auto intro: gs_quiet_trans mesh_topic_quiet)

lemma fanout_topic_quiet: assumes "fanout_topic t st = Some st'" shows "gs_quiet st st'"
proof -
  have fan: "gs_quiet s u" if "emitGossip t peers (s\<lparr>gs_fanout := F\<rparr>) = Some u" for s u peers F
    by (rule gs_quiet_trans [OF gs_quiet_updates(5) emitGossip_quiet [OF that]])
  show ?thesis
    using assms by (auto simp: fanout_topic_def Let_def split: if_splits prod.splits
        intro: fan gs_quiet_trans [OF getPeers_quiet fan])
qed

lemma sendGraftPrune_passes: assumes "sendGraftPrune a b st = Some st'" shows "passes gs_cached {} st st'"
proof -
  let ?R = "\<lambda>x y. passes gs_cached {} (fst x) (fst y)"
  obtain ps s where r: "range_over (mkeys a) st = (ps, s)" by force
  obtain t b' where t: "foldM (send_graft_to a) ps (s, b) = Some (t, b')"
    using assms by (auto simp: sendGraftPrune_def r split: Option.bind_splits prod.splits)
  obtain ps' u where r': "range_over (mkeys b') t = (ps', u)" by force
  have "?R (s, b) (t, b')"
  proof (rule foldM_rel [where R = ?R, OF t])
    fix p x y assume "send_graft_to a p x = Some y"
    then show "?R x y"
      by (auto simp: send_graft_to_def Let_def split: prod.splits Option.bind_splits intro: sendRPC_passes)
  qed (auto intro: passes_trans)
  moreover have "passes gs_cached {} t st'"
  proof (rule quiet_foldM [OF range_quiet [OF r']])
    show "foldM (send_prune_to b') ps' u = Some st'" using assms t r r' by (simp add: sendGraftPrune_def)
    show "passes gs_cached {} x y" if "send_prune_to b' p x = Some y" for p x y
      using that by (auto simp: send_prune_to_def Let_def intro: sendRPC_passes)
  qed
  ultimately show ?thesis using quiet_passes [OF range_quiet [OF r]] by (auto intro: passes_trans)
qed

lemma Shift_forgets: "Shift mc = Some mc' \<Longrightarrow> mget (mc_msgs mc') mid = Some m \<Longrightarrow> mget (mc_msgs mc) mid = Some m"
proof -
  have del: "mget (fold (\<lambda>e. mdel (ce_mid e)) es ms) mid = Some m \<Longrightarrow> mget ms mid = Some m" for es ms
  proof (induction es arbitrary: ms)
    case (Cons e es)
    have "mget (mdel (ce_mid e) ms) mid = Some m" by (rule Cons.IH) (use Cons.prems in simp)
    then show ?case by (simp add: lookup_delete split: if_splits)
  qed simp
  show "Shift mc = Some mc' \<Longrightarrow> mget (mc_msgs mc') mid = Some m \<Longrightarrow> mget (mc_msgs mc) mid = Some m"
    by (auto simp: Shift_def Let_def split: if_splits intro: del)
qed

lemma heartbeat_passes: assumes "heartbeat st = Some st'" shows "passes gs_cached {} st st'"
proof -
  obtain s1 where 1: "flush st = Some s1" using assms by (auto simp: heartbeat_def split: Option.bind_splits)
  obtain ts s2 where 2: "range_over (mkeys (gs_mesh s1)) s1 = (ts, s2)" by force
  obtain s3 a b where 3: "foldM mesh_topic ts (s2, mempty, mempty) = Some (s3, a, b)"
    using assms 1 2 by (auto simp: heartbeat_def split: Option.bind_splits prod.splits)
  obtain ls s4 where 4: "range_over (mkeys (gs_lastpub s3)) s3 = (ls, s4)" by force
  let ?s5 = "fold expire_topic ls s4"
  obtain fs s6 where 6: "range_over (mkeys (gs_fanout ?s5)) ?s5 = (fs, s6)" by force
  obtain s7 s8 mc where 7: "foldM fanout_topic fs s6 = Some s7" "sendGraftPrune a b s7 = Some s8" "Shift (gs_mcache s8) = Some mc"
    "st' = s8\<lparr>gs_mcache := mc\<rparr>"
    using assms 1 2 3 4 6 by (auto simp: heartbeat_def split: Option.bind_splits)
  have q3: "gs_quiet s2 s3" using mesh_loop_quiet [OF 3] by simp
  have q5: "gs_quiet s4 ?s5" by (rule gs_quiet_fold) (auto simp: expire_topic_def gs_quiet_def split: option.split)
  have q7: "gs_quiet s6 s7" by (rule foldM_rel [OF 7(1)]) (auto intro: gs_quiet_trans fanout_topic_quiet)
  have "gs_quiet s1 s7"
    using range_quiet [OF 2] q3 range_quiet [OF 4] q5 range_quiet [OF 6] q7 by (simp add: gs_quiet_def)
  moreover have "passes gs_cached {} s8 st'"
    by (auto simp: 7(4) passes_def boxed_def outbox_def gs_cached_def dest: Shift_forgets [OF 7(3)])
  ultimately show ?thesis
    using flush_passes [OF 1] quiet_passes sendGraftPrune_passes [OF 7(2)] by (meson passes_trans)
qed

interpretation gossip_forwards: forwarding "gossipsub_router tc :: ('s, MapBlacklist, 'z gossipsub_ext) router_methods" heartbeat gs_cached
  for tc
proof unfold_locales
  show "gs_cached st' = gs_cached st" if "node.more st' = node.more st" for st st' :: "('s, MapBlacklist, 'z) gossipsub_scheme"
    using more_gs_mcache [OF that] by (simp add: gs_cached_def)
qed (auto simp: gossipsub_router_def gs_AddPeer_def gs_RemovePeer_def gs_quiet_def
    intro: gs_HandleRPC_passes gs_Publish_passes gs_Join_passes gs_Leave_passes heartbeat_passes quiet_passes)

end
