(* ===== verification/Progress.thy ===== *)
theory Progress
  imports RouterForwarding
begin

text \<open>
  A signed message for which there are no validators is not lost on its way through the pipeline: from the moment
  it is the first in the queue it is there, or waits to be sent back to the loop, or was published, whatever the
  node does; and from each of these places it can get to the loop.
\<close>

section \<open>Not lost\<close>

definition past_queue :: "'s pipe \<Rightarrow> pb_Message set" where
  "past_queue p = (\<lambda>x. sr_msg (fst x)) ` set (pi_waiting p) \<union> sr_msg ` set (ch_buf (pi_sendMsg p)) \<union> set (pi_published p)"

definition kept :: "'s seen_methods \<Rightarrow> pb_Message \<Rightarrow> 's pipe \<Rightarrow> bool" where
  "kept tc m p \<longleftrightarrow> pipe_ok p \<and> pi_strict p \<and> 0 < ch_cap (pi_sendMsg p) \<and>
     ((\<exists>r reqs. ch_buf (v_validateQ (pi_val p)) = r # reqs \<and> vr_msg r = m \<and> vr_vals r = []) \<and>
        \<not> tc_Has tc (pi_seen p) (msgID m) \<or>
      m \<in> past_queue p)"

lemma keptD: "kept tc m p \<Longrightarrow> pipe_ok p" "kept tc m p \<Longrightarrow> pi_strict p"
  by (simp_all add: kept_def)

lemma registry_queue:
  "v_validateQ (snd (AddValidator r v)) = v_validateQ v" "v_validateQ (snd (RemoveValidator t v)) = v_validateQ v"
  by (auto simp: AddValidator_def RemoveValidator_def Let_def split: if_splits)

text \<open>A step that takes nothing out of the queue, forgets nothing and marks nothing.\<close>

lemma kept_move:
  assumes "kept tc m p" "pipe_ok p'" "pi_strict p' = pi_strict p" "ch_cap (pi_sendMsg p') = ch_cap (pi_sendMsg p)"
    and "\<exists>xs. ch_buf (v_validateQ (pi_val p')) = ch_buf (v_validateQ (pi_val p)) @ xs"
    and "tc_Has tc (pi_seen p') (msgID m) \<Longrightarrow> tc_Has tc (pi_seen p) (msgID m)" "past_queue p \<subseteq> past_queue p'"
  shows "kept tc m p'"
  using assms unfolding kept_def by (auto simp: append_eq_Cons_conv)

lemma Push_extends:
  "Push src msg v = Some (ok, v') \<Longrightarrow> \<exists>xs. ch_buf (v_validateQ v') = ch_buf (v_validateQ v) @ xs"
  by (auto simp: Push_def Let_def chan_send_def split: if_splits option.splits sent.splits)

lemma Push_signed: "m_Signature msg \<noteq> None \<Longrightarrow> Push src msg v \<noteq> Some (True, v')"
  by (auto simp: Push_def Let_def split: option.splits sent.splits)

interpretation kept: pipeline tc "kept tc m" "\<lambda>_. True" for tc m
proof
  fix p :: "'a pipe" and src and msg :: pb_Message
  assume J: "kept tc m p"
  obtain ok v where v: "Push src msg (pi_val p) = Some (ok, v)" "pipe_ok (p\<lparr>pi_val := v\<rparr>)"
    using pipe_ok_offer [OF keptD(1) [OF J]] by blast
  have "kept tc m (p\<lparr>pi_val := v\<rparr>)"
    by (rule kept_move [OF J v(2)]) (use Push_extends [OF v(1)] in \<open>auto simp: past_queue_def\<close>)
  with v show "\<exists>ok v. Push src msg (pi_val p) = Some (ok, v) \<and> kept tc m (p\<lparr>pi_val := v\<rparr>)" by blast
next
  fix p :: "'a pipe" and msg :: pb_Message and src
  assume "kept tc m p" "pi_strict p \<longrightarrow> m_Signature msg \<noteq> None" "Push src msg (pi_val p) = Some (True, pi_val p)"
  then show "kept tc m (p\<lparr>pi_seen := tc_Add tc (msgID msg) (pi_seen p), pi_published := pi_published p @ [msg]\<rparr>)"
    using keptD(2) Push_signed by metis
next
  fix p :: "'a pipe" and req reqs
  assume J: "kept tc m p" and q: "ch_buf (pi_sendMsg p) = req # reqs"
  show "kept tc m (p\<lparr>pi_sendMsg := (pi_sendMsg p)\<lparr>ch_buf := reqs\<rparr>, pi_published := pi_published p @ [sr_msg req]\<rparr>)"
    by (rule kept_move [OF J]) (use keptD(1) [OF J] q in \<open>auto simp: past_queue_def pipe_ok_def chan_ok_def\<close>)
next
  fix p :: "'a pipe" and r assume J: "kept tc m p"
  show "kept tc m (p\<lparr>pi_val := snd (AddValidator r (pi_val p))\<rparr>)"
    by (rule kept_move [OF J pipe_ok_register [OF keptD(1) [OF J]]]) (simp_all add: registry_queue past_queue_def)
next
  fix p :: "'a pipe" and t assume J: "kept tc m p"
  show "kept tc m (p\<lparr>pi_val := snd (RemoveValidator t (pi_val p))\<rparr>)"
    by (rule kept_move [OF J pipe_ok_remove [OF keptD(1) [OF J]]]) (simp_all add: registry_queue past_queue_def)
qed

text \<open>The worker that takes the message sends it on; the others do not touch it.\<close>

lemma validate_plain:
  assumes "verify m" "\<not> tc_Has tc (n_seen st) (msgID m)"
  shows "validate tc verify [] src m st =
    st\<lparr>n_seen := tc_Add tc (msgID m) (n_seen st), n_waiting := n_waiting st @ [(\<lparr>sr_from = src, sr_msg = m\<rparr>, False)]\<rparr>"
  using assms by (simp add: validate_def validateSignature_def markSeen_def Let_def)

lemma worker_kept:
  assumes J: "kept tc m (pipe_of st)" and m: "verify m" and w: "validateWorker tc verify st = Some st'"
  shows "kept tc m (pipe_of st')"
proof -
  obtain req reqs where q: "ch_buf (v_validateQ (n_val st)) = req # reqs"
    using w by (auto simp: validateWorker_def split: list.splits)
  let ?s = "st\<lparr>n_val := (n_val st)\<lparr>v_validateQ := (v_validateQ (n_val st))\<lparr>ch_buf := reqs\<rparr>\<rparr>\<rparr>"
  have st': "st' = validate tc verify (vr_vals req) (vr_src req) (vr_msg req) ?s" using w q by (simp add: validateWorker_def)
  have ok: "pipe_ok (pipe_of st')" by (rule worker_ok [OF keptD(1) [OF J] w])
  have same: "n_signStrict st' = n_signStrict st" "n_sendMsg st' = n_sendMsg st"
    unfolding st' by (auto simp: validate_def markSeen_def Let_def split: option.splits)
  have "m \<in> past_queue (pipe_of st')"
  proof (cases "m \<in> past_queue (pipe_of st)")
    case True
    have "past_queue (pipe_of ?s) \<subseteq> past_queue (pipe_of st')"
      unfolding st' by (auto simp: past_queue_def validate_def markSeen_def Let_def split: option.splits)
    with True show ?thesis by (auto simp: past_queue_def)
  next
    case False
    then have "vr_msg req = m" "vr_vals req = []" "\<not> tc_Has tc (n_seen ?s) (msgID m)"
      using J q by (auto simp: kept_def)
    then show ?thesis unfolding st' by (simp add: validate_plain [where verify = verify, OF m] past_queue_def)
  qed
  with ok J same show ?thesis by (simp add: kept_def)
qed

lemma drop_nth_set: "k < length xs \<Longrightarrow> set xs = insert (xs ! k) (set (drop_nth k xs))"
proof -
  assume "k < length xs"
  then have "set xs = set (take k xs @ xs ! k # drop (Suc k) xs)" by (simp only: id_take_nth_drop [symmetric])
  then show ?thesis by (auto simp: drop_nth_def)
qed

lemma begin_kept:
  assumes J: "kept tc m (pipe_of st)" and b: "begin_validateTopic k st = Some st'" shows "kept tc m (pipe_of st')"
  by (rule kept_move [OF J])
    (use begin_ok [OF keptD(1) [OF J] b] b in
      \<open>auto simp: begin_validateTopic_def past_queue_def Let_def split: if_splits prod.splits\<close>)

lemma end_kept:
  assumes J: "kept tc m (pipe_of st)" and e: "end_validateTopic k st = Some st'" shows "kept tc m (pipe_of st')"
  by (rule kept_move [OF J])
    (use end_ok [OF keptD(1) [OF J] e] e in
      \<open>auto simp: end_validateTopic_def past_queue_def Let_def split: if_splits prod.splits option.splits\<close>)

lemma send_kept:
  assumes J: "kept tc m (pipe_of st)" and s: "send_waiting k st = Some st'" shows "kept tc m (pipe_of st')"
proof -
  have k: "k < length (n_waiting st)" using s by (auto simp: send_waiting_def split: if_splits)
  show ?thesis
    by (rule kept_move [OF J])
      (use send_ok [OF keptD(1) [OF J] s] s drop_nth_set [OF k] in
        \<open>auto simp: send_waiting_def past_queue_def Let_def split: if_splits prod.splits\<close>)
qed

text \<open>What the time cache forgets it does not have, and it makes nothing up.\<close>

definition forgets_only :: "'s seen_methods \<Rightarrow> ('s \<Rightarrow> 's \<Rightarrow> bool) \<Rightarrow> bool" where
  "forgets_only tc forget \<longleftrightarrow> (\<forall>s s' x. forget s s' \<longrightarrow> tc_Has tc s' x \<longrightarrow> tc_Has tc s x)"

lemma node_kept:
  fixes rt :: "('s, 'b, 'z) router_methods"
  assumes sys: "node_system rt rt_inv bl tc pipe_ok hb cr forget" and m: "verified cr m" and f: "forgets_only tc forget"
  shows "node_offered rt rt_inv bl tc (kept tc m) (\<lambda>_. True) hb cr forget"
proof (rule system_offered [OF sys kept.pipeline_axioms])
  fix p :: "'s pipe" and s assume J: "kept tc m p" and s: "forget (pi_seen p) s"
  show "kept tc m (p\<lparr>pi_seen := s\<rparr>)"
    by (rule kept_move [OF J forget_ok [OF keptD(1) [OF J]]])
      (use f s in \<open>auto simp: forgets_only_def past_queue_def\<close>)
qed (auto intro: worker_kept m begin_kept end_kept send_kept)

section \<open>Through in the end\<close>

lemma reach_trans:
  assumes "reach rt bl tc hb cr forget s t" "reach rt bl tc hb cr forget t u" shows "reach rt bl tc hb cr forget s u"
  using assms(2) by (induction rule: reach.induct) (auto intro: assms(1) reach.more)

lemmas reach_step = reach.more [OF reach.start]

context node_system
begin

text \<open>The loop takes the next message that was sent back to it, and publishes it.\<close>

lemma onSendMsg_publishes:
  assumes g: "good bl J rt_inv st" and q: "ch_buf (n_sendMsg st) = req # reqs"
  shows "\<exists>st'. reach rt bl tc hb cr forget st st' \<and> good bl J rt_inv st' \<and>
    n_sendMsg st' = (n_sendMsg st)\<lparr>ch_buf := reqs\<rparr> \<and> n_waiting st' = n_waiting st \<and>
    n_published st' = n_published st @ [sr_msg req]"
proof -
  let ?s = "st\<lparr>n_sendMsg := (n_sendMsg st)\<lparr>ch_buf := reqs\<rparr>\<rparr>"
  have "good bl J rt_inv (?s\<lparr>n_published := n_published ?s @ [sr_msg req]\<rparr>)"
    by (rule good_pipe [OF g]) (use publish_validated [of "pipe_of st" req reqs] q in auto)
  from publishMessage_effect [OF this, of "sr_from req"] obtain H st' where
    p: "publishMessage rt (sr_from req) (sr_msg req) ?s = Some st'"
      "router_frame (?s\<lparr>n_published := n_published ?s @ [sr_msg req], n_subs := H\<rparr>) st'" by blast
  have step: "node_step rt bl tc hb cr forget st st'"
    by (rule node_step.turn [where ev = SendMsg]) (use p(1) q in \<open>simp_all add: valid_event_def loop_turn_def onSendMsg_def\<close>)
  from p(2) have "n_sendMsg st' = (n_sendMsg st)\<lparr>ch_buf := reqs\<rparr> \<and> n_waiting st' = n_waiting st \<and>
      n_published st' = n_published st @ [sr_msg req]" by (simp add: router_frame_def)
  with reach_step [OF step] step_good [OF step g] show ?thesis by blast
qed

lemma sendMsg_published:
  assumes "good bl J rt_inv st" "req \<in> set (ch_buf (n_sendMsg st))"
  shows "\<exists>st'. reach rt bl tc hb cr forget st st' \<and> sr_msg req \<in> set (n_published st')"
  using assms
proof (induction "ch_buf (n_sendMsg st)" arbitrary: st)
  case (Cons r rs)
  from onSendMsg_publishes [OF Cons.prems(1) Cons.hyps(2) [symmetric]] obtain s where
    s: "reach rt bl tc hb cr forget st s" "good bl J rt_inv s" "n_sendMsg s = (n_sendMsg st)\<lparr>ch_buf := rs\<rparr>"
      "n_published s = n_published st @ [sr_msg r]" by blast
  show ?case
  proof (cases "req = r")
    case True
    with s show ?thesis by auto
  next
    case False
    then have "req \<in> set (ch_buf (n_sendMsg s))" using Cons.prems(2) Cons.hyps(2) [symmetric] s(3) by simp
    with Cons.hyps(1) [OF _ s(2)] s(3) obtain u where "reach rt bl tc hb cr forget s u" "sr_msg req \<in> set (n_published u)" by auto
    with s(1) show ?thesis by (blast intro: reach_trans)
  qed
qed simp

lemma sendMsg_drains:
  assumes "good bl J rt_inv st"
  shows "\<exists>st'. reach rt bl tc hb cr forget st st' \<and> good bl J rt_inv st' \<and>
    n_sendMsg st' = (n_sendMsg st)\<lparr>ch_buf := []\<rparr> \<and> n_waiting st' = n_waiting st"
  using assms
proof (induction "ch_buf (n_sendMsg st)" arbitrary: st)
  case Nil
  then have "n_sendMsg st = (n_sendMsg st)\<lparr>ch_buf := []\<rparr>" by (cases "n_sendMsg st") simp
  with Nil show ?case by (blast intro: reach.start)
next
  case (Cons r rs)
  from onSendMsg_publishes [OF Cons.prems(1) Cons.hyps(2) [symmetric]] obtain s where
    s: "reach rt bl tc hb cr forget st s" "good bl J rt_inv s" "n_sendMsg s = (n_sendMsg st)\<lparr>ch_buf := rs\<rparr>"
      "n_waiting s = n_waiting st" by blast
  from Cons.hyps(1) [OF _ s(2)] s(3) obtain u where u: "reach rt bl tc hb cr forget s u" "good bl J rt_inv u"
    "n_sendMsg u = (n_sendMsg st)\<lparr>ch_buf := []\<rparr>" "n_waiting u = n_waiting s" by auto
  from reach_trans [OF s(1) u(1)] u(2-4) s(4) show ?case by (intro exI [of _ u]) simp
qed

lemma waiting_published:
  assumes g: "good bl J rt_inv st" and cap: "0 < ch_cap (n_sendMsg st)" and x: "x \<in> set (n_waiting st)"
  shows "\<exists>st'. reach rt bl tc hb cr forget st st' \<and> sr_msg (fst x) \<in> set (n_published st')"
proof -
  obtain s where s: "reach rt bl tc hb cr forget st s" "good bl J rt_inv s" "n_sendMsg s = (n_sendMsg st)\<lparr>ch_buf := []\<rparr>"
    "n_waiting s = n_waiting st" using sendMsg_drains [OF g] by blast
  obtain k where k: "k < length (n_waiting s)" "n_waiting s ! k = x" using x s(4) by (metis in_set_conv_nth)
  have room: "chan_room (n_sendMsg s)" using s(3) cap by (simp add: chan_room_def)
  obtain t where t: "send_waiting k s = Some t" "fst x \<in> set (ch_buf (n_sendMsg t))"
    using k room by (cases x) (auto simp: send_waiting_def Let_def)
  note step = step_sent [OF t(1)]
  from sendMsg_published [OF step_good [OF step s(2)] t(2)] obtain u where
    "reach rt bl tc hb cr forget t u" "sr_msg (fst x) \<in> set (n_published u)" by blast
  with s(1) reach_step [OF step] show ?thesis by (blast intro: reach_trans)
qed

lemma kept_published:
  assumes g: "good bl J rt_inv st" and kept: "kept tc m (pipe_of st)" and m: "verified cr m"
  shows "\<exists>st'. reach rt bl tc hb cr forget st st' \<and> m \<in> set (n_published st')"
proof -
  have way: "\<exists>st'. reach rt bl tc hb cr forget s st' \<and> m \<in> set (n_published st')"
    if "good bl J rt_inv s" "0 < ch_cap (n_sendMsg s)" "m \<in> past_queue (pipe_of s)" for s
    using that waiting_published [OF that(1,2)] sendMsg_published [OF that(1)] reach.start
    by (auto simp: past_queue_def) blast+
  have cap: "0 < ch_cap (n_sendMsg st)" using kept by (simp add: kept_def)
  show ?thesis
  proof (cases "m \<in> past_queue (pipe_of st)")
    case True
    with way [OF g cap] show ?thesis by blast
  next
    case False
    then obtain r reqs where q: "ch_buf (v_validateQ (n_val st)) = r # reqs" "vr_msg r = m" "vr_vals r = []"
      "\<not> tc_Has tc (n_seen st) (msgID m)" using kept by (auto simp: kept_def)
    let ?s = "st\<lparr>n_val := (n_val st)\<lparr>v_validateQ := (v_validateQ (n_val st))\<lparr>ch_buf := reqs\<rparr>\<rparr>\<rparr>"
    let ?t = "?s\<lparr>n_seen := tc_Add tc (msgID m) (n_seen ?s), n_waiting := n_waiting ?s @ [(\<lparr>sr_from = vr_src r, sr_msg = m\<rparr>, False)]\<rparr>"
    have "validateWorker tc (verified cr) st = Some ?t"
      using q validate_plain [where tc = tc and verify = "verified cr" and st = ?s and src = "vr_src r", OF m]
      by (simp add: validateWorker_def)
    note step = step_worker [OF this]
    have "m \<in> past_queue (pipe_of ?t)" by (simp add: past_queue_def)
    then obtain u where "reach rt bl tc hb cr forget ?t u" "m \<in> set (n_published u)"
      using way [OF step_good [OF step g]] cap by auto
    with reach_step [OF step] show ?thesis by (blast intro: reach_trans)
  qed
qed

end

end
