(* ===== verification/Delivery.thy ===== *)
theory Delivery
  imports Progress
begin

text \<open>
  A message gets through: from the call of \<open>Publish\<close>, or its arrival in an RPC, through the queue, a
  worker and the send back to the loop, to the subscriptions and the router. The state of the node in
  between is of no other consequence: in the end it is as if the message had been forwarded at once.
\<close>

section \<open>Through the pipeline\<close>

definition pipe_idle :: "('s, 'b, 'z) node_scheme \<Rightarrow> bool" where
  "pipe_idle st \<longleftrightarrow> ch_buf (v_validateQ (n_val st)) = [] \<and> 0 < ch_cap (v_validateQ (n_val st)) \<and>
     n_waiting st = [] \<and> n_async st = [] \<and> ch_buf (n_sendMsg st) = [] \<and> 0 < ch_cap (n_sendMsg st)"

text \<open>The four steps: the loop queues the message, a worker checks it, sends it, and the loop takes it.\<close>

definition goes_through ::
  "('s, 'b, 'z) router_methods \<Rightarrow> 'b blacklist_methods \<Rightarrow> 's seen_methods \<Rightarrow> crypto \<Rightarrow> peer \<Rightarrow> pb_Message \<Rightarrow>
   ('s, 'b, 'z) node_scheme \<Rightarrow> ('s, 'b, 'z) node_scheme \<Rightarrow> bool" where
  "goes_through rt bl tc cr src msg st st' \<longleftrightarrow>
     (\<exists>s1 s2 s3. pushMsg rt bl tc src msg st = Some s1 \<and> validateWorker tc (verified cr) s1 = Some s2 \<and>
        send_waiting 0 s2 = Some s3 \<and> onSendMsg rt s3 = Some st')"

context node_system
begin

lemma gets_through:
  assumes g: "good bl J rt_inv st" and idle: "pipe_idle st" and ok: "\<not> rejected bl tc src msg st"
    and signed: "m_Signature msg \<noteq> None" "verified cr msg" and plain: "getValidators msg (n_val st) = []"
  shows "\<exists>st'. goes_through rt bl tc cr src msg st st' \<and> forwards rt tc src msg st st'"
proof -
  let ?r = "\<lparr>vr_vals = [], vr_src = src, vr_msg = msg\<rparr>" and ?sr = "\<lparr>sr_from = src, sr_msg = msg\<rparr>"
  let ?v = "n_val st" let ?q = "v_validateQ ?v" and ?sq = "n_sendMsg st" and ?seen = "tc_Add tc (msgID msg) (n_seen st)"
  let ?s1 = "st\<lparr>n_val := ?v\<lparr>v_validateQ := ?q\<lparr>ch_buf := [?r]\<rparr>\<rparr>\<rparr>"
  let ?s2 = "st\<lparr>n_seen := ?seen, n_waiting := [(?sr, False)]\<rparr>"
  let ?s3 = "st\<lparr>n_seen := ?seen, n_sendMsg := ?sq\<lparr>ch_buf := [?sr]\<rparr>\<rparr>"
  let ?s = "st\<lparr>n_seen := ?seen\<rparr>"
  have new: "\<not> tc_Has tc (n_seen st) (msgID msg)" using ok by (simp add: rejected_def)
  have empty: "?v\<lparr>v_validateQ := ?q\<lparr>ch_buf := []\<rparr>\<rparr> = ?v" "?sq\<lparr>ch_buf := []\<rparr> = ?sq"
    using idle by (cases ?v, cases ?q, cases ?sq, simp add: pipe_idle_def)+
  have same: "st\<lparr>n_waiting := []\<rparr> = st" "st\<lparr>n_val := ?v\<rparr> = st" "st\<lparr>n_sendMsg := ?sq\<rparr> = st"
    using idle by (cases st, simp add: pipe_idle_def)+
  have 1: "pushMsg rt bl tc src msg st = Some ?s1"
  proof -
    obtain s where "pushMsg rt bl tc src msg st = Some s" "s = st\<lparr>n_val := queued src msg ?v\<rparr>"
      using pushMsg_effect [OF g, of src msg] ok signed by auto
    then show ?thesis using idle plain by (simp add: queued_def pipe_idle_def chan_room_def Let_def)
  qed
  have 2: "validateWorker tc (verified cr) ?s1 = Some ?s2"
    using new signed idle empty same
    by (simp add: validateWorker_def validate_def validateSignature_def markSeen_def Let_def pipe_idle_def)
  have 3: "send_waiting 0 ?s2 = Some ?s3"
    using idle same by (simp add: send_waiting_def chan_room_def pipe_idle_def drop_nth_def Let_def)
  have g2: "good bl J rt_inv ?s2"
    by (rule step_good [OF step_worker [OF 2]]) (use pushMsg_stays [OF g, of src msg] 1 in \<open>simp add: stays_def\<close>)
  have g3: "good bl J rt_inv ?s3" by (rule step_good [OF step_sent [OF 3] g2])
  have same_pipe: "(pipe_of st)\<lparr>pi_seen := x, pi_sendMsg := ?sq, pi_published := y\<rparr> = (pipe_of st)\<lparr>pi_seen := x, pi_published := y\<rparr>" for x y
    by (simp add: pipe_of_def)
  have "good bl J rt_inv (?s\<lparr>n_published := n_published ?s @ [msg]\<rparr>)"
    by (rule good_pipe [OF g3]) (use publish_validated [of "pipe_of ?s3" ?sr "[]"] empty same_pipe in simp_all)
  from publishMessage_effect [OF this, of src] obtain H st' where
    p: "publishMessage rt src msg ?s = Some st'" and H: "\<forall>i. mget H i = map_option (delivered ?s msg i) (mget (n_subs ?s) i)"
    "rt_Publish rt src msg (?s\<lparr>n_published := n_published ?s @ [msg], n_subs := H\<rparr>) = Some st'"
    "router_frame (?s\<lparr>n_published := n_published ?s @ [msg], n_subs := H\<rparr>) st'" by blast
  have "?s3\<lparr>n_sendMsg := (n_sendMsg ?s3)\<lparr>ch_buf := []\<rparr>\<rparr> = ?s" using empty(2) by (cases st) simp
  moreover have "onSendMsg rt ?s3 = publishMessage rt src msg (?s3\<lparr>n_sendMsg := (n_sendMsg ?s3)\<lparr>ch_buf := []\<rparr>\<rparr>)"
    by (simp add: onSendMsg_def)
  ultimately have "onSendMsg rt ?s3 = Some st'" by (simp only: p)
  then have "goes_through rt bl tc cr src msg st st'" using 1 2 3 unfolding goes_through_def by blast
  moreover have "delivered ?s msg = delivered st msg" by (simp add: delivered_def fun_eq_iff)
  then have "forwards rt tc src msg st st'" using H unfolding forwards_def Let_def by (intro exI [of _ H]) simp
  ultimately show ?thesis by blast
qed

end

text \<open>The same for a message that the user of a gossipsub node hands over.\<close>

lemma gossip_through:
  assumes "NewGossipSub tc ev opts = Some (Inr (st0, protos, workers))" "gossip_reach tc cr forget st0 st"
    and "pipe_idle st" "\<not> rejected map_blacklist tc (n_host st) m st"
    and "m_Signature m \<noteq> None" "verified cr m" "getValidators m (n_val st) = []"
  shows "\<exists>st'. gossip_reach tc cr forget st0 st' \<and> forwards (gossipsub_router tc) tc (n_host st) m st st'"
proof -
  from gossip_node.gets_through [OF gossip_reach_good [OF assms(1,2)] assms(3-7)] obtain st' s1 s2 s3 where
    fw: "forwards (gossipsub_router tc) tc (n_host st) m st st'"
    and s: "pushMsg (gossipsub_router tc) map_blacklist tc (n_host st) m st = Some s1"
      "validateWorker tc (verified cr) s1 = Some s2" "send_waiting 0 s2 = Some s3" "onSendMsg (gossipsub_router tc) s3 = Some st'"
    by (auto simp: goes_through_def)
  have turns: "gossip_turn tc (PublishMsg m) st = Some s1" "gossip_turn tc SendMsg s3 = Some st'"
    using s(1,4) by (simp_all add: loop_turn_def)
  have valid: "valid_event st (PublishMsg m)" "valid_event s3 SendMsg" by (simp_all add: valid_event_def)
  have "gossip_reach tc cr forget st0 s3"
    by (rule reach.more [OF reach.more [OF reach.more [OF assms(2) node_step.turn [OF valid(1) turns(1)]]
          step_worker [OF s(2)]] step_sent [OF s(3)]])
  then have "gossip_reach tc cr forget st0 st'" by (rule reach.more [OF _ node_step.turn [OF valid(2) turns(2)]])
  with fw show ?thesis by blast
qed

lemma forwards_published: "forwards rt tc src m st st' \<Longrightarrow> n_published st' = n_published st @ [m]"
  by (auto simp: forwards_def Let_def router_frame_def)

lemma sample_idle: "pipe_idle sample_state" "n_val sample_state = newValidation 4" "n_published sample_state = []"
  "n_host sample_state = [7]"
  by (simp_all add: pipe_idle_def sample_state_def newPS_def newValidation_def make_chan_def sample_env_def)

lemma newValidation_plain: "getValidators m (newValidation n) = []" "mget (v_topicVals (newValidation n)) t = None"
  by (simp_all add: getValidators_def newValidation_def collect_vals_eq List.map_filter_def)

section \<open>The messages of the node's own user\<close>

text \<open>What the host documents of the keys it keeps: a key is the one of the identifier it is kept for.\<close>

definition keys_ok :: "crypto \<Rightarrow> host \<Rightarrow> bool" where
  "keys_ok cr h \<longleftrightarrow> (\<forall>author key. h_PrivKey h author = Some key \<longrightarrow>
     cr_IDFromBytes cr author = Some author \<and> cr_MatchesPublicKey cr author (cr_GetPublic cr key))"

lemma own_message_verifies:
  assumes "crypto_ok cr" "keys_ok cr h" "\<forall>key. n_signKey p = Some key \<longrightarrow> h_PrivKey h (author_of p) = Some key"
    and m: "Publish cr topic data p = (Some (Inr m), p')"
  shows "(n_signKey p \<noteq> None \<longleftrightarrow> m_Signature m \<noteq> None) \<and> (m_Signature m \<noteq> None \<longrightarrow> verifyMessageSignature cr m = Some (Inr ()))"
proof (cases "n_signKey p")
  case None
  then show ?thesis using Publish_message [OF m] by simp
next
  case (Some key)
  then have "cr_IDFromBytes cr (author_of p) = Some (author_of p)" "cr_MatchesPublicKey cr (author_of p) (cr_GetPublic cr key)"
    using assms(2,3) by (simp_all add: keys_ok_def)
  from Publish_verifies [OF assms(1) Some this m] Some show ?thesis by simp
qed

lemma gossip_reach_keys:
  assumes "NewGossipSub tc ev opts = Some (Inr (st0, protos, workers))" "gossip_reach tc cr forget st0 st"
  shows "(\<forall>key. n_signKey st = Some key \<longrightarrow> h_PrivKey (e_host ev) (author_of st) = Some key) \<and>
    (n_signStrict st \<longrightarrow> n_signKey st \<noteq> None)"
  using NewPubSub_keys [OF assms(1) [unfolded NewGossipSub_def]] gossip_reach_identity [OF assms] by simp

lemma sample_keys: "keys_ok sample_crypto (e_host sample_env)"
  by (auto simp: keys_ok_def sample_crypto_def sample_env_def)

text \<open>
  C18: what the user of a gossipsub node publishes, in whatever state the node got into, is a message every
  receiver can check: it names the author the node was created for, carries the data and the topic of the
  call, is signed if the node demands signatures of others, and then verifies.
\<close>

theorem own_messages_verify:
  assumes "NewGossipSub tc ev opts = Some (Inr (st0, protos, workers))" "gossip_reach tc cr forget st0 st"
    and "crypto_ok cr" "keys_ok cr (e_host ev)" and "Publish cr topic data st = (Some (Inr m), st')"
  shows "GetFrom m = author_of st0 \<and> m_Data m = data \<and> m_TopicIDs m = [topic] \<and>
    (n_signStrict st0 \<longrightarrow> m_Signature m \<noteq> None) \<and>
    (m_Signature m \<noteq> None \<longrightarrow> verifyMessageSignature cr m = Some (Inr ()))"
proof -
  note id = gossip_reach_identity [OF assms(1,2)] and keys = gossip_reach_keys [OF assms(1,2)]
  from own_message_verifies [OF assms(3,4) keys [THEN conjunct1] assms(5)] keys id Publish_message [OF assms(5)]
  show ?thesis by (auto simp: GetFrom_def bytes_of_def)
qed

theorem own_messages_verify_witness:
  "\<exists>m st'. Publish sample_crypto (str ''art'') (Some [1]) sample_state = (Some (Inr m), st') \<and>
     m_Signature m \<noteq> None \<and> verifyMessageSignature sample_crypto m = Some (Inr ())"
proof -
  obtain m st' where m: "Publish sample_crypto (str ''art'') (Some [1]) sample_state = (Some (Inr m), st')"
    by (simp add: Publish_def nextSeqno_def Let_def signMessage_def Marshal_eq sample_crypto_def sample_state_def newPS_def
        sample_env_def)
  from own_messages_verify [OF sample_created reach.start sample_crypto_ok sample_keys m] m show ?thesis by auto
qed

text \<open>The state after the loop took the message: it is the first in the queue.\<close>

lemma pushed_kept:
  assumes "gossip_state tc cr forget st" "pipe_idle st" "n_signStrict st" "\<not> rejected map_blacklist tc src m st"
    and "m_Signature m \<noteq> None" "getValidators m (n_val st) = []"
    and push: "pushMsg (gossipsub_router tc) map_blacklist tc src m st = Some st'"
  shows "kept tc m (pipe_of st')"
proof -
  note g = gossip_state_good [OF assms(1)]
  have "pipe_ok (pipe_of st')"
    using gossip_node.pushMsg_stays [OF g, where tc = tc and src = src and msg = m] push by (simp add: stays_def good_def node_inv_def)
  moreover have "st' = st\<lparr>n_val := queued src m (n_val st)\<rparr>"
    using gossip_node.pushMsg_effect [OF g, where tc = tc and src = src and msg = m] push assms(4,5) by auto
  moreover have "\<not> tc_Has tc (n_seen st) (msgID m)" using assms(4) by (simp add: rejected_def)
  ultimately show ?thesis using assms(2,3,6) by (simp add: kept_def queued_def pipe_idle_def chan_room_def Let_def)
qed

lemma gossip_kept_published:
  assumes "gossip_state tc cr forget st" "kept tc m (pipe_of st)" "verified cr m" "forgets_only tc forget"
    and r: "gossip_reach tc cr forget st later"
  shows "\<exists>st'. gossip_reach tc cr forget later st' \<and> m \<in> set (n_published st')"
proof -
  note g = gossip_state_good [OF assms(1)]
  then have "good map_blacklist (kept tc m) gs_inv st" using assms(2) by (simp add: good_def node_inv_def)
  from node_system.reach_good [OF node_system.intro [OF node_kept [OF gossip_node.node_system_axioms assms(3,4)]] r this]
  have "kept tc m (pipe_of later)" by (simp add: good_def node_inv_def)
  with gossip_node.reach_good [OF r g] assms(3) show ?thesis by (intro gossip_node.kept_published)
qed

text \<open>
  C6: what the user of a gossipsub node publishes gets through. Take a node that demands signatures, with an idle
  pipeline and no validator for the topic. The next four steps of the pipeline (the loop takes the message, a
  worker checks it, sends it back, the loop takes it again), when they come in a row, return; after them the node
  has published the message, and every open subscription of the topic that has room has it. And the message cannot be
  lost: in whatever order the steps of the node come after the loop took the message, in every state the node gets
  into there is a way on to one where it has published the message (if it had not before), provided the time cache
  only ever drops entries.
\<close>

theorem publish_is_delivered:
  assumes new: "NewGossipSub tc ev opts = Some (Inr (st0, protos, workers))" "gossip_reach tc cr forget st0 st"
    and keys: "crypto_ok cr" "keys_ok cr (e_host ev)" "n_signStrict st0" and forget: "forgets_only tc forget"
    and idle: "pipe_idle st" "mget (v_topicVals (n_val st)) topic = None"
    and m: "Publish cr topic data st = (Some (Inr m), st1)"
    and ok: "\<not> MapBlacklist_Contains (n_blacklist st) (n_host st)" "\<not> MapBlacklist_Contains (n_blacklist st) (author_of st)"
      "\<not> tc_Has tc (n_seen st) (msgID m)"
  shows "\<exists>s1 s2 s3 st'. gossip_turn tc (PublishMsg m) st1 = Some s1 \<and> validateWorker tc (verified cr) s1 = Some s2 \<and>
    send_waiting 0 s2 = Some s3 \<and> gossip_turn tc SendMsg s3 = Some st' \<and> n_published st' = n_published st @ [m] \<and>
    (\<forall>i sub. mget (n_subs st) i = Some sub \<longrightarrow> s_topic sub = topic \<longrightarrow> \<not> s_cancelled sub \<longrightarrow> chan_room (s_ch sub) \<longrightarrow>
       (\<exists>sub'. mget (n_subs st') i = Some sub' \<and> ch_buf (s_ch sub') = ch_buf (s_ch sub) @ [m])) \<and>
    (\<forall>later. gossip_reach tc cr forget s1 later \<longrightarrow>
       (\<exists>st''. gossip_reach tc cr forget later st'' \<and> m \<in> set (n_published st'')))"
proof -
  let ?rt = "gossipsub_router tc"
  have st1: "st1 = st\<lparr>n_counter := n_counter st + 1\<rparr>" and msg: "GetFrom m = author_of st" "m_TopicIDs m = [topic]"
    using Publish_message [OF m] by (simp_all add: GetFrom_def bytes_of_def)
  have r1: "gossip_reach tc cr forget st0 st1" by (rule reach.more [OF new(2) step_published [OF m]])
  have signed: "m_Signature m \<noteq> None" "verified cr m"
    using own_message_verifies [OF keys(1,2) _ m] gossip_reach_keys [OF new] gossip_reach_identity [OF new] keys(3)
    by (auto simp: verified_def)
  have here: "pipe_idle st1" "getValidators m (n_val st1) = []" "\<not> rejected map_blacklist tc (n_host st1) m st1"
    "n_signStrict st1"
    using idle ok signed msg gossip_reach_identity [OF new] keys(3)
    by (auto simp: st1 pipe_idle_def getValidators_def rejected_def map_blacklist_def)
  have state: "gossip_state tc cr forget st1" using new(1) r1 unfolding gossip_state_def by blast
  from gossip_node.gets_through [OF gossip_reach_good [OF new(1) r1] here(1,3) signed here(2)] obtain s1 s2 s3 st' where
    fw: "forwards ?rt tc (n_host st1) m st1 st'"
    and s: "pushMsg ?rt map_blacklist tc (n_host st1) m st1 = Some s1" "validateWorker tc (verified cr) s1 = Some s2"
      "send_waiting 0 s2 = Some s3" "onSendMsg ?rt s3 = Some st'"
    by (auto simp: goes_through_def)
  have turns: "gossip_turn tc (PublishMsg m) st1 = Some s1" "gossip_turn tc SendMsg s3 = Some st'"
    using s(1,4) by (simp_all add: loop_turn_def)
  have "gossip_state tc cr forget s1"
    by (rule gossip_state_turn [OF state _ turns(1)]) (simp add: valid_event_def)
  from gossip_kept_published [OF this pushed_kept [OF state here(1,4,3) signed(1) here(2) s(1)] signed(2) forget]
  have through: "\<forall>later. gossip_reach tc cr forget s1 later \<longrightarrow>
      (\<exists>st''. gossip_reach tc cr forget later st'' \<and> m \<in> set (n_published st''))" by blast
  have published: "n_published st' = n_published st @ [m]" using forwards_published [OF fw] by (simp add: st1)
  have "\<exists>sub'. mget (n_subs st') i = Some sub' \<and> ch_buf (s_ch sub') = ch_buf (s_ch sub) @ [m]"
    if sub: "mget (n_subs st) i = Some sub" "s_topic sub = topic" "\<not> s_cancelled sub" "chan_room (s_ch sub)" for i sub
  proof -
    have "subs_ok (n_subs st) (n_myTopics st)" using gossip_reach_good [OF new] by (simp add: good_def node_inv_def)
    from subs_okD(2) [OF this sub(1)] have "i \<in> mdom (mget0 (n_myTopics st) topic)" using sub(2,3) by (simp add: sub_ok_def)
    moreover have "mget (n_subs st') i = Some (delivered st1 m i sub)"
      using fw sub(1) by (auto simp: forwards_def Let_def router_frame_def st1)
    ultimately show ?thesis
      using sub(2,4) msg(2) by (simp add: delivered_def st1 deliver_times_def Let_def chan_room_def)
  qed
  with turns s(2,3) published through show ?thesis by (intro exI [of _ s1] exI [of _ s2] exI [of _ s3] exI [of _ st']) blast
qed

text \<open>A node with one subscription and an idle pipeline.\<close>

lemma sample_listening:
  "\<exists>st sub. gossip_reach sample_tc sample_crypto (=) sample_state st \<and> pipe_of st = pipe_of sample_state \<and>
     n_blacklist st = NewMapBlacklist \<and> mget (n_subs st) 0 = Some sub \<and> s_topic sub = str ''art'' \<and> sub_ok True sub \<and>
     s_ch sub = make_chan 32"
proof -
  note g = gossip_state_good [OF sample_gossip_state]
  obtain st sub where add: "handleAddSubscription (gossipsub_router sample_tc) (newSubscription (str ''art'')) sample_state = Some (0, st)"
    and sub: "n_subs st = mput 0 sub mempty" "s_topic sub = str ''art''" "sub_ok True sub"
    using gossip_node.AddSub_effect [OF g, where tc = sample_tc and t = "str ''art''"] by (auto simp: mlen_card)
  have "s_ch sub = make_chan 32"
    using add sub(1) by (auto simp: handleAddSubscription_def newSubscription_def Let_def lookup_update split: Option.bind_splits
        dest!: arg_cong [where f = "\<lambda>m. mget m 0"])
  moreover have "gossip_turn sample_tc (AddSub (str ''art'')) sample_state = Some st" by (simp add: loop_turn_def add)
  then have "gossip_reach sample_tc sample_crypto (=) sample_state st"
    by (intro reach_step node_step.turn [where ev = "AddSub (str ''art'')"]) (simp_all add: valid_event_def)
  moreover have "pipe_of st = pipe_of sample_state" "n_blacklist st = NewMapBlacklist"
    using gossip_node.add_same [OF g add] by simp_all
  ultimately show ?thesis using sub by (auto simp: lookup_update)
qed

theorem publish_is_delivered_witness:
  "\<exists>st m s1 s2 s3 st' sub. gossip_reach sample_tc sample_crypto (=) sample_state st \<and>
     gossip_turn sample_tc (PublishMsg m) (st\<lparr>n_counter := n_counter st + 1\<rparr>) = Some s1 \<and>
     validateWorker sample_tc (verified sample_crypto) s1 = Some s2 \<and> send_waiting 0 s2 = Some s3 \<and>
     gossip_turn sample_tc SendMsg s3 = Some st' \<and>
     mget (n_subs st') 0 = Some sub \<and> ch_buf (s_ch sub) = [m] \<and> m_Data m = Some [1]"
proof -
  obtain st sub where st: "gossip_reach sample_tc sample_crypto (=) sample_state st" "pipe_of st = pipe_of sample_state"
    "n_blacklist st = NewMapBlacklist"
    and sub: "mget (n_subs st) 0 = Some sub" "s_topic sub = str ''art''" "sub_ok True sub" "s_ch sub = make_chan 32"
    using sample_listening by blast
  have same: "n_val st = newValidation 4" "n_host st = [7]" "n_signKey st = n_signKey sample_state"
    "n_signID st = n_signID sample_state" "pipe_idle st" "n_seen st = n_seen sample_state"
    using st(2) sample_idle by (simp_all add: pipe_of_def pipe_idle_def)
  let ?st1 = "st\<lparr>n_counter := n_counter st + 1\<rparr>"
  obtain m where m: "Publish sample_crypto (str ''art'') (Some [1]) st = (Some (Inr m), ?st1)"
    by (simp add: Publish_def nextSeqno_def Let_def signMessage_def Marshal_eq sample_crypto_def same sample_state_def newPS_def
        sample_env_def)
  have "forgets_only sample_tc (=)" by (simp add: forgets_only_def)
  note gets = publish_is_delivered [OF sample_created st(1) sample_crypto_ok sample_keys _ this same(5) _ m]
  have strict: "n_signStrict sample_state" by simp
  have plain: "mget (v_topicVals (n_val st)) (str ''art'') = None" by (simp add: same newValidation_plain)
  have fresh: "\<not> MapBlacklist_Contains (n_blacklist st) (n_host st)" "\<not> MapBlacklist_Contains (n_blacklist st) (author_of st)"
    "\<not> tc_Has sample_tc (n_seen st) (msgID m)"
    by (simp_all add: st(3) MapBlacklist_Contains_def NewMapBlacklist_def sample_tc_def)
  have room: "chan_room (s_ch sub)" "\<not> s_cancelled sub" using sub(3,4) by (simp_all add: sub_ok_def chan_room_def make_chan_def)
  from gets [OF strict plain fresh] obtain s1 s2 s3 st' where
    s: "gossip_turn sample_tc (PublishMsg m) ?st1 = Some s1" "validateWorker sample_tc (verified sample_crypto) s1 = Some s2"
      "send_waiting 0 s2 = Some s3" "gossip_turn sample_tc SendMsg s3 = Some st'"
    and all: "\<forall>i sub. mget (n_subs st) i = Some sub \<longrightarrow> s_topic sub = str ''art'' \<longrightarrow> \<not> s_cancelled sub \<longrightarrow> chan_room (s_ch sub) \<longrightarrow>
       (\<exists>sub'. mget (n_subs st') i = Some sub' \<and> ch_buf (s_ch sub') = ch_buf (s_ch sub) @ [m])" by blast
  obtain sub' where "mget (n_subs st') 0 = Some sub'" "ch_buf (s_ch sub') = [m]" using all sub(1,2,4) room by (fastforce simp: make_chan_def)
  moreover have "m_Data m = Some [1]" using Publish_message [OF m] by simp
  ultimately show ?thesis using st(1) s by blast
qed

text \<open>A state in which a given signed message was published.\<close>

lemma sample_published:
  assumes "m_Signature m \<noteq> None" "verified cr m"
  shows "\<exists>st. gossip_state sample_tc cr (=) st \<and> n_published st = [m] \<and> n_signStrict st \<and>
    mget (mc_msgs (gs_mcache st)) (msgID m) = Some m"
proof -
  have "\<not> rejected map_blacklist sample_tc (n_host sample_state) m sample_state"
    using assms(1) by (simp add: rejected_def map_blacklist_def MapBlacklist_Contains_def NewMapBlacklist_def sample_tc_def)
  from gossip_through [where forget = "(=)", OF sample_created reach.start sample_idle(1) this assms] newValidation_plain
  obtain st where st: "gossip_reach sample_tc cr (=) sample_state st"
    "forwards (gossipsub_router sample_tc) sample_tc (n_host sample_state) m sample_state st"
    by (auto simp: sample_idle(2))
  then have "gossip_state sample_tc cr (=) st" using sample_created unfolding gossip_state_def by blast
  moreover have "n_signStrict st" using gossip_reach_identity [OF sample_created st(1)] by simp
  moreover have "mget (mc_msgs (gs_mcache st)) (msgID m) = Some m"
    using st(2) gs_Publish_caches by (auto simp: forwards_def Let_def gossipsub_router_def)
  ultimately show ?thesis using forwards_published [OF st(2)] sample_idle(3) by auto
qed

section \<open>What was published\<close>

lemma published_admissible:
  assumes "gossip_state tc cr forget st" "m \<in> set (n_published st)"
  shows "(n_signStrict st \<longrightarrow> m_Signature m \<noteq> None) \<and> (m_Signature m \<noteq> None \<longrightarrow> verified cr m)"
proof -
  have "b_admissible (msg_verified (verified cr) (n_signStrict st)) (broadcast_of (pipe_of st))"
    using assms(1) gossip_reach_admissible unfolding gossip_state_def by blast
  with assms(2) show ?thesis by (auto simp: b_admissible_def b_msgs_def broadcast_of_def msg_verified_def)
qed

text \<open>A message with the one signature there is.\<close>

lemma sample_signed:
  defines "m \<equiv> (text_msg [7] (PutUint64 5) [[3], []])\<lparr>m_Signature := Some [1]\<rparr>"
  shows "verified one_signature m" "messagePubKey one_signature m = Inr 14" "m_Signature m \<noteq> None"
proof -
  show key: "messagePubKey one_signature m = Inr 14"
    by (simp add: m_def messagePubKey_def one_signature_def sample_crypto_def text_msg_def bytes_of_def)
  have "payload m = text_msg [7] (PutUint64 5) [[3], []]" by (simp add: m_def payload_text)
  then show "verified one_signature m"
    unfolding verified_iff by (simp add: key) (simp add: m_def one_signature_def bytes_of_def)
qed (simp add: m_def)

lemma gossip_held: assumes "gossip_state tc cr forget st" shows "held gs_cached st \<subseteq> set (n_published st)"
proof -
  obtain ev opts st0 protos workers where new: "NewGossipSub tc ev opts = Some (Inr (st0, protos, workers))"
    and r: "gossip_reach tc cr forget st0 st" using assms unfolding gossip_state_def by blast
  note fresh = NewPubSub_fresh [OF new [unfolded NewGossipSub_def]]
  have "gs_mcache st0 = NewMessageCache GossipSubHistoryGossip GossipSubHistoryLength"
    using fresh by (cases st0) (simp add: gs_new_def gossipsub.defs)
  then have "held gs_cached st0 = {}"
    using fresh by (auto simp: fresh_node_def held_def boxed_def outbox_def inbox_def gs_cached_def NewMessageCache_def)
  with gossip_forwards.reach_held [OF r] show ?thesis by blast
qed

text \<open>
  C9: an IWANT gets exactly what it asks for: in every state a gossipsub node gets into, each cached message is
  filed under its own identifier and named in the cache's history, which will drop it; and the answer to a control
  message holds every cached message whose identifier some IWANT of it names, once, and no other, all of them
  messages that the node published.
\<close>

theorem cached_under_own_id:
  assumes "gossip_state tc cr forget st" "handleIWant p ctl st = (ms, st')"
  shows "(\<forall>mid m. mget (mc_msgs (gs_mcache st)) mid = Some m \<longrightarrow> msgID m = mid \<and> mid \<in> set (mids (mc_history (gs_mcache st)))) \<and>
    set ms = {m. mget (mc_msgs (gs_mcache st)) (msgID m) = Some m \<and> (\<exists>iw \<in> set (c_Iwant ctl). msgID m \<in> set (iw_MessageIDs iw))} \<and>
    distinct (map msgID ms) \<and> set ms \<subseteq> set (n_published st)"
proof -
  let ?get = "mget (mc_msgs (gs_mcache st))"
  have "mc_ok (gs_mcache st)" using gossip_state_good [OF assms(1)] by (simp add: good_def gs_inv_def)
  then have filed: "msgID m = mid \<and> mid \<in> set (mids (mc_history (gs_mcache st)))" if "?get mid = Some m" for mid m
    using that mem_mdomI [OF that] by (auto simp: mc_ok_def mc_filed_def mc_bounded_def)
  obtain ks where ks: "distinct ks" "set ks = servable ctl st" "ms = map (the \<circ> ?get) ks"
    using handleIWant_spec(2) [OF assms(2)] by (auto simp: Get_def comp_def)
  have asked: "k \<in> set ks \<longleftrightarrow> ?get k \<noteq> None \<and> (\<exists>iw \<in> set (c_Iwant ctl). k \<in> set (iw_MessageIDs iw))" for k
    unfolding ks(2) by (auto simp: servable_def requested_def Get_def)
  have own: "?get k = Some (the (?get k)) \<and> msgID (the (?get k)) = k" if "k \<in> set ks" for k
    using that filed [of k] unfolding asked by auto
  note ks(3)
  moreover from this have "map msgID ms = ks" using own by (simp add: map_idI)
  moreover have "set ms = {m. ?get (msgID m) = Some m \<and> (\<exists>iw \<in> set (c_Iwant ctl). msgID m \<in> set (iw_MessageIDs iw))}"
    (is "_ = ?R")
  proof
    show "set ms \<subseteq> ?R"
    proof
      fix m assume "m \<in> set ms"
      then obtain k where k: "k \<in> set ks" "m = the (?get k)" unfolding \<open>ms = map (the \<circ> ?get) ks\<close> by auto
      then have "msgID m = k" "?get k = Some m" using own [OF k(1)] by simp_all
      then show "m \<in> ?R" using k(1) unfolding asked by simp
    qed
    show "?R \<subseteq> set ms"
    proof
      fix m assume m: "m \<in> ?R"
      then have "msgID m \<in> set ks" unfolding asked by simp
      moreover have "m = the (?get (msgID m))" using m by simp
      ultimately show "m \<in> set ms" unfolding \<open>ms = map (the \<circ> ?get) ks\<close> by auto
    qed
  qed
  moreover have "gs_cached st \<subseteq> set (n_published st)" using gossip_held [OF assms(1)] by (simp add: held_def)
  ultimately show ?thesis using filed ks(1) by (auto simp: gs_cached_def)
qed

theorem cached_under_own_id_witness:
  "\<exists>st m st'. gossip_state sample_tc one_signature (=) st \<and>
     handleIWant [8] (emptyControl\<lparr>c_Iwant := [mkIWant [msgID m]]\<rparr>) st = ([m], st') \<and> m \<in> set (n_published st)"
proof -
  let ?m = "(text_msg [7] (PutUint64 5) [[3], []])\<lparr>m_Signature := Some [1]\<rparr>"
  let ?ctl = "emptyControl\<lparr>c_Iwant := [mkIWant [msgID ?m]]\<rparr>"
  obtain st where st: "gossip_state sample_tc one_signature (=) st" "mget (mc_msgs (gs_mcache st)) (msgID ?m) = Some ?m"
    using sample_published [OF sample_signed(3,1)] by blast
  obtain mids s where r: "range_over [msgID ?m] st = (mids, s)" by force
  have "mids = [msgID ?m]" using range_over_set(1,3) [OF r] by (cases mids) auto
  then have "handleIWant [8] ?ctl st = ([?m], s)"
    using st(2) r by (simp add: handleIWant_def iwant_msgs_def mkIWant_def Get_def mkeys_def Let_def List.map_filter_simps)
  with cached_under_own_id [OF st(1)] st(1) show ?thesis by fastforce
qed

text \<open>
  C5: nothing leaves a gossipsub node unchecked: a message in the queue of a peer (forwarded, or sent in
  answer to an IWANT), in the channel of a subscription or in the message cache is one the node published;
  its signature verifies if it has one, and it has one if the node demands signatures.
\<close>

theorem verified_before_leaving:
  assumes "gossip_state tc cr forget st"
    and "rpc \<in> set (outbox st p) \<and> m \<in> set (r_Publish rpc) \<or>
      mget (n_subs st) i = Some sub \<and> m \<in> set (ch_buf (s_ch sub)) \<or> mget (mc_msgs (gs_mcache st)) mid = Some m"
  shows "m \<in> set (n_published st) \<and> (n_signStrict st \<longrightarrow> m_Signature m \<noteq> None) \<and>
    (m_Signature m \<noteq> None \<longrightarrow> verifyMessageSignature cr m = Some (Inr ()))"
proof -
  have "m \<in> held gs_cached st" using assms(2) by (auto simp: held_def boxed_def inbox_def gs_cached_def)
  then have "m \<in> set (n_published st)" using gossip_held [OF assms(1)] by blast
  with published_admissible [OF assms(1) this] show ?thesis by (simp add: verified_def)
qed

theorem verified_before_leaving_witness:
  "\<exists>st m. gossip_state sample_tc one_signature (=) st \<and> mget (mc_msgs (gs_mcache st)) (msgID m) = Some m \<and>
     verifyMessageSignature one_signature m = Some (Inr ())"
proof -
  let ?m = "(text_msg [7] (PutUint64 5) [[3], []])\<lparr>m_Signature := Some [1]\<rparr>"
  obtain st where st: "gossip_state sample_tc one_signature (=) st" "mget (mc_msgs (gs_mcache st)) (msgID ?m) = Some ?m"
    using sample_published [OF sample_signed(3,1)] by blast
  have "m_Signature ?m \<noteq> None" by simp
  with verified_before_leaving [OF st(1)] st show ?thesis by blast
qed

text \<open>
  C4: authentic delivery: a node that demands signatures delivers and forwards nothing but what its author
  said. Let a key be honest when every signature that verifies under it is one its owner made for a message
  of \<open>Signed key\<close>; then a published message whose author has an honest key has the author, data, sequence
  number and topics (in their order) of a message that the owner of the key signed.
\<close>

theorem delivered_authentic:
  assumes "gossip_state tc cr forget st" "n_signStrict st" "m \<in> set (n_published st)"
    and honest: "\<And>key data sig. key \<in> honest \<Longrightarrow> cr_Verify cr key data sig = Some True \<Longrightarrow>
      \<exists>m0 \<in> Signed key. data = withSignPrefix (Message_MarshalTo (payload m0)) \<and> m_unrec m0 = []"
    and m: "m_unrec m = []" "Message_Size m < 2 ^ 63"
  shows "\<exists>key. messagePubKey cr m = Inr key \<and>
    (key \<in> honest \<longrightarrow> (\<exists>m0 \<in> Signed key. m_From m0 = m_From m \<and> m_Data m0 = m_Data m \<and> m_Seqno m0 = m_Seqno m \<and>
       m_TopicIDs m0 = m_TopicIDs m))"
proof -
  have v: "verified cr m" using published_admissible [OF assms(1,3)] assms(2) by blast
  then obtain key where key: "messagePubKey cr m = Inr key" by (auto simp: verified_iff)
  have "\<exists>m0 \<in> Signed key. m_From m0 = m_From m \<and> m_Data m0 = m_Data m \<and> m_Seqno m0 = m_Seqno m \<and>
      m_TopicIDs m0 = m_TopicIDs m" if "key \<in> honest"
    by (rule verified_payload [where Signed = Signed, OF v [unfolded verified_def] key honest [OF that] m])
  with key show ?thesis by blast
qed

theorem delivered_authentic_witness:
  "\<exists>st m. gossip_state sample_tc one_signature (=) st \<and> n_published st = [m] \<and> m_Data m = Some (str ''hello'') \<and>
     (\<exists>m0 \<in> {text_msg [7] (PutUint64 5) [[3], []]}. m_From m0 = m_From m \<and> m_Data m0 = m_Data m)"
proof -
  let ?p = "text_msg [7] (PutUint64 5) [[3], []]"
  let ?m = "?p\<lparr>m_Signature := Some [1]\<rparr>"
  obtain st where st: "gossip_state sample_tc one_signature (=) st" "n_published st = [?m]" "n_signStrict st"
    using sample_published [OF sample_signed(3,1)] by blast
  have mem: "?m \<in> set (n_published st)" by (simp add: st(2))
  have honest: "\<exists>m0 \<in> {?p}. data = withSignPrefix (Message_MarshalTo (payload m0)) \<and> m_unrec m0 = []"
    if "cr_Verify one_signature key data sig = Some True" for key data sig
    using that unfolding bex_simps payload_text by (simp add: one_signature_def text_msg_def)
  have "Message_Size ?m = Message_Size ?p + 3"
    by (simp add: Message_Size_def size_opt_def size_delim_def text_msg_def sov_small)
  then have size: "Message_Size ?m < 2 ^ 63" using sample_size by simp
  have "\<exists>key. messagePubKey one_signature ?m = Inr key \<and> (key \<in> UNIV \<longrightarrow> (\<exists>m0 \<in> {?p}. m_From m0 = m_From ?m \<and>
      m_Data m0 = m_Data ?m \<and> m_Seqno m0 = m_Seqno ?m \<and> m_TopicIDs m0 = m_TopicIDs ?m))"
    by (rule delivered_authentic [where Signed = "\<lambda>_. {?p}", OF st(1,3) mem honest _ size]) (simp_all add: text_msg_def)
  then have "\<exists>m0 \<in> {?p}. m_From m0 = m_From ?m \<and> m_Data m0 = m_Data ?m" by auto
  moreover have "m_Data ?m = Some (str ''hello'')" by (simp add: text_msg_def)
  ultimately show ?thesis using st(1,2) by blast
qed

end
