(* ===== verification/Network.thy ===== *)
theory Network
  imports Delivery
begin

text \<open>
  Several nodes and the streams between them. Each node runs by itself, as in \<open>System\<close>; its writers put what
  the queues hold on the streams, the readers of the other end hand it to their loops under the sender's
  identity (\<open>comm.go\<close>, which \<open>Comm\<close> models in detail), and the users call \<open>Publish\<close>. Streams may be lost and
  reopened, so what is under way may arrive in any order, or not at all.
\<close>

section \<open>The network\<close>

text \<open>
  \<open>net_asked\<close> are the calls of \<open>Publish\<close> that wait until the loop receives on the channel \<open>publish\<close>. The
  history variable \<open>net_said\<close> collects what the users published, each with the node.
\<close>

record ('s, 'b, 'z) network =
  net_nodes :: "peer \<Rightarrow> ('s, 'b, 'z) node_scheme option"
  net_wire :: "(peer \<times> peer \<times> pb_RPC) multiset"
  net_asked :: "(peer \<times> pb_Message) multiset"
  net_said :: "(peer \<times> pb_Message) set"

definition put_node :: "peer \<Rightarrow> ('s, 'b, 'z) node_scheme \<Rightarrow> ('s, 'b, 'z) network \<Rightarrow> ('s, 'b, 'z) network" where
  "put_node i st n = n\<lparr>net_nodes := (net_nodes n)(i \<mapsto> st)\<rparr>"

text \<open>The inputs of the loop that bring no messages from the streams or the user.\<close>

definition internal :: "loop_event \<Rightarrow> bool" where
  "internal ev = (case ev of Incoming rpc \<Rightarrow> False | PublishMsg m \<Rightarrow> False | _ \<Rightarrow> True)"

inductive net_step ::
  "('s, 'b, 'z) router_methods \<Rightarrow> 'b blacklist_methods \<Rightarrow> 's seen_methods \<Rightarrow>
   (('s, 'b, 'z) node_scheme \<Rightarrow> ('s, 'b, 'z) node_scheme option) \<Rightarrow> crypto \<Rightarrow> ('s \<Rightarrow> 's \<Rightarrow> bool) \<Rightarrow>
   ('s, 'b, 'z) network \<Rightarrow> ('s, 'b, 'z) network \<Rightarrow> bool"
  for rt bl tc hb cr forget where
  turns: "net_nodes n i = Some st \<Longrightarrow> valid_event st ev \<Longrightarrow> internal ev \<Longrightarrow> loop_turn rt bl tc hb ev st = Some st' \<Longrightarrow>
    net_step rt bl tc hb cr forget n (put_node i st' n)"
| works: "net_nodes n i = Some st \<Longrightarrow> goroutine_step tc cr forget st st' \<Longrightarrow>
    net_step rt bl tc hb cr forget n (put_node i st' n)"
| writes: "net_nodes n i = Some st \<Longrightarrow> mget (n_peers st) j = Some ch \<Longrightarrow> ch_buf ch = rpc # rpcs \<Longrightarrow>
    net_step rt bl tc hb cr forget n
      (put_node i (st\<lparr>n_peers := mput j (ch\<lparr>ch_buf := rpcs\<rparr>) (n_peers st)\<rparr>) n
         \<lparr>net_wire := add_mset (i, j, pb_RPC.truncate rpc) (net_wire n)\<rparr>)"
| reads: "net_wire n = add_mset (i, j, rpc) w \<Longrightarrow> net_nodes n j = Some st \<Longrightarrow>
    loop_turn rt bl tc hb (Incoming (from_remote i rpc)) st = Some st' \<Longrightarrow>
    net_step rt bl tc hb cr forget n (put_node j st' n\<lparr>net_wire := w\<rparr>)"
| loses: "net_wire n = add_mset x w \<Longrightarrow> net_step rt bl tc hb cr forget n (n\<lparr>net_wire := w\<rparr>)"
| asks: "net_nodes n i = Some st \<Longrightarrow> Publish cr topic data st = (Some (Inr m), st') \<Longrightarrow>
    net_step rt bl tc hb cr forget n
      (put_node i st' n\<lparr>net_asked := add_mset (i, m) (net_asked n), net_said := insert (i, m) (net_said n)\<rparr>)"
| takes: "net_asked n = add_mset (i, m) a \<Longrightarrow> net_nodes n i = Some st \<Longrightarrow>
    loop_turn rt bl tc hb (PublishMsg m) st = Some st' \<Longrightarrow>
    net_step rt bl tc hb cr forget n (put_node i st' n\<lparr>net_asked := a\<rparr>)"

abbreviation net_steps where
  "net_steps rt bl tc hb cr forget \<equiv> (net_step rt bl tc hb cr forget)\<^sup>*\<^sup>*"

lemma put_node_sel [simp]:
  "net_nodes (put_node i st n) = (net_nodes n)(i \<mapsto> st)" "net_wire (put_node i st n) = net_wire n"
  "net_asked (put_node i st n) = net_asked n" "net_said (put_node i st n) = net_said n"
  by (simp_all add: put_node_def)

lemma internal_given: "internal ev \<Longrightarrow> given ev = {}"
  by (cases ev) (simp_all add: internal_def given_def)

section \<open>The messages in a pipeline\<close>

text \<open>
  \<open>pipe_from M author\<close>: the pipeline of the node with that identity holds, and its loop has published,
  nothing but messages of \<open>M\<close>.
\<close>

definition content :: "'s pipe \<Rightarrow> pb_Message set" where
  "content p = vr_msg ` set (ch_buf (v_validateQ (pi_val p))) \<union> set_mset (under_way p) \<union> set (pi_published p)"

definition pipe_from :: "pb_Message set \<Rightarrow> peer \<times> nat option \<times> peer \<Rightarrow> 's pipe \<Rightarrow> bool" where
  "pipe_from M author p \<longleftrightarrow> pipe_ok p \<and> pi_author p = author \<and> content p \<subseteq> M"

lemma pipe_fromI:
  assumes "pipe_from M author p" "pipe_ok p'" "pi_author p' = pi_author p" "content p' \<subseteq> content p \<union> M"
  shows "pipe_from M author p'"
  using assms by (auto simp: pipe_from_def)

lemma pipe_fromD: "pipe_from M author p \<Longrightarrow> pipe_ok p" "pipe_from M author p \<Longrightarrow> set (pi_published p) \<subseteq> M"
  by (auto simp: pipe_from_def content_def)

lemma pipe_from_mono: "pipe_from M author p \<Longrightarrow> M \<subseteq> N \<Longrightarrow> pipe_from N author p"
  by (auto simp: pipe_from_def)

interpretation pipe_from: pipeline tc "pipe_from M author" "\<lambda>m. m \<in> M" for tc M author
proof
  fix p :: "'a pipe" and src and msg :: pb_Message
  assume J: "pipe_from M author p" and new: "msg \<in> M"
  obtain ok v where v: "Push src msg (pi_val p) = Some (ok, v)" "pipe_ok (p\<lparr>pi_val := v\<rparr>)"
    using pipe_ok_offer [OF pipe_fromD(1) [OF J]] by blast
  have "content (p\<lparr>pi_val := v\<rparr>) \<subseteq> content p \<union> M"
    using Push_queue [OF v(1)] new by (auto simp: content_def under_way_def)
  with v show "\<exists>ok v. Push src msg (pi_val p) = Some (ok, v) \<and> pipe_from M author (p\<lparr>pi_val := v\<rparr>)"
    using pipe_fromI [OF J v(2)] by auto
next
  fix p :: "'a pipe" and msg :: pb_Message and src
  assume J: "pipe_from M author p" and new: "msg \<in> M"
  show "pipe_from M author (p\<lparr>pi_seen := tc_Add tc (msgID msg) (pi_seen p), pi_published := pi_published p @ [msg]\<rparr>)"
    using pipe_fromD(1) [OF J] new by (intro pipe_fromI [OF J]) (auto simp: pipe_ok_def content_def under_way_def)
next
  fix p :: "'a pipe" and req reqs
  assume J: "pipe_from M author p" and q: "ch_buf (pi_sendMsg p) = req # reqs"
  show "pipe_from M author (p\<lparr>pi_sendMsg := (pi_sendMsg p)\<lparr>ch_buf := reqs\<rparr>, pi_published := pi_published p @ [sr_msg req]\<rparr>)"
    using pipe_fromD(1) [OF J] q
    by (intro pipe_fromI [OF J]) (auto simp: pipe_ok_def chan_ok_def content_def under_way_def)
next
  fix p :: "'a pipe" and r assume J: "pipe_from M author p"
  show "pipe_from M author (p\<lparr>pi_val := snd (AddValidator r (pi_val p))\<rparr>)"
    using pipe_ok_register [OF pipe_fromD(1) [OF J], of r]
    by (intro pipe_fromI [OF J]) (simp_all add: content_def under_way_def registry_queue)
next
  fix p :: "'a pipe" and t assume J: "pipe_from M author p"
  show "pipe_from M author (p\<lparr>pi_val := snd (RemoveValidator t (pi_val p))\<rparr>)"
    using pipe_ok_remove [OF pipe_fromD(1) [OF J], of t]
    by (intro pipe_fromI [OF J]) (simp_all add: content_def under_way_def registry_queue)
qed

text \<open>The goroutines behind the queue.\<close>

lemma worker_from:
  assumes J: "pipe_from M author (pipe_of st)" and w: "validateWorker tc verify st = Some st'"
  shows "pipe_from M author (pipe_of st')"
proof -
  obtain req reqs where q: "ch_buf (v_validateQ (n_val st)) = req # reqs"
    using w by (auto simp: validateWorker_def split: list.splits)
  let ?s = "st\<lparr>n_val := (n_val st)\<lparr>v_validateQ := (v_validateQ (n_val st))\<lparr>ch_buf := reqs\<rparr>\<rparr>\<rparr>"
  have st': "st' = validate tc verify (vr_vals req) (vr_src req) (vr_msg req) ?s" using w q by (simp add: validateWorker_def)
  have "content (pipe_of st') \<subseteq> content (pipe_of ?s) \<union> {vr_msg req}"
    unfolding st'
    using validate_cases [where tc = tc and st = ?s and verify = verify and msg = "vr_msg req" and vals = "vr_vals req" and src = "vr_src req"]
    by (elim disjE conjE exE) (auto simp: content_def under_way_def)
  then have "content (pipe_of st') \<subseteq> content (pipe_of st)" using q by (auto simp: content_def under_way_def)
  moreover have "pi_author (pipe_of st') = pi_author (pipe_of st)"
    using validateWorker_outside [OF w] by (simp add: outside_pipe_def)
  ultimately show ?thesis using worker_ok [OF pipe_fromD(1) [OF J] w] by (intro pipe_fromI [OF J]) auto
qed

lemma behind_queue:
  assumes J: "pipe_from M author (pipe_of st)" and "outside_pipe st st'"
    and "pipe_ok (pipe_of st') \<and> under_way (pipe_of st') \<subseteq># under_way (pipe_of st) \<and> n_seen st' = n_seen st \<and>
      v_validateQ (n_val st') = v_validateQ (n_val st)"
  shows "pipe_from M author (pipe_of st')"
  using assms mset_subset_eqD [of "under_way (pipe_of st')" "under_way (pipe_of st)"]
  by (intro pipe_fromI [OF J]) (auto simp: outside_pipe_def content_def)

lemma node_from:
  fixes rt :: "('s, 'b, 'z) router_methods"
  assumes "node_system rt rt_inv bl tc pipe_ok hb cr forget"
  shows "node_offered rt rt_inv bl tc (pipe_from M author) (\<lambda>m. m \<in> M) hb cr forget"
proof (rule system_offered [OF assms pipe_from.pipeline_axioms])
  fix st st' :: "('s, 'b, 'z) node_scheme" and k
  assume J: "pipe_from M author (pipe_of st)"
  note ok = pipe_fromD(1) [OF J]
  show "validateWorker tc (verified cr) st = Some st' \<Longrightarrow> pipe_from M author (pipe_of st')" by (rule worker_from [OF J])
  show "begin_validateTopic k st = Some st' \<Longrightarrow> pipe_from M author (pipe_of st')"
    using begin_ok [OF ok] by (intro behind_queue [OF J]) (auto dest: begin_outside)
  show "end_validateTopic k st = Some st' \<Longrightarrow> pipe_from M author (pipe_of st')"
    using end_ok [OF ok] by (intro behind_queue [OF J]) (auto dest: end_outside)
  show "send_waiting k st = Some st' \<Longrightarrow> pipe_from M author (pipe_of st')"
    using send_ok [OF ok] by (intro behind_queue [OF J]) (auto dest: send_outside)
next
  fix p :: "'s pipe" and s assume "pipe_from M author p"
  then show "pipe_from M author (p\<lparr>pi_seen := s\<rparr>)"
    by (simp add: pipe_from_def content_def under_way_def forget_ok)
qed

section \<open>Where the messages of a network come from\<close>

text \<open>
  \<open>node_from M\<close>: what a node holds, has published and may still publish is from \<open>M\<close>. \<open>net_inv auth\<close>: \<open>M\<close>
  are the messages the users published, each under the identity that \<open>auth\<close> gives to the user's node.
\<close>

definition node_within where
  "node_within bl I cached M author st \<longleftrightarrow> good bl (pipe_from M author) I st \<and> held cached st \<subseteq> M"

definition author_name :: "peer \<times> nat option \<times> peer \<Rightarrow> peer" where
  "author_name author = (case author of (host, key, signID) \<Rightarrow> if key = None then host else signID)"

definition net_inv where
  "net_inv bl I cached auth n \<longleftrightarrow>
     (\<forall>i st. net_nodes n i = Some st \<longrightarrow> node_within bl I cached (snd ` net_said n) (auth i) st) \<and>
     (\<forall>i j rpc. (i, j, rpc) \<in># net_wire n \<longrightarrow> set (r_Publish rpc) \<subseteq> snd ` net_said n) \<and>
     set_mset (net_asked n) \<subseteq> net_said n \<and>
     (\<forall>i m. (i, m) \<in> net_said n \<longrightarrow> net_nodes n i \<noteq> None \<and> GetFrom m = author_name (auth i))"

lemma within_mono: "node_within bl I cached M author st \<Longrightarrow> M \<subseteq> N \<Longrightarrow> node_within bl I cached N author st"
  by (auto simp: node_within_def good_def node_inv_def intro: pipe_from_mono)

lemma within_author: "node_within bl I cached M author st \<Longrightarrow> author_of st = author_name author"
  by (auto simp: node_within_def good_def node_inv_def pipe_from_def author_of_def author_name_def)

lemma within_published:
  "node_within bl I cached M author st \<Longrightarrow> set (n_published st) \<subseteq> M \<and> held cached st \<subseteq> M"
  using pipe_fromD(2) by (fastforce simp: node_within_def good_def node_inv_def)

lemma net_invD:
  assumes "net_inv bl I cached auth n"
  shows "net_nodes n i = Some st \<Longrightarrow> node_within bl I cached (snd ` net_said n) (auth i) st"
    "(i, j, rpc) \<in># net_wire n \<Longrightarrow> set (r_Publish rpc) \<subseteq> snd ` net_said n"
    "set_mset (net_asked n) \<subseteq> net_said n"
    "(i, m) \<in> net_said n \<Longrightarrow> net_nodes n i \<noteq> None \<and> GetFrom m = author_name (auth i)"
  using assms unfolding net_inv_def by blast+

text \<open>A node moves, and what is under way is from the network.\<close>

lemma net_inv_move:
  assumes "net_inv bl I cached auth n" "net_nodes n i = Some st"
    and "node_within bl I cached (snd ` net_said n) (auth i) st'"
    and "net_nodes n' = (net_nodes n)(i \<mapsto> st')" "net_said n' = net_said n"
    and "\<And>x y rpc. (x, y, rpc) \<in># net_wire n' \<Longrightarrow> set (r_Publish rpc) \<subseteq> snd ` net_said n"
    and "set_mset (net_asked n') \<subseteq> net_said n"
  shows "net_inv bl I cached auth n'"
  using net_invD(1,4) [OF assms(1)] assms unfolding net_inv_def by auto

text \<open>A router and a node as in \<open>System\<close> that also keep to \<open>Forwarding\<close>.\<close>

locale networked = node_system rt rt_inv bl tc pipe_ok hb cr forget + forwarding rt hb cached
  for rt :: "('s, 'b, 'z) router_methods" and rt_inv and bl :: "'b blacklist_methods"
    and tc :: "'s seen_methods" and hb and cr and forget and cached
begin

lemma within_carries:
  assumes "node_within bl rt_inv cached M author st" "good bl (pipe_from M author) rt_inv st'" "carries cached st st'"
  shows "node_within bl rt_inv cached M author st'"
proof -
  have "set (n_published st') \<subseteq> M" using assms(2) pipe_fromD(2) by (fastforce simp: good_def node_inv_def)
  then show ?thesis using assms by (auto simp: node_within_def carries_def)
qed

lemma within_turn:
  assumes w: "node_within bl rt_inv cached M author st" and "valid_event st ev" "given ev \<subseteq> M"
    and t: "loop_turn rt bl tc hb ev st = Some st'"
  shows "node_within bl rt_inv cached M author st'"
proof (rule within_carries [OF w _ turn_carries [OF t]])
  show "good bl (pipe_from M author) rt_inv st'"
    by (rule node_offered.turn_good [OF node_from [OF node_system_axioms] assms(2) _ t])
      (use w assms(3) in \<open>auto simp: node_within_def\<close>)
qed

lemma within_works:
  assumes w: "node_within bl rt_inv cached M author st" and g: "goroutine_step tc cr forget st st'"
  shows "node_within bl rt_inv cached M author st'"
proof (rule within_carries [OF w _ goroutine_carries [OF g]])
  show "good bl (pipe_from M author) rt_inv st'"
    by (rule node_offered.goroutine_good [OF node_from [OF node_system_axioms] g]) (use w in \<open>simp add: node_within_def\<close>)
qed

lemma net_step_inv:
  assumes "net_step rt bl tc hb cr forget n n'" "net_inv bl rt_inv cached auth n"
  shows "net_inv bl rt_inv cached auth n'"
  using assms
proof (induction rule: net_step.induct)
  case (turns n i st ev st')
  note inv = net_invD [OF turns(5)]
  have "node_within bl rt_inv cached (snd ` net_said n) (auth i) st'"
    by (rule within_turn [OF inv(1) [OF turns(1)] turns(2) _ turns(4)]) (simp add: internal_given [OF turns(3)])
  then show ?case by (rule net_inv_move [OF turns(5,1)]) (use inv(2,3) in auto)
next
  case (works n i st st')
  note inv = net_invD [OF works(3)]
  show ?case
    by (rule net_inv_move [OF works(3,1) within_works [OF inv(1) [OF works(1)] works(2)]]) (use inv(2,3) in auto)
next
  case (writes n i st j ch rpc rpcs)
  note inv = net_invD [OF writes(4)]
  let ?w = "add_mset (i, j, pb_RPC.truncate rpc) (net_wire n)"
  have "set (r_Publish rpc) \<subseteq> boxed st" using boxed_in [OF writes(2)] writes(3) by auto
  then have new: "set (r_Publish rpc) \<subseteq> snd ` net_said n"
    using within_published [OF inv(1) [OF writes(1)]] by (auto simp: held_def)
  have "r_Publish (pb_RPC.truncate rpc) = r_Publish rpc" by (simp add: pb_RPC.defs)
  with new have "set (r_Publish r) \<subseteq> snd ` net_said n" if "(x, y, r) \<in># ?w" for x y r
    using that inv(2) [of x y r] by auto
  then show ?case
    by (intro net_inv_move [OF writes(4,1) within_works [OF inv(1) [OF writes(1)] goroutine_step.written [OF writes(2,3)]]])
      (use inv(3) in auto)
next
  case (reads n i j rpc w st st')
  note inv = net_invD [OF reads(4)]
  have "set (r_Publish rpc) \<subseteq> snd ` net_said n" using inv(2) [of i j rpc] reads(1) by simp
  then have "node_within bl rt_inv cached (snd ` net_said n) (auth j) st'"
    by (intro within_turn [OF inv(1) [OF reads(2)] _ _ reads(3)]) (simp_all add: valid_event_def from_remote_def pb_RPC.defs)
  moreover have "set (r_Publish r) \<subseteq> snd ` net_said n" if "(x, y, r) \<in># w" for x y r
    using inv(2) [of x y r] reads(1) that by simp
  ultimately show ?case using reads(1) inv(3) by (intro net_inv_move [OF reads(4,2)]) auto
next
  case (loses n x w)
  then show ?case by (auto simp: net_inv_def)
next
  case (asks n i st topic data m st')
  note inv = net_invD [OF asks(3)]
  let ?M = "snd ` net_said n" and ?n = "n\<lparr>net_said := insert (i, m) (net_said n)\<rparr>"
  have m: "GetFrom m = author_name (auth i)"
    using Publish_message [OF asks(2)] within_author [OF inv(1) [OF asks(1)]] by (simp add: GetFrom_def bytes_of_def)
  have grow: "node_within bl rt_inv cached (insert m ?M) (auth k) s" if "node_within bl rt_inv cached ?M (auth k) s" for k s
    by (rule within_mono [OF that]) blast
  have "net_inv bl rt_inv cached auth ?n"
    using asks(1,3) m grow inv(1) unfolding net_inv_def by fastforce
  moreover have "net_nodes ?n i = Some st" using asks(1) by simp
  moreover have "node_within bl rt_inv cached (snd ` net_said ?n) (auth i) st'"
    using grow [OF within_works [OF inv(1) [OF asks(1)] goroutine_step.published [OF asks(2)]]] by simp
  ultimately show ?case
  proof (rule net_inv_move [where i = i and st = st and st' = st'])
    fix x y r
    assume "(x, y, r) \<in># net_wire (put_node i st' n\<lparr>net_asked := add_mset (i, m) (net_asked n), net_said := insert (i, m) (net_said n)\<rparr>)"
    then show "set (r_Publish r) \<subseteq> snd ` net_said ?n" using inv(2) [of x y r] by auto
  qed (use asks(1) inv(3) in \<open>auto simp: put_node_def\<close>)
next
  case (takes n i m a st st')
  note inv = net_invD [OF takes(4)]
  have "m \<in> snd ` net_said n" using inv(3) takes(1) by force
  then have "node_within bl rt_inv cached (snd ` net_said n) (auth i) st'"
    by (intro within_turn [OF inv(1) [OF takes(2)] _ _ takes(3)]) (simp_all add: valid_event_def)
  with takes(1) inv(2,3) show ?case by (intro net_inv_move [OF takes(4,2)]) auto
qed

lemma net_steps_inv:
  "net_steps rt bl tc hb cr forget n n' \<Longrightarrow> net_inv bl rt_inv cached auth n \<Longrightarrow> net_inv bl rt_inv cached auth n'"
  by (induction rule: rtranclp_induct) (auto intro: net_step_inv)

end

text \<open>A network before anything happened: the nodes are created, and nothing is under way.\<close>

definition net_fresh where
  "net_fresh bl rt_inv cached n \<longleftrightarrow>
     (\<forall>i st. net_nodes n i = Some st \<longrightarrow> (\<exists>h. fresh_node h bl st) \<and> n_host st = i \<and> rt_inv st \<and> cached st = {}) \<and>
     net_wire n = {#} \<and> net_asked n = {#} \<and> net_said n = {}"

definition auth_of :: "('s, 'b, 'z) network \<Rightarrow> peer \<Rightarrow> peer \<times> nat option \<times> peer" where
  "auth_of n i = pi_author (pipe_of (the (net_nodes n i)))"

lemma net_fresh_inv:
  assumes "net_fresh bl rt_inv cached n" shows "net_inv bl rt_inv cached (auth_of n) n"
proof -
  have "node_within bl rt_inv cached {} (auth_of n i) st" if st: "net_nodes n i = Some st" for i st
  proof -
    obtain h where h: "fresh_node h bl st" "rt_inv st" "cached st = {}" using assms st unfolding net_fresh_def by blast
    have "node_inv bl pipe_ok st" by (rule fresh_inv [OF h(1)])
    moreover have "content (pipe_of st) = {}" "held cached st = {}"
      using h(1,3) by (auto simp: fresh_node_def make_chan_def content_def under_way_def held_def boxed_def outbox_def inbox_def)
    ultimately show ?thesis
      using h(2) st by (simp add: node_within_def good_def node_inv_def pipe_from_def auth_of_def)
  qed
  with assms show ?thesis by (simp add: net_inv_def net_fresh_def)
qed

interpretation gossip_net: networked "gossipsub_router tc :: ('s, MapBlacklist, 'z gossipsub_ext) router_methods"
  gs_inv map_blacklist tc heartbeat cr forget gs_cached for tc cr forget
  by (rule networked.intro [OF gossip_node.node_system_axioms gossip_forwards.forwarding_axioms])

interpretation flood_net: networked "floodsub_router :: ('s, MapBlacklist, 'z floodsub_ext) router_methods"
  "\<lambda>_. True" map_blacklist tc Some cr forget "\<lambda>_. {}" for tc cr forget
  by (rule networked.intro [OF flood_node.node_system_axioms flood_forwards.forwarding_axioms])

interpretation random_net: networked "randomsub_router :: ('s, MapBlacklist, 'z randomsub_ext) router_methods"
  "\<lambda>_. True" map_blacklist tc Some cr forget "\<lambda>_. {}" for tc cr forget
  by (rule networked.intro [OF random_node.node_system_axioms random_forwards.forwarding_axioms])

section \<open>The origin of a message\<close>

text \<open>A network in which nothing has happened yet, and what gossipsub and floodsub nodes make of it.\<close>

definition net_started where
  "net_started created n0 \<longleftrightarrow>
     (\<forall>i st. net_nodes n0 i = Some st \<longrightarrow>
        (\<exists>ev opts protos workers. created ev opts = Some (Inr (st, protos, workers)) \<and> h_ID (e_host ev) = i)) \<and>
     net_wire n0 = {#} \<and> net_asked n0 = {#} \<and> net_said n0 = {}"

definition gossip_network where
  "gossip_network tc cr forget n0 n \<longleftrightarrow> net_started (NewGossipSub tc) n0 \<and>
     net_steps (gossipsub_router tc) map_blacklist tc heartbeat cr forget n0 n"

definition flood_network where
  "flood_network tc cr forget n0 n \<longleftrightarrow> net_started NewFloodSub n0 \<and>
     net_steps floodsub_router map_blacklist tc Some cr forget n0 n"

lemma gossip_net_fresh:
  assumes "gossip_network tc cr forget n0 n" shows "net_fresh map_blacklist gs_inv gs_cached n0"
proof -
  have "(\<exists>h. fresh_node h map_blacklist st) \<and> n_host st = i \<and> gs_inv st \<and> gs_cached st = {}"
    if st: "net_nodes n0 i = Some st" for i st
  proof -
    obtain ev opts protos workers where new: "NewGossipSub tc ev opts = Some (Inr (st, protos, workers))" "h_ID (e_host ev) = i"
      using assms st unfolding gossip_network_def net_started_def by blast
    note fresh = NewPubSub_fresh [OF new(1) [unfolded NewGossipSub_def], of map_blacklist]
    have "gs_mcache st = NewMessageCache GossipSubHistoryGossip GossipSubHistoryLength"
      using fresh by (cases st) (simp add: gs_new_def gossipsub.defs)
    then have "gs_cached st = {}" by (auto simp: gs_cached_def NewMessageCache_def)
    with fresh new(2) gs_new_inv [of st] show ?thesis by auto
  qed
  with assms show ?thesis unfolding net_fresh_def gossip_network_def net_started_def by blast
qed

lemma gossip_net_inv:
  assumes "gossip_network tc cr forget n0 n" shows "net_inv map_blacklist gs_inv gs_cached (auth_of n0) n"
  using assms net_fresh_inv [OF gossip_net_fresh [OF assms]] gossip_net.net_steps_inv unfolding gossip_network_def by blast

lemma flood_net_fresh:
  assumes "flood_network tc cr forget n0 n" shows "net_fresh map_blacklist (\<lambda>_. True) (\<lambda>_. {}) n0"
proof -
  have "(\<exists>h. fresh_node h map_blacklist st) \<and> n_host st = i" if st: "net_nodes n0 i = Some st" for i st
  proof -
    obtain ev opts protos workers where new: "NewFloodSub ev opts = Some (Inr (st, protos, workers))" "h_ID (e_host ev) = i"
      using assms st unfolding flood_network_def net_started_def by blast
    from NewPubSub_fresh [OF new(1) [unfolded NewFloodSub_def NewFloodsubWithProtocols_def], of map_blacklist] new(2)
    show ?thesis by blast
  qed
  with assms show ?thesis unfolding net_fresh_def flood_network_def net_started_def by blast
qed

lemma flood_net_inv:
  assumes "flood_network tc cr forget n0 n"
  shows "net_inv map_blacklist (\<lambda>_. True) (\<lambda>_. {}) (auth_of n0) n"
  using assms net_fresh_inv [OF flood_net_fresh [OF assms]] flood_net.net_steps_inv unfolding flood_network_def by blast

text \<open>The nodes of a network are the ones it started with.\<close>

lemma net_step_nodes: "net_step rt bl tc hb cr forget n n' \<Longrightarrow> net_nodes n' i = None \<longleftrightarrow> net_nodes n i = None"
  by (induction rule: net_step.induct) auto

lemma net_steps_nodes: "net_steps rt bl tc hb cr forget n n' \<Longrightarrow> net_nodes n' i = None \<longleftrightarrow> net_nodes n i = None"
  by (induction rule: rtranclp_induct) (auto simp: net_step_nodes)

text \<open>
  C7: delivery has a cause, across the whole network: whatever a gossipsub node publishes to its subscriptions
  and its router, keeps in a queue, a subscription's channel or the cache, the user of some node
  handed to \<open>Publish\<close>, and the message names the author that node was created for. Nothing on the
  way, forwarding, gossip and IWANT included, makes a message up or changes one.
\<close>

theorem delivery_has_a_cause:
  assumes "gossip_network tc cr forget n0 n" "net_nodes n i = Some st"
    and "m \<in> set (n_published st) \<or> rpc \<in> set (outbox st p) \<and> m \<in> set (r_Publish rpc) \<or>
      mget (n_subs st) k = Some sub \<and> m \<in> set (ch_buf (s_ch sub)) \<or> mget (mc_msgs (gs_mcache st)) mid = Some m"
  shows "\<exists>j st0. (j, m) \<in> net_said n \<and> net_nodes n0 j = Some st0 \<and> GetFrom m = author_of st0"
proof -
  note inv = net_invD [OF gossip_net_inv [OF assms(1)]]
  have "m \<in> set (n_published st) \<union> held gs_cached st" using assms(3) by (auto simp: held_def boxed_def inbox_def gs_cached_def)
  then obtain j where j: "(j, m) \<in> net_said n" using within_published [OF inv(1) [OF assms(2)]] by force
  then have "net_nodes n0 j \<noteq> None"
    using inv(4) net_steps_nodes assms(1) unfolding gossip_network_def by metis
  then obtain st0 where st0: "net_nodes n0 j = Some st0" by blast
  from within_author [OF net_invD(1) [OF net_fresh_inv [OF gossip_net_fresh [OF assms(1)]] st0]] inv(4) [OF j] j st0
  show ?thesis by auto
qed

section \<open>From one node to another\<close>

lemma put_node_again [simp]: "put_node i s (put_node i s' n) = put_node i s n"
  by (simp add: put_node_def)

lemma put_node_same: "net_nodes n i = Some s \<Longrightarrow> put_node i s n = n"
  by (cases n) (simp add: put_node_def fun_upd_idem)

text \<open>What \<open>goes_through\<close> does after the loop queued the message, as steps of the network.\<close>

lemma net_through:
  assumes "validateWorker tc (verified cr) s1 = Some s2" "send_waiting 0 s2 = Some s3" "onSendMsg rt s3 = Some s4"
    and "net_nodes n i = Some s1"
  shows "net_steps rt bl tc hb cr forget n (put_node i s4 n)"
proof -
  have "net_step rt bl tc hb cr forget n (put_node i s2 n)"
    by (rule net_step.works [OF assms(4) goroutine_step.worker [OF assms(1)]])
  moreover have "net_step rt bl tc hb cr forget (put_node i s2 n) (put_node i s3 (put_node i s2 n))"
    by (rule net_step.works [OF _ goroutine_step.sent [OF assms(2)]]) simp
  moreover have "net_step rt bl tc hb cr forget (put_node i s3 n) (put_node i s4 (put_node i s3 n))"
    by (rule net_step.turns [where ev = SendMsg and st = s3]) (simp_all add: valid_event_def internal_def loop_turn_def assms(3))
  ultimately show ?thesis by (simp add: converse_rtranclp_into_rtranclp)
qed

lemma good_mono: "good bl J I st \<Longrightarrow> (J (pipe_of st) \<Longrightarrow> J' (pipe_of st)) \<Longrightarrow> good bl J' I st"
  by (auto simp: good_def node_inv_def)

lemma within_good: "node_within bl I cached M author st \<Longrightarrow> good bl pipe_ok I st"
  by (auto simp: node_within_def intro: good_mono pipe_fromD(1))

text \<open>A subscription that gets a forwarded message.\<close>

lemma forwards_delivers:
  assumes "forwards rt tc src m st st'" "subs_ok (n_subs st) (n_myTopics st)" "m_TopicIDs m = [topic]"
    and "mget (n_subs st) k = Some sub" "s_topic sub = topic" "\<not> s_cancelled sub" "chan_room (s_ch sub)"
  shows "\<exists>sub'. mget (n_subs st') k = Some sub' \<and> ch_buf (s_ch sub') = ch_buf (s_ch sub) @ [m]"
proof -
  have "k \<in> mdom (mget0 (n_myTopics st) topic)" using subs_okD(2) [OF assms(2,4)] assms(5,6) by (simp add: sub_ok_def)
  moreover have "mget (n_subs st') k = Some (delivered st m k sub)"
    using assms(1,4) by (auto simp: forwards_def Let_def router_frame_def)
  ultimately show ?thesis
    using assms(3,5,7) by (simp add: delivered_def deliver_times_def Let_def chan_room_def)
qed

text \<open>The node's part: the message waits in the neighbour's queue.\<close>

lemma flood_queues:
  fixes st :: "('s, MapBlacklist, 'z floodsub_ext) node_scheme"
  assumes "forwards floodsub_router tc src m st st'" "peers_ok st"
    and "mget (n_peers st) j = Some ch" "ch_buf ch = []" "0 < ch_cap ch"
    and "j \<in> subscribers st m" "j \<noteq> src" "j \<noteq> GetFrom m"
  shows "\<exists>ch'. mget (n_peers st') j = Some ch' \<and> ch_buf ch' = [rpcWithMessages [m]]"
proof -
  obtain H where p: "rt_Publish floodsub_router src m
      (st\<lparr>n_seen := tc_Add tc (msgID m) (n_seen st), n_published := n_published st @ [m], n_subs := H\<rparr>) = Some st'"
    using assms(1) by (auto simp: forwards_def Let_def)
  let ?s = "st\<lparr>n_seen := tc_Add tc (msgID m) (n_seen st), n_published := n_published st @ [m], n_subs := H\<rparr>"
  have "peers_ok ?s" using assms(2) by (simp add: peers_ok_def)
  from fs_Publish_spec [OF this, of src m] p
  have "outbox st' j = (if j \<in> subscribers ?s m \<and> j \<noteq> src \<and> j \<noteq> GetFrom m \<and> has_room ?s j
      then outbox ?s j @ [rpcWithMessages [m]] else outbox ?s j)" by (auto simp: floodsub_router_def)
  moreover have "j \<in> subscribers ?s m" "has_room ?s j" "outbox ?s j = []"
    using assms(3-6) by (simp_all add: subscribers_def has_room_def outbox_def chan_room_def)
  ultimately have "outbox st' j = [rpcWithMessages [m]]" using assms(7,8) by simp
  then show ?thesis by (auto simp: outbox_def split: option.splits)
qed

text \<open>The neighbour's part: the RPC that carries the message puts it through.\<close>

lemma reads_message:
  assumes "pushMsg floodsub_router bl tc i m b = Some s" "subscribedToMsg m b"
  shows "loop_turn floodsub_router bl tc hb (Incoming (from_remote i (pb_RPC.truncate (rpcWithMessages [m])))) b = Some s"
  using assms
  by (simp add: loop_turn_def handleIncomingRPC_def from_remote_def rpcWithMessages_def pb_RPC.defs floodsub_router_def)

lemma net_receives:
  fixes n :: "('s, 'b, 'z floodsub_ext) network"
  assumes "net_wire n = add_mset (i, j, pb_RPC.truncate (rpcWithMessages [m])) w" "net_nodes n j = Some b" "subscribedToMsg m b"
    and "goes_through floodsub_router bl tc cr i m b b4"
  shows "net_steps floodsub_router bl tc hb cr forget n (put_node j b4 n\<lparr>net_wire := w\<rparr>)"
proof -
  obtain b1 b2 b3 where b: "pushMsg floodsub_router bl tc i m b = Some b1" "validateWorker tc (verified cr) b1 = Some b2"
      "send_waiting 0 b2 = Some b3" "onSendMsg floodsub_router b3 = Some b4" using assms(4) unfolding goes_through_def by blast
  let ?n = "put_node j b1 n\<lparr>net_wire := w\<rparr>"
  have "net_step floodsub_router bl tc hb cr forget n ?n"
    by (rule net_step.reads [OF assms(1,2) reads_message [OF b(1) assms(3)]])
  moreover have "net_steps floodsub_router bl tc hb cr forget ?n (put_node j b4 ?n)"
    by (rule net_through [OF b(2-4)]) simp
  moreover have "put_node j b4 ?n = put_node j b4 n\<lparr>net_wire := w\<rparr>" by (simp add: put_node_def)
  ultimately show ?thesis by simp
qed

text \<open>The user's call and the loop, up to the router.\<close>

lemma net_publishes:
  fixes n :: "('s, 'b, 'z) network"
  assumes "net_nodes n i = Some a" "Publish cr topic data a = (Some (Inr m), a')" "n_host a' = i"
    and "goes_through rt bl tc cr i m a' a4"
  shows "net_steps rt bl tc hb cr forget n (put_node i a4 n\<lparr>net_said := insert (i, m) (net_said n)\<rparr>)"
proof -
  let ?R = "net_step rt bl tc hb cr forget"
  obtain a1 a2 a3 where a: "pushMsg rt bl tc i m a' = Some a1" "validateWorker tc (verified cr) a1 = Some a2"
      "send_waiting 0 a2 = Some a3" "onSendMsg rt a3 = Some a4" using assms(4) unfolding goes_through_def by blast
  let ?n1 = "put_node i a' n\<lparr>net_asked := add_mset (i, m) (net_asked n), net_said := insert (i, m) (net_said n)\<rparr>"
  let ?n2 = "put_node i a1 ?n1\<lparr>net_asked := net_asked n\<rparr>"
  have "?R n ?n1" by (rule net_step.asks [OF assms(1,2)])
  moreover have "?R ?n1 ?n2"
    by (rule net_step.takes [where st = a' and m = m]) (simp_all add: loop_turn_def assms(3) a(1))
  moreover have "?R\<^sup>*\<^sup>* ?n2 (put_node i a4 ?n2)" by (rule net_through [OF a(2-4)]) simp
  moreover have "put_node i a4 ?n2 = put_node i a4 n\<lparr>net_said := insert (i, m) (net_said n)\<rparr>" by (simp add: put_node_def)
  ultimately show ?thesis by (simp add: converse_rtranclp_into_rtranclp)
qed

lemma flood_host:
  assumes "flood_network tc cr forget n0 n" "net_nodes n i = Some st" shows "n_host st = i"
proof -
  obtain st0 where "net_nodes n0 i = Some st0"
    using assms net_steps_nodes unfolding flood_network_def by (metis not_Some_eq)
  moreover have "pi_author (pipe_of st) = auth_of n0 i"
    using net_invD(1) [OF flood_net_inv [OF assms(1)] assms(2)]
    by (simp add: node_within_def good_def node_inv_def pipe_from_def)
  ultimately show ?thesis using flood_net_fresh [OF assms(1)] by (simp add: auth_of_def net_fresh_def)
qed

text \<open>
  \<open>flood_ready m src next st\<close>: the node will put \<open>m\<close> through when it gets it from \<open>src\<close>, and knows that \<open>next\<close>, if
  any, is in a topic of the message and has an empty queue to it. \<open>path_ready\<close>: so do all nodes of a path.
\<close>

definition flood_ready ::
  "'s seen_methods \<Rightarrow> pb_Message \<Rightarrow> peer \<Rightarrow> peer option \<Rightarrow> ('s, MapBlacklist, 'z floodsub_ext) node_scheme \<Rightarrow> bool" where
  "flood_ready tc m src next st \<longleftrightarrow>
     pipe_idle st \<and> getValidators m (n_val st) = [] \<and> \<not> rejected map_blacklist tc src m st \<and>
     (case next of None \<Rightarrow> True
      | Some j \<Rightarrow> j \<noteq> src \<and> j \<noteq> GetFrom m \<and> j \<in> subscribers st m \<and> (\<exists>ch. mget (n_peers st) j = Some ch \<and> ch_buf ch = [] \<and> 0 < ch_cap ch))"

definition first :: "'a list \<Rightarrow> 'a option" where
  "first xs = (case xs of [] \<Rightarrow> None | x # _ \<Rightarrow> Some x)"

fun path_ready ::
  "'s seen_methods \<Rightarrow> pb_Message \<Rightarrow> ('s, MapBlacklist, 'z floodsub_ext) network \<Rightarrow> peer \<Rightarrow> peer list \<Rightarrow> bool" where
  "path_ready tc m n src [] = True"
| "path_ready tc m n src (i # is) =
     ((case net_nodes n i of None \<Rightarrow> False | Some st \<Rightarrow> subscribedToMsg m st \<and> flood_ready tc m src (first is) st) \<and>
      path_ready tc m n i is)"

lemma path_ready_cong:
  "(\<And>i. i \<in> set is \<Longrightarrow> net_nodes n' i = net_nodes n i) \<Longrightarrow> path_ready tc m n' src is = path_ready tc m n src is"
  by (induction "is" arbitrary: src) auto

text \<open>The message was published by the node, and each open subscription of its topic with room got it.\<close>

definition got :: "pb_Message \<Rightarrow> ('s, 'b, 'z) node_scheme \<Rightarrow> ('s, 'b, 'z) node_scheme \<Rightarrow> bool" where
  "got m st st' \<longleftrightarrow> n_published st' = n_published st @ [m] \<and>
     (\<forall>k sub. mget (n_subs st) k = Some sub \<longrightarrow> m_TopicIDs m = [s_topic sub] \<longrightarrow> \<not> s_cancelled sub \<longrightarrow> chan_room (s_ch sub) \<longrightarrow>
        (\<exists>sub'. mget (n_subs st') k = Some sub' \<and> ch_buf (s_ch sub') = ch_buf (s_ch sub) @ [m]))"

lemma forwards_got:
  assumes "forwards rt tc src m st st'" "good bl J I st" shows "got m st st'"
proof -
  have "subs_ok (n_subs st) (n_myTopics st)" using assms(2) by (simp add: good_def node_inv_def)
  with assms(1) show ?thesis using forwards_published forwards_delivers unfolding got_def by blast
qed

lemma got_same: "got m st st' \<Longrightarrow> n_published st'' = n_published st' \<Longrightarrow> n_subs st'' = n_subs st' \<Longrightarrow> got m st st''"
  by (simp add: got_def)

text \<open>A ready node that gets the message: it puts it through, and into the queue to the next.\<close>

lemma flood_hop:
  assumes "good map_blacklist pipe_ok (\<lambda>_. True) st" "flood_ready tc m src next st" "m_Signature m \<noteq> None" "verified cr m"
  shows "\<exists>st'. goes_through floodsub_router map_blacklist tc cr src m st st' \<and> got m st st' \<and>
    (\<forall>j. next = Some j \<longrightarrow> (\<exists>q. mget (n_peers st') j = Some q \<and> ch_buf q = [rpcWithMessages [m]]))"
proof -
  have r: "pipe_idle st" "getValidators m (n_val st) = []" "\<not> rejected map_blacklist tc src m st"
    using assms(2) by (auto simp: flood_ready_def)
  from flood_node.gets_through [OF assms(1) r(1,3) assms(3,4) r(2)] obtain st' where
    "goes_through floodsub_router map_blacklist tc cr src m st st'" and fw: "forwards floodsub_router tc src m st st'" by blast
  moreover have "\<exists>q. mget (n_peers st') j = Some q \<and> ch_buf q = [rpcWithMessages [m]]" if "next = Some j" for j
    using flood_queues [OF fw good_peers_ok [OF assms(1)]] assms(2) that by (auto simp: flood_ready_def)
  ultimately show ?thesis using forwards_got [OF fw assms(1)] by blast
qed

lemma flood_network_steps:
  "flood_network tc cr forget n0 n \<Longrightarrow> net_steps floodsub_router map_blacklist tc Some cr forget n n' \<Longrightarrow>
     flood_network tc cr forget n0 n'"
  unfolding flood_network_def by (blast intro: rtranclp_trans)

lemma flood_network_good:
  "flood_network tc cr forget n0 n \<Longrightarrow> net_nodes n i = Some st \<Longrightarrow> good map_blacklist pipe_ok (\<lambda>_. True) st"
  by (rule within_good [OF net_invD(1) [OF flood_net_inv]])

text \<open>One link: the writer of \<open>x\<close>, the stream, and the ready neighbour \<open>y\<close>.\<close>

lemma flood_link:
  assumes "flood_network tc cr forget n0 n" "net_nodes n x = Some a" "mget (n_peers a) y = Some q" "ch_buf q = [rpcWithMessages [m]]"
    and "path_ready tc m n x (y # ys)" "x \<noteq> y" "m_Signature m \<noteq> None" "verified cr m"
  defines "sent \<equiv> put_node x (a\<lparr>n_peers := mput y (q\<lparr>ch_buf := []\<rparr>) (n_peers a)\<rparr>) n"
  shows "\<exists>b b'. net_nodes n y = Some b \<and> got m b b' \<and>
    net_steps floodsub_router map_blacklist tc Some cr forget n (put_node y b' sent) \<and>
    (\<forall>j. first ys = Some j \<longrightarrow> (\<exists>q. mget (n_peers b') j = Some q \<and> ch_buf q = [rpcWithMessages [m]]))"
proof -
  let ?net = "net_steps floodsub_router map_blacklist tc Some cr forget"
  obtain b where b: "net_nodes n y = Some b" "subscribedToMsg m b" "flood_ready tc m x (first ys) b"
    using assms(5) by (auto split: option.splits)
  from flood_hop [OF flood_network_good [OF assms(1) b(1)] b(3) assms(7,8)] obtain b' where
    b': "goes_through floodsub_router map_blacklist tc cr x m b b'" "got m b b'"
      "\<forall>j. first ys = Some j \<longrightarrow> (\<exists>q. mget (n_peers b') j = Some q \<and> ch_buf q = [rpcWithMessages [m]])" by blast
  let ?n1 = "sent\<lparr>net_wire := add_mset (x, y, pb_RPC.truncate (rpcWithMessages [m])) (net_wire n)\<rparr>"
  have "net_step floodsub_router map_blacklist tc Some cr forget n ?n1"
    unfolding sent_def by (rule net_step.writes [OF assms(2-4)])
  moreover have "?net ?n1 (put_node y b' ?n1\<lparr>net_wire := net_wire n\<rparr>)"
    by (rule net_receives [OF _ _ b(2) b'(1)]) (use b(1) assms(6) in \<open>simp_all add: sent_def\<close>)
  moreover have "put_node y b' ?n1\<lparr>net_wire := net_wire n\<rparr> = put_node y b' sent" by (simp add: put_node_def sent_def)
  ultimately have "?net n (put_node y b' sent)" by (simp add: converse_rtranclp_into_rtranclp)
  with b(1) b'(2,3) show ?thesis by blast
qed

text \<open>From the queue of one node, along a path of ready nodes; the others are not touched.\<close>

lemma flood_path:
  assumes "flood_network tc cr forget n0 n" "net_nodes n x = Some a" "mget (n_peers a) y = Some q" "ch_buf q = [rpcWithMessages [m]]"
    and "path_ready tc m n x (y # ys)" "distinct (x # y # ys)" "m_Signature m \<noteq> None" "verified cr m"
  shows "\<exists>n' a'. net_steps floodsub_router map_blacklist tc Some cr forget n n' \<and>
    net_nodes n' x = Some a' \<and> n_published a' = n_published a \<and> n_subs a' = n_subs a \<and>
    (\<forall>z \<in> set (y # ys). \<exists>b b'. net_nodes n z = Some b \<and> net_nodes n' z = Some b' \<and> got m b b') \<and>
    (\<forall>z. z \<notin> set (x # y # ys) \<longrightarrow> net_nodes n' z = net_nodes n z)"
  using assms
proof (induction ys arbitrary: n x a y q)
  case (Nil n x a y q)
  let ?a = "a\<lparr>n_peers := mput y (q\<lparr>ch_buf := []\<rparr>) (n_peers a)\<rparr>"
  have "x \<noteq> y" using Nil(6) by simp
  from flood_link [OF Nil(1-5) this Nil(7,8)] obtain b b' where "net_nodes n y = Some b" "got m b b'"
    "net_steps floodsub_router map_blacklist tc Some cr forget n (put_node y b' (put_node x ?a n))" by blast
  then show ?case using Nil(6) by (intro exI [of _ "put_node y b' (put_node x ?a n)"]) auto
next
  case (Cons z ys n x a y q)
  let ?a = "a\<lparr>n_peers := mput y (q\<lparr>ch_buf := []\<rparr>) (n_peers a)\<rparr>"
  have ne: "x \<noteq> y" "x \<notin> set (z # ys)" "y \<notin> set (z # ys)" and d: "distinct (y # z # ys)" using Cons.prems(6) by auto
  from flood_link [OF Cons.prems(1-5) ne(1) Cons.prems(7,8)] obtain b b' q' where b: "net_nodes n y = Some b" "got m b b'"
      "net_steps floodsub_router map_blacklist tc Some cr forget n (put_node y b' (put_node x ?a n))"
    and q': "mget (n_peers b') z = Some q'" "ch_buf q' = [rpcWithMessages [m]]" by (auto simp: first_def)
  let ?n = "put_node y b' (put_node x ?a n)"
  have same: "net_nodes ?n w = net_nodes n w" if "w \<noteq> x" "w \<noteq> y" for w using that by simp
  have path: "path_ready tc m ?n y (z # ys)"
    using Cons.prems(5) ne same by (subst path_ready_cong [where n = n]) (auto split: option.splits)
  have "net_nodes ?n y = Some b'" by simp
  from Cons.IH [OF flood_network_steps [OF Cons.prems(1) b(3)] this q' path d Cons.prems(7,8)]
  obtain n' b'' where n': "net_steps floodsub_router map_blacklist tc Some cr forget ?n n'" "net_nodes n' y = Some b''"
    "n_published b'' = n_published b'" "n_subs b'' = n_subs b'"
    "\<forall>w \<in> set (z # ys). \<exists>b b'. net_nodes ?n w = Some b \<and> net_nodes n' w = Some b' \<and> got m b b'"
    "\<forall>w. w \<notin> set (y # z # ys) \<longrightarrow> net_nodes n' w = net_nodes ?n w" by blast
  have "got m b b''" by (rule got_same [OF b(2) n'(3,4)])
  then have all: "\<forall>w \<in> set (y # z # ys). \<exists>b b'. net_nodes n w = Some b \<and> net_nodes n' w = Some b' \<and> got m b b'"
    using n'(2,5) b(1) ne same by (metis set_ConsD)
  have "net_nodes n' x = Some ?a" using n'(6) ne by auto
  moreover have "\<forall>w. w \<notin> set (x # y # z # ys) \<longrightarrow> net_nodes n' w = net_nodes n w" using n'(6) same by simp
  moreover have "net_steps floodsub_router map_blacklist tc Some cr forget n n'" using b(3) n'(1) by (rule rtranclp_trans)
  ultimately show ?case using all by (intro exI [of _ n'] exI [of _ ?a]) simp
qed

text \<open>
  C8: a message crosses the network: when the user of a floodsub node publishes, and along a path of nodes that
  subscribe to the topic each is idle, does not refuse the message and knows that the next node of the path
  is in the topic and has an empty queue to it, then there is a run of the network in which every node of
  the path publishes the message next, and every open subscription to the topic with room has it.
\<close>

theorem message_floods_path:
  assumes net: "flood_network tc cr forget n0 n" "net_nodes n i = Some a"
    and m: "Publish cr topic data a = (Some (Inr m), a')" "m_Signature m \<noteq> None" "verifyMessageSignature cr m = Some (Inr ())"
    and ready: "flood_ready tc m i (first is) a" "path_ready tc m n i is" "distinct (i # is)"
  shows "\<exists>n'. net_steps floodsub_router map_blacklist tc Some cr forget n n' \<and>
    (\<forall>j \<in> set (i # is). \<exists>b b'. net_nodes n j = Some b \<and> net_nodes n' j = Some b' \<and> got m b b')"
proof -
  have a': "a' = a\<lparr>n_counter := n_counter a + 1\<rparr>" using Publish_message [OF m(1)] by simp
  have v: "verified cr m" using m(3) by (simp add: verified_def)
  have host: "n_host a' = i" using flood_host [OF net] by (simp add: a')
  have "good map_blacklist pipe_ok (\<lambda>_. True) a'"
    by (rule flood_node.goroutine_good [OF goroutine_step.published [OF m(1)] flood_network_good [OF net]])
  moreover have "flood_ready tc m i (first is) a'"
    using ready(1) by (simp add: a' flood_ready_def pipe_idle_def rejected_def subscribers_def split: option.splits)
  ultimately obtain a4 where a4: "goes_through floodsub_router map_blacklist tc cr i m a' a4" "got m a' a4"
    "\<forall>j. first is = Some j \<longrightarrow> (\<exists>q. mget (n_peers a4) j = Some q \<and> ch_buf q = [rpcWithMessages [m]])"
    using flood_hop [OF _ _ m(2) v] by blast
  let ?n = "put_node i a4 n\<lparr>net_said := insert (i, m) (net_said n)\<rparr>"
  have run: "net_steps floodsub_router map_blacklist tc Some cr forget n ?n" by (rule net_publishes [OF net(2) m(1) host a4(1)])
  have got: "got m a a4" using a4(2) by (simp add: a' got_def)
  show ?thesis
  proof (cases "is")
    case Nil
    with run got net(2) show ?thesis by (intro exI [of _ ?n]) simp
  next
    case (Cons j js)
    then obtain q where q: "mget (n_peers a4) j = Some q" "ch_buf q = [rpcWithMessages [m]]" using a4(3) by (auto simp: first_def)
    have same: "net_nodes ?n k = net_nodes n k" if "k \<noteq> i" for k using that by simp
    have "path_ready tc m ?n i (j # js)"
      using ready(2,3) same Cons by (subst path_ready_cong [where n = n]) auto
    moreover have "net_nodes ?n i = Some a4" by simp
    ultimately obtain n' a5 where n': "net_steps floodsub_router map_blacklist tc Some cr forget ?n n'" "net_nodes n' i = Some a5"
      "n_published a5 = n_published a4" "n_subs a5 = n_subs a4"
      "\<forall>k \<in> set (j # js). \<exists>b b'. net_nodes ?n k = Some b \<and> net_nodes n' k = Some b' \<and> got m b b'"
      using flood_path [OF flood_network_steps [OF net(1) run] _ q _ _ m(2) v, of i js] ready(3) Cons by blast
    have "net_steps floodsub_router map_blacklist tc Some cr forget n n'" using run n'(1) by (rule rtranclp_trans)
    moreover have "got m a a5" by (rule got_same [OF got n'(3,4)])
    moreover have "\<exists>b b'. net_nodes n k = Some b \<and> net_nodes n' k = Some b' \<and> got m b b'" if k: "k \<in> set (j # js)" for k
    proof -
      have "k \<noteq> i" using k ready(3) Cons by auto
      from n'(5) k same [OF this] show ?thesis by metis
    qed
    ultimately show ?thesis using n'(2) net(2) Cons by (intro exI [of _ n']) auto
  qed
qed

section \<open>Two nodes\<close>

text \<open>The nodes 7 and 8; 8 subscribes to \<open>art\<close>, they connect, and the hello packet of 8 arrives.\<close>

definition art :: "topic" where "art = str ''art''"

definition new_flood :: "peer \<Rightarrow> (unit, MapBlacklist) floodsub" where
  "new_flood i = newPS (sample_env\<lparr>e_host := (e_host sample_env)\<lparr>h_ID := i\<rparr>\<rparr>) (floodsub.fields [FloodSubID])"

definition pair :: "('s, 'b, 'z) node_scheme \<Rightarrow> ('s, 'b, 'z) node_scheme \<Rightarrow> (peer \<times> peer \<times> pb_RPC) multiset \<Rightarrow> ('s, 'b, 'z) network" where
  "pair a b w = \<lparr>net_nodes = [[7] \<mapsto> a, [8] \<mapsto> b], net_wire = w, net_asked = {#}, net_said = {}\<rparr>"

lemma put_pair [simp]:
  "put_node [7] a' (pair a b w) = pair a' b w" "put_node [8] b' (pair a b w) = pair a b' w"
  "net_nodes (pair a b w) [7] = Some a" "net_nodes (pair a b w) [8] = Some b" "net_wire (pair a b w) = w"
  "pair a b w\<lparr>net_wire := w'\<rparr> = pair a b w'"
  by (simp_all add: pair_def put_node_def fun_eq_iff)

lemma new_flood_created: "NewFloodSub (sample_env\<lparr>e_host := (e_host sample_env)\<lparr>h_ID := i\<rparr>\<rparr>) [] =
    (if length i = 1 then Some (Inr (new_flood i, [FloodSubID], 4)) else Some (Inl StrictWithoutKey))"
  by (simp add: NewFloodSub_def NewFloodsubWithProtocols_def NewPubSub_def new_flood_def newPS_def newValidation_def sample_env_def
      floodsub_router_def floodsub.defs)

definition connected8 :: "RPC list \<Rightarrow> (unit, MapBlacklist) floodsub" where
  "connected8 rpcs = (new_flood [8])
     \<lparr>n_subs := mput 0 (newSubscription art) mempty, n_myTopics := mput art (mput 0 () mempty) mempty,
      n_spawned := [[7]], n_peers := mput [7] ((make_chan 32)\<lparr>ch_buf := rpcs\<rparr>) mempty\<rparr>"

definition connected7 :: "RPC list \<Rightarrow> (unit, MapBlacklist) floodsub" where
  "connected7 rpcs = (new_flood [7])\<lparr>n_spawned := [[8]], n_peers := mput [8] ((make_chan 32)\<lparr>ch_buf := rpcs\<rparr>) mempty\<rparr>"

definition told7 :: "(unit, MapBlacklist) floodsub" where
  "told7 = (connected7 [])\<lparr>n_topics := mput art (mput [8] () mempty) (mput art mempty mempty)\<rparr>"

lemma new_flood_sel [simp]:
  "n_peers (new_flood i) = mempty" "n_subs (new_flood i) = mempty" "n_myTopics (new_flood i) = mempty"
  "n_topics (new_flood i) = mempty" "n_blacklist (new_flood i) = NewMapBlacklist" "n_choices (new_flood i) = []"
  "n_spawned (new_flood i) = []"
  by (simp_all add: new_flood_def newPS_def sample_env_def)

lemma connecting:
  "\<exists>s. loop_turn floodsub_router map_blacklist tc Some (AddSub art) (new_flood [8]) = Some s \<and>
     loop_turn floodsub_router map_blacklist tc Some (NewPeer [7]) s = Some (connected8 [rpcWithSubs [mkSubOpts art True]])"
  "loop_turn floodsub_router map_blacklist tc Some (NewPeer [8]) (new_flood [7]) = Some (connected7 [rpcWithSubs []])"
  "loop_turn floodsub_router map_blacklist tc Some (Incoming (from_remote [8] (pb_RPC.truncate (rpcWithSubs [mkSubOpts art True]))))
     (connected7 []) = Some told7"
  by (simp_all add: loop_turn_def handleAddSubscription_def announce_def onNewPeers_def spawn_writer_def getHelloPacket_def
      handleIncomingRPC_def handle_subopt_def notify_topic_def range_over_def draw_def insert_at_def mkeys_def mget0_def Let_def
      newSubscription_def mkSubOpts_def GetSubscribe_def GetTopicid_def rpcWithSubs_def from_remote_def pb_RPC.defs floodsub_router_def
      map_blacklist_def MapBlacklist_Contains_def NewMapBlacklist_def connected8_def connected7_def told7_def
      new_flood_def newPS_def sample_env_def)

definition hellos :: "(peer \<times> peer \<times> pb_RPC) multiset" where
  "hellos = {#([7], [8], pb_RPC.truncate (rpcWithSubs []))#}"

lemma pair_network:
  "flood_network tc cr forget (pair (new_flood [7]) (new_flood [8]) {#}) (pair told7 (connected8 []) hellos)"
proof -
  let ?R = "net_step floodsub_router map_blacklist tc Some cr forget"
  let ?h = "pb_RPC.truncate (rpcWithSubs [mkSubOpts art True])"
  have write7: "?R (pair (connected7 (rpc # rpcs)) b w) (pair (connected7 rpcs) b (add_mset ([7], [8], pb_RPC.truncate rpc) w))" for rpc rpcs b w
    using net_step.writes [of "pair (connected7 (rpc # rpcs)) b w" "[7]" "connected7 (rpc # rpcs)" "[8]"
        "(make_chan 32)\<lparr>ch_buf := rpc # rpcs\<rparr>" rpc rpcs floodsub_router map_blacklist tc Some cr forget]
    by (simp add: connected7_def)
  have write8: "?R (pair a (connected8 (rpc # rpcs)) w) (pair a (connected8 rpcs) (add_mset ([8], [7], pb_RPC.truncate rpc) w))" for rpc rpcs a w
    using net_step.writes [of "pair a (connected8 (rpc # rpcs)) w" "[8]" "connected8 (rpc # rpcs)" "[7]"
        "(make_chan 32)\<lparr>ch_buf := rpc # rpcs\<rparr>" rpc rpcs floodsub_router map_blacklist tc Some cr forget]
    by (simp add: connected8_def)
  have turn7: "?R (pair a b w) (pair a' b w)"
    if "loop_turn floodsub_router map_blacklist tc Some ev a = Some a'" "internal ev" "valid_event a ev" for a a' b ev w
    using net_step.turns [of "pair a b w" "[7]" a ev floodsub_router map_blacklist tc Some a' cr forget] that by simp
  have turn8: "?R (pair a b w) (pair a b' w)"
    if "loop_turn floodsub_router map_blacklist tc Some ev b = Some b'" "internal ev" "valid_event b ev" for a b b' ev w
    using net_step.turns [of "pair a b w" "[8]" b ev floodsub_router map_blacklist tc Some b' cr forget] that by simp
  obtain s where s: "loop_turn floodsub_router map_blacklist tc Some (AddSub art) (new_flood [8]) = Some s"
     "loop_turn floodsub_router map_blacklist tc Some (NewPeer [7]) s = Some (connected8 [rpcWithSubs [mkSubOpts art True]])"
    using connecting(1) by blast
  have ev: "internal (AddSub art)" "internal (NewPeer p)" "valid_event b (AddSub art)" "valid_event b (NewPeer p)" for p b
    by (simp_all add: internal_def valid_event_def)
  let ?b = "connected8 [rpcWithSubs [mkSubOpts art True]]"
  have 1: "?R (pair (new_flood [7]) (new_flood [8]) {#}) (pair (new_flood [7]) s {#})" by (rule turn8 [OF s(1) ev(1,3)])
  have 2: "?R (pair (new_flood [7]) s {#}) (pair (new_flood [7]) ?b {#})" by (rule turn8 [OF s(2) ev(2,4)])
  have 3: "?R (pair (new_flood [7]) ?b {#}) (pair (connected7 [rpcWithSubs []]) ?b {#})"
    by (rule turn7 [OF connecting(2) ev(2,4)])
  have 4: "?R (pair (connected7 [rpcWithSubs []]) ?b {#}) (pair (connected7 []) ?b hellos)"
    unfolding hellos_def by (rule write7)
  have 5: "?R (pair (connected7 []) ?b hellos) (pair (connected7 []) (connected8 []) (add_mset ([8], [7], ?h) hellos))"
    by (rule write8)
  have 6: "?R (pair (connected7 []) (connected8 []) (add_mset ([8], [7], ?h) hellos)) (pair told7 (connected8 []) hellos)"
    using net_step.reads [OF _ _ connecting(3), of "pair (connected7 []) (connected8 []) (add_mset ([8], [7], ?h) hellos)" "[7]" hellos]
    by simp
  note more = converse_rtranclp_into_rtranclp [where r = ?R]
  have "?R\<^sup>*\<^sup>* (pair (new_flood [7]) (new_flood [8]) {#}) (pair told7 (connected8 []) hellos)"
    by (rule more [OF 1 more [OF 2 more [OF 3 more [OF 4 more [OF 5 r_into_rtranclp [where r = ?R, OF 6]]]]]])
  moreover have "net_started NewFloodSub (pair (new_flood [7]) (new_flood [8]) {#})"
    using new_flood_created [of "[7]"] new_flood_created [of "[8]"]
    by (fastforce simp: net_started_def pair_def split: if_splits)
  ultimately show ?thesis by (simp add: flood_network_def)
qed

text \<open>What the user of node 7 publishes.\<close>

lemma pair_message:
  obtains m where "Publish sample_crypto art (Some [1]) told7 = (Some (Inr m), told7\<lparr>n_counter := 1001\<rparr>)"
    "m_Signature m \<noteq> None" "verifyMessageSignature sample_crypto m = Some (Inr ())" "GetFrom m = [7]"
    "m_TopicIDs m = [art]" "m_Data m = Some [1]"
proof -
  have id: "n_signKey told7 = Some 7" "author_of told7 = [7]" "n_counter told7 = 1000"
    by (simp_all add: told7_def connected7_def new_flood_def newPS_def sample_env_def author_of_def)
  obtain m p where m: "Publish sample_crypto art (Some [1]) told7 = (Some (Inr m), p)"
    by (simp add: Publish_def nextSeqno_def Let_def signMessage_def Marshal_eq sample_crypto_def told7_def connected7_def
        new_flood_def newPS_def sample_env_def)
  have keys: "\<forall>key. n_signKey told7 = Some key \<longrightarrow> h_PrivKey (e_host sample_env) (author_of told7) = Some key"
    by (simp add: id) (simp add: sample_env_def)
  note v = own_message_verifies [OF sample_crypto_ok sample_keys keys m] and f = Publish_message [OF m]
  have "p = told7\<lparr>n_counter := 1001\<rparr>" using f id(3) by simp
  with m v f id show thesis by (intro that [of m]) (auto simp: GetFrom_def bytes_of_def)
qed

theorem message_floods_path_witness:
  "\<exists>n0 n m n' b'. flood_network sample_tc sample_crypto (=) n0 n \<and>
     net_steps floodsub_router map_blacklist sample_tc Some sample_crypto (=) n n' \<and> net_nodes n' [8] = Some b' \<and>
     m_Data m = Some [1] \<and> (\<exists>sub'. mget (n_subs b') 0 = Some sub' \<and> ch_buf (s_ch sub') = [m])"
proof -
  obtain m where m: "Publish sample_crypto art (Some [1]) told7 = (Some (Inr m), told7\<lparr>n_counter := 1001\<rparr>)"
    "m_Signature m \<noteq> None" "verifyMessageSignature sample_crypto m = Some (Inr ())" "GetFrom m = [7]"
    "m_TopicIDs m = [art]" "m_Data m = Some [1]" by (rule pair_message)
  let ?n = "pair told7 (connected8 []) hellos"
  have idle: "pipe_idle told7" "pipe_idle (connected8 [])" "n_val told7 = newValidation 4" "n_val (connected8 []) = newValidation 4"
    by (simp_all add: pipe_idle_def told7_def connected7_def connected8_def new_flood_def newPS_def newValidation_def make_chan_def sample_env_def)
  have new: "\<not> rejected map_blacklist sample_tc [7] m told7" "\<not> rejected map_blacklist sample_tc [7] m (connected8 [])"
    using m(2) by (simp_all add: rejected_def map_blacklist_def MapBlacklist_Contains_def NewMapBlacklist_def sample_tc_def
      told7_def connected7_def connected8_def)
  have link: "mget (n_peers told7) [8] = Some (make_chan 32)" "[8] \<in> subscribers told7 m"
    by (simp_all add: told7_def connected7_def mget0_update subscribers_def m(5) make_chan_def)
  have ready: "flood_ready sample_tc m [7] (first [[8]]) told7"
    using idle new link newValidation_plain m(4) by (simp add: flood_ready_def first_def make_chan_def)
  have path: "path_ready sample_tc m ?n [7] [[8]]"
    using idle new newValidation_plain by (simp add: flood_ready_def first_def) (simp add: subscribedToMsg_def connected8_def m(5))
  have sub: "mget (n_subs (connected8 [])) 0 = Some (newSubscription art)" by (simp add: connected8_def)
  have s: "m_TopicIDs m = [s_topic (newSubscription art)]" "\<not> s_cancelled (newSubscription art)" "chan_room (s_ch (newSubscription art))"
    "ch_buf (s_ch (newSubscription art)) = []"
    by (simp_all add: newSubscription_def make_chan_def chan_room_def m(5))
  have node: "net_nodes ?n [7] = Some told7" by simp
  from message_floods_path [OF pair_network [of sample_tc sample_crypto "(=)"] node m(1-3) ready path]
  obtain n' b' where n': "net_steps floodsub_router map_blacklist sample_tc Some sample_crypto (=) ?n n'"
    "net_nodes n' [8] = Some b'" "got m (connected8 []) b'" by auto
  then have "\<exists>sub'. mget (n_subs b') 0 = Some sub' \<and> ch_buf (s_ch sub') = [m]"
    using sub s unfolding got_def by fastforce
  with n' pair_network [of sample_tc sample_crypto "(=)"] m(6) show ?thesis
    by (intro exI [of _ "pair (new_flood [7]) (new_flood [8]) {#}"] exI [of _ ?n] exI [of _ m] exI [of _ n'] exI [of _ b']) simp
qed

text \<open>A gossipsub node of its own, whose user publishes.\<close>

theorem delivery_has_a_cause_witness:
  "\<exists>n0 n st m. gossip_network sample_tc sample_crypto (=) n0 n \<and> net_nodes n [7] = Some st \<and> n_published st = [m] \<and>
     (\<exists>j. (j, m) \<in> net_said n \<and> GetFrom m = [7])"
proof -
  let ?start = "\<lparr>net_nodes = [[7] \<mapsto> sample_state], net_wire = {#}, net_asked = {#}, net_said = {}\<rparr>"
  let ?st = "sample_state\<lparr>n_counter := 1001\<rparr>"
  obtain m where m: "Publish sample_crypto art (Some [1]) sample_state = (Some (Inr m), ?st)"
    by (simp add: Publish_def nextSeqno_def Let_def signMessage_def Marshal_eq sample_crypto_def sample_state_def newPS_def
        sample_env_def)
  have keys: "\<forall>key. n_signKey sample_state = Some key \<longrightarrow> h_PrivKey (e_host sample_env) (author_of sample_state) = Some key"
    "n_signKey sample_state \<noteq> None" "author_of sample_state = [7]"
    by (simp_all add: sample_state_def newPS_def sample_env_def author_of_def)
  note v = own_message_verifies [OF sample_crypto_ok sample_keys keys(1) m]
  have signed: "m_Signature m \<noteq> None" "verified sample_crypto m" using v keys(2) by (auto simp: verified_def)
  have "good map_blacklist pipe_ok gs_inv ?st"
    by (rule gossip_node.goroutine_good [OF goroutine_step.published [OF m] gossip_state_good [OF sample_gossip_state]])
  moreover have "pipe_idle ?st" "\<not> rejected map_blacklist sample_tc [7] m ?st" "getValidators m (n_val ?st) = []"
    using sample_idle newValidation_plain signed(1)
    by (simp_all add: pipe_idle_def rejected_def map_blacklist_def MapBlacklist_Contains_def NewMapBlacklist_def sample_tc_def)
  ultimately obtain st where st: "goes_through (gossipsub_router sample_tc) map_blacklist sample_tc sample_crypto [7] m ?st st"
    "forwards (gossipsub_router sample_tc) sample_tc [7] m ?st st"
    using gossip_node.gets_through [of ?st sample_tc "[7]" m sample_crypto] signed by blast
  let ?now = "put_node [7] st ?start\<lparr>net_said := insert ([7], m) (net_said ?start)\<rparr>"
  have "net_steps (gossipsub_router sample_tc) map_blacklist sample_tc heartbeat sample_crypto (=) ?start ?now"
    by (rule net_publishes [OF _ m _ st(1)]) (simp_all add: sample_idle)
  then have net: "gossip_network sample_tc sample_crypto (=) ?start ?now"
    using sample_created by (fastforce simp: gossip_network_def net_started_def sample_env_def split: if_splits)
  have pub: "n_published st = [m]" using forwards_published [OF st(2)] sample_idle(3) by simp
  have node: "net_nodes ?now [7] = Some st" by simp
  from delivery_has_a_cause [OF net node] pub obtain j st0 where
    "(j, m) \<in> net_said ?now" "net_nodes ?start j = Some st0" "GetFrom m = author_of st0" by fastforce
  with keys(3) net node pub show ?thesis by (intro exI [of _ ?start] exI [of _ ?now] exI [of _ st] exI [of _ m]) (auto split: if_splits)
qed

end
