(* ===== verification/Program.thy ===== *)
theory Program
  imports System
begin

text \<open>
  The language of the demo programs in \<open>src/*.go\<close>: what a \<open>main\<close> package does is call libraries, look at their
  answers, and start or stop. A program is a function of the world, which is what was done so far and the
  pubsub nodes that were created; it returns how it ended and the new world. What the libraries, the operating
  system and the other goroutines answer is the record \<open>libp2p\<close>: an answer may depend on everything done
  before, and all theorems quantify over it. Programs whose calls never come back are not covered, except
  where the program itself waits (\<open>select {}\<close>, a receive).

  \<open>log.Fatal\<close> ends the process without running deferred calls; a panic runs them.
\<close>

named_theorems wp_simps \<open>weakest preconditions of the program constructs\<close>

section \<open>The world\<close>

type_synonym multiaddr = string

datatype goerror =
  LibError string | SignError sign_error | OptionError option_error | SubscribeError subscribe_error

record AddrInfo =
  ai_ID :: peer
  ai_Addrs :: "multiaddr list"

text \<open>What is printed, before it is formatted.\<close>

datatype printed =
    Text string | Err goerror | Num int | PeerID peer | Address multiaddr | Bytes gostring
  | Topics "topic list" | Protocols "protocol list" | StreamNo nat

datatype effect =
    Log "printed list"
  | Print "printed list"
  | Sleep int
  | OpenHost peer
  | CloseHost peer
  | ConnectHost peer AddrInfo
  | SetStreamHandler peer protocol
  | NotifyHost peer
  | StartNode peer
  | SubscribeNode nat topic
  | ReadSubscription int nat nat
  | PublishOn nat topic gostring
  | NewGRPC peer
  | ServeHello peer bool
  | PingPeer peer
  | DialPeer peer
  | OpenConn nat
  | CloseConn nat
  | CallHello nat string
  | OpenStream peer protocol
  | WriteStream nat gostring
  | CloseStreamConn nat
  | CloseStream nat

type_synonym 's demo_node = "('s, MapBlacklist) floodsub"

record 's world =
  w_trace :: "effect list"
  w_nodes :: "'s demo_node list"

text \<open>The options of \<open>libp2p.New\<close> the programs use; an address or a key may be nil.\<close>

record host_config =
  hc_ListenAddrs :: "multiaddr option list"
  hc_Identity :: "nat option option"
  hc_Ping :: bool

datatype connectedness = IsNotConnected | IsConnected | CanConnect | CannotConnect

record 's libp2p =
  lp_Args :: "string list"
  lp_New :: "'s world \<Rightarrow> host_config \<Rightarrow> goerror + host"
  lp_Addrs :: "'s world \<Rightarrow> peer \<Rightarrow> multiaddr list"
  lp_Connect :: "'s world \<Rightarrow> peer \<Rightarrow> AddrInfo \<Rightarrow> goerror option"
  lp_Close :: "'s world \<Rightarrow> peer \<Rightarrow> goerror option"
  lp_Connectedness :: "'s world \<Rightarrow> peer \<Rightarrow> peer \<Rightarrow> connectedness"
  lp_MuxProtocols :: "'s world \<Rightarrow> peer \<Rightarrow> protocol list"
  lp_NewMultiaddr :: "string \<Rightarrow> goerror + multiaddr"
  lp_AddrInfoToP2pAddrs :: "AddrInfo \<Rightarrow> goerror + multiaddr list"
  lp_AddrInfoFromP2pAddr :: "multiaddr \<Rightarrow> goerror + AddrInfo"
  lp_IP4Value :: "multiaddr \<Rightarrow> string \<times> goerror option"
  lp_GenerateKeyPair :: "'s world \<Rightarrow> nat option"
  lp_MarshalPrivateKey :: "nat option \<Rightarrow> gostring option"
  lp_ConfigEncodeKey :: "gostring \<Rightarrow> string"
  lp_ConfigDecodeKey :: "string \<Rightarrow> gostring"
  lp_UnmarshalPrivateKey :: "gostring \<Rightarrow> nat option"
  lp_PingID :: protocol
  lp_PingReply :: "'s world \<Rightarrow> peer \<Rightarrow> int option"
  lp_Signal :: "'s world \<Rightarrow> bool"
  lp_NewStream :: "'s world \<Rightarrow> peer \<Rightarrow> protocol \<Rightarrow> goerror + nat"
  lp_Write :: "'s world \<Rightarrow> nat \<Rightarrow> gostring \<Rightarrow> goerror option"
  lp_CloseStreamConn :: "'s world \<Rightarrow> nat \<Rightarrow> goerror option"
  lp_Dial :: "'s world \<Rightarrow> peer \<Rightarrow> goerror + nat"
  lp_SayHello :: "'s world \<Rightarrow> nat \<Rightarrow> string \<Rightarrow> goerror + string"
  lp_IDB58Encode :: "peer \<Rightarrow> string"
  lp_IDB58Decode :: "string \<Rightarrow> peer \<times> goerror option"
  lp_ListenAndServe :: "'s world \<Rightarrow> string \<Rightarrow> goerror"
  lp_UnixNano :: "'s world \<Rightarrow> int"
  lp_numCPU :: int
  lp_choices :: "'s world \<Rightarrow> nat list"
  lp_timecache :: 's
  lp_seen :: "'s seen_methods"
  lp_crypto :: crypto
  lp_others :: "'s world \<Rightarrow> 's demo_node list"

section \<open>Programs\<close>

text \<open>How a program stops before its end: \<open>Unfinished\<close> is a loop that was observed for some turns only.\<close>

datatype stop = Panicking | Exited | Blocked | Unfinished

datatype 'a outcome = Done 'a | Stopped stop

type_synonym ('s, 'a) io = "'s world \<Rightarrow> 'a outcome \<times> 's world"

definition io_return :: "'a \<Rightarrow> ('s, 'a) io" where
  "io_return x w = (Done x, w)"

definition io_stop :: "stop \<Rightarrow> ('s, 'a) io" where
  "io_stop s w = (Stopped s, w)"

definition io_bind :: "('s, 'a) io \<Rightarrow> ('a \<Rightarrow> ('s, 'b) io) \<Rightarrow> ('s, 'b) io" where
  "io_bind m k w = (case m w of (Done x, w') \<Rightarrow> k x w' | (Stopped s, w') \<Rightarrow> (Stopped s, w'))"

definition io_then :: "('s, 'a) io \<Rightarrow> ('s, 'b) io \<Rightarrow> ('s, 'b) io" where
  "io_then m k = io_bind m (\<lambda>_. k)"

text \<open>A call: it is recorded, then answered.\<close>

definition emit :: "effect \<Rightarrow> ('s, unit) io" where
  "emit e w = (Done (), w\<lparr>w_trace := w_trace w @ [e]\<rparr>)"

definition ask :: "('s world \<Rightarrow> 'a) \<Rightarrow> ('s, 'a) io" where
  "ask f w = (Done (f w), w)"

definition io_call :: "effect \<Rightarrow> ('s world \<Rightarrow> 'a) \<Rightarrow> ('s, 'a) io" where
  "io_call e f = io_then (emit e) (ask f)"

text \<open>\<open>defer c()\<close> for the rest \<open>m\<close> of the function: \<open>c\<close> runs when \<open>m\<close> returns or panics.\<close>

definition io_defer :: "('s, unit) io \<Rightarrow> ('s, 'a) io \<Rightarrow> ('s, 'a) io" where
  "io_defer c m w =
     (case m w of
        (Done x, w') \<Rightarrow> io_then c (io_return x) w'
      | (Stopped s, w') \<Rightarrow> if s = Panicking then io_then c (io_stop s) w' else (Stopped s, w'))"

definition Fatal :: "printed list \<Rightarrow> ('s, 'a) io" where
  "Fatal vs = io_then (emit (Log vs)) (io_stop Exited)"

text \<open>An index into a slice panics when it is out of range.\<close>

definition io_nth :: "'a list \<Rightarrow> nat \<Rightarrow> ('s, 'a) io" where
  "io_nth xs i = (if i < length xs then io_return (xs ! i) else io_stop Panicking)"

fun io_each :: "('a \<Rightarrow> ('s, unit) io) \<Rightarrow> 'a list \<Rightarrow> ('s, unit) io" where
  "io_each f [] = io_return ()"
| "io_each f (x # xs) = io_then (f x) (io_each f xs)"

section \<open>Weakest preconditions\<close>

definition wp :: "('s, 'a) io \<Rightarrow> ('a \<Rightarrow> 's world \<Rightarrow> bool) \<Rightarrow> (stop \<Rightarrow> 's world \<Rightarrow> bool) \<Rightarrow> 's world \<Rightarrow> bool" where
  "wp m Q R w \<longleftrightarrow> (case m w of (Done x, w') \<Rightarrow> Q x w' | (Stopped s, w') \<Rightarrow> R s w')"

lemma wp_return [wp_simps]: "wp (io_return x) Q R = Q x"
  by (simp add: wp_def io_return_def fun_eq_iff)

lemma wp_stop [wp_simps]: "wp (io_stop s) Q R = R s"
  by (simp add: wp_def io_stop_def fun_eq_iff)

lemma wp_bind [wp_simps]: "wp (io_bind m k) Q R = wp m (\<lambda>x. wp (k x) Q R) R"
  by (simp add: wp_def io_bind_def fun_eq_iff split: prod.split outcome.split)

lemma wp_then [wp_simps]: "wp (io_then m k) Q R = wp m (\<lambda>_. wp k Q R) R"
  by (simp add: io_then_def wp_bind)

lemma wp_emit [wp_simps]: "wp (emit e) Q R w = Q () (w\<lparr>w_trace := w_trace w @ [e]\<rparr>)"
  by (simp add: wp_def emit_def)

lemma wp_ask [wp_simps]: "wp (ask f) Q R w = Q (f w) w"
  by (simp add: wp_def ask_def)

lemma wp_call [wp_simps]:
  "wp (io_call e f) Q R w = Q (f (w\<lparr>w_trace := w_trace w @ [e]\<rparr>)) (w\<lparr>w_trace := w_trace w @ [e]\<rparr>)"
  by (simp add: io_call_def wp_simps)

lemma wp_defer [wp_simps]:
  "wp (io_defer c m) Q R =
     wp m (\<lambda>x. wp c (\<lambda>_. Q x) R) (\<lambda>s. if s = Panicking then wp c (\<lambda>_. R s) R else R s)"
  by (simp add: wp_def io_defer_def io_then_def io_bind_def io_return_def io_stop_def fun_eq_iff
      split: prod.split outcome.split)

lemma wp_Fatal [wp_simps]: "wp (Fatal vs) Q R w = R Exited (w\<lparr>w_trace := w_trace w @ [Log vs]\<rparr>)"
  by (simp add: Fatal_def wp_simps)

lemma wp_nth [wp_simps]: "wp (io_nth xs i) Q R = (if i < length xs then Q (xs ! i) else R Panicking)"
  by (simp add: io_nth_def wp_simps)

lemma wp_if [wp_simps]: "wp (if b then m else n) Q R = (if b then wp m Q R else wp n Q R)"
  by simp

lemma wp_let [wp_simps]: "wp (Let x f) Q R = wp (f x) Q R"
  by (simp add: Let_def)

lemma wp_option [wp_simps]:
  "wp (case r of None \<Rightarrow> m | Some x \<Rightarrow> f x) Q R = (case r of None \<Rightarrow> wp m Q R | Some x \<Rightarrow> wp (f x) Q R)"
  by (simp split: option.split)

lemma wp_sum [wp_simps]:
  "wp (case r of Inl e \<Rightarrow> f e | Inr x \<Rightarrow> g x) Q R = (case r of Inl e \<Rightarrow> wp (f e) Q R | Inr x \<Rightarrow> wp (g x) Q R)"
  by (simp split: sum.split)

lemma wp_prod [wp_simps]: "wp (case r of (x, y) \<Rightarrow> f x y) Q R = (case r of (x, y) \<Rightarrow> wp (f x y) Q R)"
  by (simp split: prod.split)

lemma wp_mono:
  assumes "wp m Q R w" "\<And>x w'. Q x w' \<Longrightarrow> Q' x w'" "\<And>s w'. R s w' \<Longrightarrow> R' s w'" shows "wp m Q' R' w"
  using assms by (auto simp: wp_def split: prod.splits outcome.splits)

lemma wp_conj: "wp m Q R w \<Longrightarrow> wp m Q' R' w \<Longrightarrow> wp m (\<lambda>x w. Q x w \<and> Q' x w) (\<lambda>s w. R s w \<and> R' s w) w"
  by (auto simp: wp_def split: prod.splits outcome.splits)

lemma wp_DoneD: "wp m Q R w \<Longrightarrow> m w = (Done x, w') \<Longrightarrow> Q x w'"
  by (simp add: wp_def)

lemma wp_StoppedD: "wp m Q R w \<Longrightarrow> m w = (Stopped s, w') \<Longrightarrow> R s w'"
  by (simp add: wp_def)

text \<open>A loop with an invariant that its body keeps.\<close>

lemma wp_each:
  assumes "\<And>x w. x \<in> set xs \<Longrightarrow> I w \<Longrightarrow> wp (f x) (\<lambda>_. I) R w" "I w"
  shows "wp (io_each f xs) (\<lambda>_. I) R w"
  using assms
proof (induction xs arbitrary: w)
  case (Cons x xs)
  have "wp (io_each f xs) (\<lambda>_. I) R w'" if "I w'" for w' using Cons.IH Cons.prems(1) that by simp
  with wp_mono [OF Cons.prems(1) [OF _ Cons.prems(2)]] show ?case by (simp add: wp_simps)
qed (simp add: wp_simps)

section \<open>What a program does at most\<close>

text \<open>All it adds to the trace are effects with property \<open>P\<close>.\<close>

definition adds :: "(effect \<Rightarrow> bool) \<Rightarrow> 's world \<Rightarrow> 's world \<Rightarrow> bool" where
  "adds P w w' \<longleftrightarrow> (\<exists>es. w_trace w' = w_trace w @ es \<and> list_all P es)"

definition emits :: "(effect \<Rightarrow> bool) \<Rightarrow> ('s, 'a) io \<Rightarrow> bool" where
  "emits P m \<longleftrightarrow> (\<forall>w. adds P w (snd (m w)))"

named_theorems emits_intros \<open>what the program constructs add to the trace\<close>

lemma adds_refl: "w_trace w' = w_trace w \<Longrightarrow> adds P w w'"
  by (simp add: adds_def)

lemma adds_trans: "adds P w w' \<Longrightarrow> adds P w' w'' \<Longrightarrow> adds P w w''"
  by (auto simp: adds_def)

lemma emits_return [emits_intros]: "emits P (io_return x)"
  by (simp add: emits_def io_return_def adds_refl)

lemma emits_stop [emits_intros]: "emits P (io_stop s)"
  by (simp add: emits_def io_stop_def adds_refl)

lemma emits_ask [emits_intros]: "emits P (ask f)"
  by (simp add: emits_def ask_def adds_refl)

lemma emits_emit [emits_intros]: "P e \<Longrightarrow> emits P (emit e)"
  by (simp add: emits_def emit_def adds_def)

lemma emits_bind [emits_intros]:
  assumes "emits P m" "\<And>x. emits P (k x)" shows "emits P (io_bind m k)"
  unfolding emits_def
proof
  fix w
  have "adds P w (snd (m w))" using assms(1) by (simp add: emits_def)
  then show "adds P w (snd (io_bind m k w))"
    using assms(2) adds_trans by (fastforce simp: io_bind_def emits_def split: prod.splits outcome.splits)
qed

lemma emits_then [emits_intros]: "emits P m \<Longrightarrow> emits P k \<Longrightarrow> emits P (io_then m k)"
  by (simp add: io_then_def emits_bind)

lemma emits_call [emits_intros]: "P e \<Longrightarrow> emits P (io_call e f)"
  by (simp add: io_call_def emits_then emits_emit emits_ask)

lemma emits_Fatal [emits_intros]: "P (Log vs) \<Longrightarrow> emits P (Fatal vs)"
  by (simp add: Fatal_def emits_then emits_emit emits_stop)

lemma emits_nth [emits_intros]: "emits P (io_nth xs i)"
  by (simp add: io_nth_def emits_return emits_stop)

lemma emits_defer [emits_intros]:
  fixes m :: "('s, 'a) io"
  assumes "emits P c" "emits P m" shows "emits P (io_defer c m)"
  unfolding emits_def
proof
  fix w
  have "adds P w (snd (m w))" using assms(2) by (simp add: emits_def)
  moreover have "adds P (snd (m w)) (snd (io_then c k (snd (m w))))" if "emits P k" for k :: "('s, 'a) io"
    using emits_then [OF assms(1) that] by (simp add: emits_def)
  ultimately show "adds P w (snd (io_defer c m w))"
    using adds_trans emits_return emits_stop by (fastforce simp: io_defer_def split: prod.splits outcome.splits)
qed

lemma emits_each [emits_intros]: "(\<And>x. emits P (f x)) \<Longrightarrow> emits P (io_each f xs)"
  by (induction xs) (simp_all add: emits_intros)

lemma emits_mono: "emits P m \<Longrightarrow> (\<And>e. P e \<Longrightarrow> P' e) \<Longrightarrow> emits P' m"
  by (fastforce simp: emits_def adds_def list_all_iff)

lemma emits_wp: "emits P m \<Longrightarrow> wp m (\<lambda>_. adds P w) (\<lambda>_. adds P w) w"
  by (auto simp: emits_def wp_def split: prod.split outcome.split dest: spec [of _ w])

lemma wp_emits_bind:
  assumes "emits P m" "\<And>x w1. adds P w w1 \<Longrightarrow> wp (k x) Q R w1" "\<And>s w1. adds P w w1 \<Longrightarrow> R s w1"
  shows "wp (io_bind m k) Q R w"
  unfolding wp_bind by (rule wp_mono [OF emits_wp [OF assms(1)]]) (use assms in auto)

section \<open>What is left open\<close>

text \<open>The hosts and connections a run opened, and those it closed.\<close>

definition opened :: "effect list \<Rightarrow> peer list" where
  "opened = List.map_filter (\<lambda>e. case e of OpenHost h \<Rightarrow> Some h | _ \<Rightarrow> None)"

definition closed :: "effect list \<Rightarrow> peer list" where
  "closed = List.map_filter (\<lambda>e. case e of CloseHost h \<Rightarrow> Some h | _ \<Rightarrow> None)"

definition conns_opened :: "effect list \<Rightarrow> nat list" where
  "conns_opened = List.map_filter (\<lambda>e. case e of OpenConn c \<Rightarrow> Some c | _ \<Rightarrow> None)"

definition conns_closed :: "effect list \<Rightarrow> nat list" where
  "conns_closed = List.map_filter (\<lambda>e. case e of CloseConn c \<Rightarrow> Some c | _ \<Rightarrow> None)"

lemma map_filter_append [simp]: "List.map_filter f (xs @ ys) = List.map_filter f xs @ List.map_filter f ys"
  by (induction xs) (simp_all add: List.map_filter_simps split: option.split)

lemma opened_append [simp]: "opened (xs @ ys) = opened xs @ opened ys"
  and closed_append [simp]: "closed (xs @ ys) = closed xs @ closed ys"
  and conns_opened_append [simp]: "conns_opened (xs @ ys) = conns_opened xs @ conns_opened ys"
  and conns_closed_append [simp]: "conns_closed (xs @ ys) = conns_closed xs @ conns_closed ys"
  by (simp_all add: opened_def closed_def conns_opened_def conns_closed_def)

lemma opened_simps [simp]:
  "opened [] = []" "opened (e # es) = (case e of OpenHost h \<Rightarrow> [h] | _ \<Rightarrow> []) @ opened es"
  by (simp_all add: opened_def List.map_filter_simps split: effect.split)

lemma closed_simps [simp]:
  "closed [] = []" "closed (e # es) = (case e of CloseHost h \<Rightarrow> [h] | _ \<Rightarrow> []) @ closed es"
  by (simp_all add: closed_def List.map_filter_simps split: effect.split)

lemma conns_simps [simp]:
  "conns_opened [] = []" "conns_opened (e # es) = (case e of OpenConn c \<Rightarrow> [c] | _ \<Rightarrow> []) @ conns_opened es"
  "conns_closed [] = []" "conns_closed (e # es) = (case e of CloseConn c \<Rightarrow> [c] | _ \<Rightarrow> []) @ conns_closed es"
  by (simp_all add: conns_opened_def conns_closed_def List.map_filter_simps split: effect.split)

end
