(* ===== verification/Hosts.thy ===== *)
theory Hosts
  imports Program
begin

text \<open>
  The programs about hosts and connections: \<open>createHosts\<close> and \<open>connectHosts\<close> of \<open>pubsub.go\<close>, \<open>setupHost\<close> of
  \<open>grpc.go\<close>, and \<open>connected.go\<close>, \<open>ping.go\<close>, \<open>reject.go\<close>.
\<close>

section \<open>Creating and closing hosts\<close>

definition newHost :: "'s libp2p \<Rightarrow> host_config \<Rightarrow> ('s, goerror + host) io" where
  "newHost L cfg =
     io_bind (ask (\<lambda>w. lp_New L w cfg)) (\<lambda>r.
       case r of
         Inl err \<Rightarrow> io_return (Inl err)
       | Inr node \<Rightarrow> io_then (emit (OpenHost (h_ID node))) (io_return (Inr node)))"

text \<open>\<open>peer.AddrInfo{h.ID(), h.Addrs()}\<close>\<close>

definition addrInfo :: "'s libp2p \<Rightarrow> host \<Rightarrow> ('s, AddrInfo) io" where
  "addrInfo L h = ask (\<lambda>w. \<lparr>ai_ID = h_ID h, ai_Addrs = lp_Addrs L w (h_ID h)\<rparr>)"

fun createHosts_loop :: "'s libp2p \<Rightarrow> nat \<Rightarrow> nat \<Rightarrow> host list \<Rightarrow> ('s, host list \<times> goerror option) io" where
  "createHosts_loop L i 0 hosts = io_return (hosts, None)"
| "createHosts_loop L i (Suc k) hosts =
     io_bind (newHost L \<lparr>hc_ListenAddrs = [Some ''/ip4/0.0.0.0/tcp/0''], hc_Identity = None, hc_Ping = True\<rparr>) (\<lambda>r.
       case r of
         Inl err \<Rightarrow> io_return (hosts, Some err)
       | Inr node \<Rightarrow>
           (let hosts = hosts @ [node]
            in io_bind (addrInfo L node) (\<lambda>peerInfo.
                 case lp_AddrInfoToP2pAddrs L peerInfo of
                   Inl err \<Rightarrow> io_return (hosts, Some err)
                 | Inr multiAddrs \<Rightarrow>
                     io_bind (io_nth multiAddrs 0) (\<lambda>a.
                       io_then (emit (Log [Text ''multiAddr'', Num (int i), Address a]))
                         (createHosts_loop L (Suc i) k hosts)))))"

definition createHosts :: "'s libp2p \<Rightarrow> nat \<Rightarrow> ('s, host list \<times> goerror option) io" where
  "createHosts L n = io_then (emit (Log [Text ''Creating hosts''])) (createHosts_loop L 0 n [])"

definition closeHost :: "'s libp2p \<Rightarrow> host \<Rightarrow> ('s, unit) io" where
  "closeHost L h =
     io_bind (io_call (CloseHost (h_ID h)) (\<lambda>w. lp_Close L w (h_ID h))) (\<lambda>r.
       case r of
         None \<Rightarrow> io_return ()
       | Some err \<Rightarrow> emit (Print [Text ''error while shutting down:'', Err err]))"

definition shutdown :: "'s libp2p \<Rightarrow> host list \<Rightarrow> ('s, unit) io" where
  "shutdown L hosts = io_then (emit (Print [Text ''Shutting down''])) (io_each (closeHost L) hosts)"

section \<open>Connecting hosts\<close>

definition connect :: "'s libp2p \<Rightarrow> host \<Rightarrow> AddrInfo \<Rightarrow> ('s, goerror option) io" where
  "connect L h ai = io_call (ConnectHost (h_ID h) ai) (\<lambda>w. lp_Connect L w (h_ID h) ai)"

fun connectHosts_loop :: "'s libp2p \<Rightarrow> host list \<Rightarrow> nat \<Rightarrow> nat \<Rightarrow> ('s, goerror option) io" where
  "connectHosts_loop L hosts i 0 = io_return None"
| "connectHosts_loop L hosts i (Suc k) =
     io_bind (io_nth hosts (i - 1)) (\<lambda>prev.
     io_bind (addrInfo L prev) (\<lambda>ai.
     io_bind (io_nth hosts i) (\<lambda>h.
     io_bind (connect L h ai) (\<lambda>r.
       case r of
         Some err \<Rightarrow> io_return (Some err)
       | None \<Rightarrow> connectHosts_loop L hosts (Suc i) k))))"

definition connectHosts :: "'s libp2p \<Rightarrow> host list \<Rightarrow> ('s, goerror option) io" where
  "connectHosts L hosts =
     io_then (emit (Log [Text ''Connecting hosts''])) (connectHosts_loop L hosts 1 (length hosts - 1))"

section \<open>\<open>connected.go\<close>\<close>

fun connectedness_name :: "connectedness \<Rightarrow> string" where
  "connectedness_name IsNotConnected = ''network.NotConnected''"
| "connectedness_name IsConnected = ''network.Connected''"
| "connectedness_name CanConnect = ''network.CanConnect''"
| "connectedness_name CannotConnect = ''network.CannotConnect''"

definition show_error :: "goerror option \<Rightarrow> printed" where
  "show_error r = (case r of None \<Rightarrow> Text ''<nil>'' | Some err \<Rightarrow> Err err)"

definition connected_body :: "'s libp2p \<Rightarrow> host list \<Rightarrow> ('s, unit) io" where
  "connected_body L hosts =
     io_bind (io_nth hosts 0) (\<lambda>h1.
     io_bind (addrInfo L h1) (\<lambda>ai.
     io_bind (io_nth hosts 1) (\<lambda>h2.
     io_bind (connect L h2 ai) (\<lambda>r.
       case r of
         Some err \<Rightarrow> emit (Log [Err err])
       | None \<Rightarrow>
           io_bind (ask (\<lambda>w. lp_Connectedness L w (h_ID h1) (h_ID h1))) (\<lambda>c.
           io_then (emit (Log [Text (connectedness_name c)]))
           (io_bind (io_nth (ai_Addrs ai) 0) (\<lambda>a.
              case lp_IP4Value L a of (v, e) \<Rightarrow> emit (Print [Text v, show_error e]))))))))"

definition testConnected :: "'s libp2p \<Rightarrow> ('s, unit) io" where
  "testConnected L =
     io_bind (createHosts L 2) (\<lambda>(hosts, err).
       case err of
         Some err \<Rightarrow> emit (Log [Err err])
       | None \<Rightarrow> io_defer (shutdown L hosts) (connected_body L hosts))"

section \<open>\<open>ping.go\<close>\<close>

text \<open>\<open>val := <-resp\<close>, \<open>n\<close> times.\<close>

fun ping_replies :: "'s libp2p \<Rightarrow> peer \<Rightarrow> nat \<Rightarrow> ('s, unit) io" where
  "ping_replies L p 0 = io_return ()"
| "ping_replies L p (Suc n) =
     io_bind (ask (\<lambda>w. lp_PingReply L w p)) (\<lambda>r.
       case r of
         None \<Rightarrow> io_stop Blocked
       | Some rtt \<Rightarrow>
           io_then (emit (Print [Text ''got response, RTT:'', Num rtt])) (ping_replies L p n))"

definition io_panic_on :: "goerror + 'a \<Rightarrow> ('s, 'a) io" where
  "io_panic_on r = (case r of Inl err \<Rightarrow> io_stop Panicking | Inr x \<Rightarrow> io_return x)"

definition ping_body :: "'s libp2p \<Rightarrow> host \<Rightarrow> ('s, unit) io" where
  "ping_body L node =
     io_then (emit (SetStreamHandler (h_ID node) (lp_PingID L)))
     (io_bind (addrInfo L node) (\<lambda>peerInfo.
      io_bind (io_panic_on (lp_AddrInfoToP2pAddrs L peerInfo)) (\<lambda>multiAddrs.
      io_bind (io_nth multiAddrs 0) (\<lambda>a.
      io_then (emit (Print [Text ''multiAddr:'', Address a]))
      (if length (lp_Args L) > 1
       then io_bind (io_nth (lp_Args L) 1) (\<lambda>arg.
            io_bind (io_panic_on (lp_NewMultiaddr L arg)) (\<lambda>addr.
            io_bind (io_panic_on (lp_AddrInfoFromP2pAddr L addr)) (\<lambda>ai.
            io_bind (connect L node ai) (\<lambda>r.
              case r of
                Some err \<Rightarrow> io_stop Panicking
              | None \<Rightarrow>
                  io_then (emit (Print [Text ''sending'', Num 5, Text ''ping messages to'', Address addr]))
                  (io_then (emit (PingPeer (ai_ID ai))) (ping_replies L (ai_ID ai) 5))))))
       else io_then (emit (Print [Text ''waiting for CTRL-C'']))
            (io_bind (ask (lp_Signal L)) (\<lambda>sig. if sig then io_return () else io_stop Blocked)))))))"

definition testPing :: "'s libp2p \<Rightarrow> ('s, unit) io" where
  "testPing L =
     io_bind (newHost L \<lparr>hc_ListenAddrs = [Some ''/ip4/0.0.0.0/tcp/0''], hc_Identity = None, hc_Ping = False\<rparr>) (\<lambda>r.
     io_bind (io_panic_on r) (\<lambda>node. io_defer (shutdown L [node]) (ping_body L node)))"

section \<open>\<open>setupHost\<close>\<close>

text \<open>\<open>fmt.Sprintf("%d", n)\<close> for \<open>n \<ge> 0\<close>.\<close>

fun decimal :: "nat \<Rightarrow> string" where
  "decimal n =
     (if n < 10 then [char_of (48 + n)] else decimal (n div 10) @ [char_of (48 + n mod 10)])"

declare decimal.simps [simp del]

definition hostKey :: "'s libp2p \<Rightarrow> string \<Rightarrow> ('s, nat option) io" where
  "hostKey L privKeyStr =
     (if length privKeyStr = 0
      then io_bind (ask (lp_GenerateKeyPair L)) (\<lambda>privKey.
             case lp_MarshalPrivateKey L privKey of
               None \<Rightarrow> io_stop Panicking
             | Some m \<Rightarrow>
                 io_then (emit (Print [Text ''encoded libp2p key:'', Text (lp_ConfigEncodeKey L m)]))
                   (io_return privKey))
      else io_return (lp_UnmarshalPrivateKey L (lp_ConfigDecodeKey L privKeyStr)))"

text \<open>The errors are ignored: what does not parse is passed on as nil.\<close>

definition listenAddrs :: "'s libp2p \<Rightarrow> int \<Rightarrow> multiaddr option list" where
  "listenAddrs L port =
     (if port > 0
      then (case lp_NewMultiaddr L (''/ip4/'' @ ''0.0.0.0'' @ ''/tcp/'' @ decimal (nat port)) of
              Inl err \<Rightarrow> [None]
            | Inr addr \<Rightarrow> [Some addr])
      else [])"

definition setupHost :: "'s libp2p \<Rightarrow> string \<Rightarrow> int \<Rightarrow> ('s, host) io" where
  "setupHost L privKeyStr port =
     io_bind (hostKey L privKeyStr) (\<lambda>privKey.
     io_bind (newHost L \<lparr>hc_ListenAddrs = listenAddrs L port, hc_Identity = Some privKey, hc_Ping = True\<rparr>) (\<lambda>r.
       case r of
         Inl err \<Rightarrow> Fatal [Err err]
       | Inr host \<Rightarrow>
           io_bind (addrInfo L host) (\<lambda>peerInfo.
             case lp_AddrInfoToP2pAddrs L peerInfo of
               Inl err \<Rightarrow> Fatal [Err err]
             | Inr multiAddrs \<Rightarrow>
                 io_bind (io_nth multiAddrs 0) (\<lambda>a.
                 io_then (emit (Print [Text ''Address:'', Address a])) (io_return host)))))"

text \<open>What the programs do with the address on the command line: an error is fatal.\<close>

definition io_fatal_on :: "goerror + 'a \<Rightarrow> ('s, 'a) io" where
  "io_fatal_on r = (case r of Inl err \<Rightarrow> Fatal [Err err] | Inr x \<Rightarrow> io_return x)"

definition parse_addr :: "'s libp2p \<Rightarrow> string \<Rightarrow> ('s, AddrInfo) io" where
  "parse_addr L maddr =
     io_bind (io_fatal_on (lp_NewMultiaddr L maddr)) (\<lambda>addr. io_fatal_on (lp_AddrInfoFromP2pAddr L addr))"

definition connect_or_die :: "'s libp2p \<Rightarrow> host \<Rightarrow> AddrInfo \<Rightarrow> ('s, unit) io" where
  "connect_or_die L h ai =
     io_bind (connect L h ai) (\<lambda>r. case r of Some err \<Rightarrow> Fatal [Err err] | None \<Rightarrow> io_return ())"

section \<open>\<open>reject.go\<close>\<close>

definition RejectProtocol :: protocol where "RejectProtocol = str ''RejectProtocol''"

definition runRejector :: "'s libp2p \<Rightarrow> ('s, unit) io" where
  "runRejector L =
     io_bind (setupHost L [] 0) (\<lambda>host.
     io_then (emit (SetStreamHandler (h_ID host) RejectProtocol))
     (io_then (emit (NotifyHost (h_ID host))) (io_stop Blocked)))"

definition handlerCloser :: "nat \<Rightarrow> ('s, goerror) io" where
  "handlerCloser rwc =
     io_then (emit (Log [Text ''in handlerCloser'']))
     (io_then (emit (CloseStream rwc)) (io_return (LibError ''nothing personal'')))"

definition handler :: "'s libp2p \<Rightarrow> nat \<Rightarrow> ('s, unit) io" where
  "handler L s =
     io_then (emit (Log [Text ''in handler'']))
     (io_bind (io_call (CloseStreamConn s) (\<lambda>w. lp_CloseStreamConn L w s)) (\<lambda>r.
        case r of
          None \<Rightarrow> io_return ()
        | Some err \<Rightarrow> emit (Log [Text ''close conn failed:'', Err err])))"

definition runConnector :: "'s libp2p \<Rightarrow> string \<Rightarrow> ('s, unit) io" where
  "runConnector L maddr =
     io_bind (setupHost L [] 0) (\<lambda>host.
     io_bind (parse_addr L maddr) (\<lambda>ai.
     io_then (connect_or_die L host ai)
     (io_bind (ask (\<lambda>w. lp_MuxProtocols L w (h_ID host))) (\<lambda>ps.
      io_then (emit (Log [Protocols ps]))
      (io_bind (io_call (OpenStream (ai_ID ai) RejectProtocol) (\<lambda>w. lp_NewStream L w (ai_ID ai) RejectProtocol)) (\<lambda>r.
       io_bind (io_fatal_on r) (\<lambda>s.
       io_bind (io_call (WriteStream s (str ''wow'')) (\<lambda>w. lp_Write L w s (str ''wow''))) (\<lambda>e.
         case e of
           Some err \<Rightarrow> Fatal [Err err]
         | None \<Rightarrow> io_then (emit (Log [StreamNo s])) (io_stop Blocked)))))))))"

text \<open>The two modes of a program that takes the peer's address from the command line.\<close>

definition by_mode :: "'s libp2p \<Rightarrow> string \<Rightarrow> ('s, unit) io \<Rightarrow> (string \<Rightarrow> ('s, unit) io) \<Rightarrow> ('s, unit) io" where
  "by_mode L mode first second =
     io_bind (io_nth (lp_Args L) 1) (\<lambda>a.
       if a = mode then first else io_bind (io_nth (lp_Args L) 2) second)"

definition testRejectConn :: "'s libp2p \<Rightarrow> ('s, unit) io" where
  "testRejectConn L = by_mode L ''rejector'' (runRejector L) (runConnector L)"

datatype notification =
  NListen | NListenClose | NConnected | NDisconnected | NOpenedStream | NClosedStream

definition notifiee :: "notification \<Rightarrow> ('s, unit) io" where
  "notifiee n =
     emit (Log [Text (case n of
       NListen \<Rightarrow> ''in Listen'' | NListenClose \<Rightarrow> ''in ListenClose'' | NConnected \<Rightarrow> ''in Connected''
     | NDisconnected \<Rightarrow> ''in Disconnected'' | NOpenedStream \<Rightarrow> ''in OpenedStream''
     | NClosedStream \<Rightarrow> ''in ClosedStream'')])"

section \<open>Lemmas\<close>

text \<open>The parts of a run, in the order the programs promise: a phase per kind of effect.\<close>

fun phase :: "effect \<Rightarrow> nat option" where
  "phase (OpenHost h) = Some 0"
| "phase (StartNode h) = Some 1"
| "phase (ConnectHost h ai) = Some 2"
| "phase (SubscribeNode p t) = Some 3"
| "phase (PublishOn p t d) = Some 4"
| "phase (CloseHost h) = Some 5"
| "phase _ = None"

abbreviation in_phase :: "nat \<Rightarrow> effect \<Rightarrow> bool" where
  "in_phase k e \<equiv> phase e \<in> {None, Some k}"

lemma emits_newHost [emits_intros]: "(\<And>h. P (OpenHost h)) \<Longrightarrow> emits P (newHost L cfg)"
  unfolding newHost_def by (intro emits_intros) (auto split: sum.split intro!: emits_intros)

lemma emits_addrInfo [emits_intros]: "emits P (addrInfo L h)"
  by (simp add: addrInfo_def emits_intros)

lemma createHosts_phase: "emits (in_phase 0) (createHosts L n)"
proof -
  have "emits (in_phase 0) (createHosts_loop L i n hosts)" for i hosts
    by (induction L i n hosts rule: createHosts_loop.induct)
      (auto simp: Let_def split: sum.split intro!: emits_intros)
  then show ?thesis unfolding createHosts_def by (intro emits_intros) auto
qed

lemma connectHosts_phase: "emits (in_phase 2) (connectHosts L hosts)"
proof -
  have "emits (in_phase 2) (connectHosts_loop L hosts i k)" for i k
    by (induction L hosts i k rule: connectHosts_loop.induct)
      (auto simp: connect_def split: option.split intro!: emits_intros)
  then show ?thesis unfolding connectHosts_def by (intro emits_intros) auto
qed

lemma shutdown_phase: "emits (in_phase 5) (shutdown L hosts)"
  unfolding shutdown_def closeHost_def
  by (intro emits_intros) (auto split: option.split intro!: emits_intros)

text \<open>A host has a p2p address; \<open>multiAddrs[0]\<close>, which the programs print, panics without one.\<close>

definition addrs_ok :: "'s libp2p \<Rightarrow> bool" where
  "addrs_ok L \<longleftrightarrow> (\<forall>ai addrs. lp_AddrInfoToP2pAddrs L ai = Inr addrs \<longrightarrow> addrs \<noteq> [])"

text \<open>Nothing the programs ask of the library fails, and every host has its private key.\<close>

definition lib_ok :: "'s libp2p \<Rightarrow> bool" where
  "lib_ok L \<longleftrightarrow>
     (\<forall>w cfg. \<exists>h. lp_New L w cfg = Inr h \<and> h_PrivKey h (h_ID h) \<noteq> None) \<and>
     (\<forall>ai. \<exists>as. lp_AddrInfoToP2pAddrs L ai = Inr as) \<and> (\<forall>w h ai. lp_Connect L w h ai = None)"

definition all_fine :: "'s libp2p \<Rightarrow> host list \<Rightarrow> goerror option \<Rightarrow> bool" where
  "all_fine L hs err \<longleftrightarrow> (lib_ok L \<longrightarrow> err = None \<and> (\<forall>h \<in> set hs. h_PrivKey h (h_ID h) \<noteq> None))"

text \<open>A run that creates hosts panics for want of an address only, and has started no node then.\<close>

definition no_address :: "'s libp2p \<Rightarrow> 's world \<Rightarrow> stop \<Rightarrow> 's world \<Rightarrow> bool" where
  "no_address L w s w' \<longleftrightarrow> s = Panicking \<and> (\<exists>ai. lp_AddrInfoToP2pAddrs L ai = Inr []) \<and> w_nodes w' = w_nodes w"

lemma no_address_ok: "addrs_ok L \<Longrightarrow> \<not> no_address L w s w'"
  by (auto simp: no_address_def addrs_ok_def)

lemma createHosts_loop_spec:
  "wp (createHosts_loop L i k hosts)
    (\<lambda>(hs, err) w'. \<exists>new es. hs = hosts @ new \<and> length new \<le> k \<and> (err = None \<longrightarrow> length new = k) \<and>
       w_trace w' = w_trace w @ es \<and> opened es = map h_ID new \<and> w_nodes w' = w_nodes w \<and> all_fine L new err)
    (no_address L w) w"
proof (induction k arbitrary: i hosts w)
  case (Suc k)
  let ?cfg = "\<lparr>hc_ListenAddrs = [Some ''/ip4/0.0.0.0/tcp/0''], hc_Identity = None, hc_Ping = True\<rparr>"
  show ?case
  proof (cases "lp_New L w ?cfg")
    case (Inr node)
    let ?w = "w\<lparr>w_trace := w_trace w @ [OpenHost (h_ID node)]\<rparr>"
    show ?thesis
    proof (cases "lp_AddrInfoToP2pAddrs L \<lparr>ai_ID = h_ID node, ai_Addrs = lp_Addrs L ?w (h_ID node)\<rparr>")
      case (Inl err)
      then have "\<not> lib_ok L" unfolding lib_ok_def by (metis sum.simps(4))
      then have "all_fine L [node] (Some err)" by (simp add: all_fine_def)
      with Inl show ?thesis by (simp add: newHost_def addrInfo_def wp_simps Inr exI [of _ "[node]"])
    next
      case addrs: (Inr as)
      have fine: "all_fine L (node # new) err" if "all_fine L new err" for new err
      proof -
        have "h_PrivKey node (h_ID node) \<noteq> None" if "lib_ok L"
        proof -
          from that have "\<exists>h. lp_New L w ?cfg = Inr h \<and> h_PrivKey h (h_ID h) \<noteq> None" by (simp add: lib_ok_def)
          with Inr show ?thesis by simp
        qed
        with that show ?thesis by (simp add: all_fine_def)
      qed
      let ?w1 = "w\<lparr>w_trace := w_trace w @ [OpenHost (h_ID node), Log [Text ''multiAddr'', Num (int i), Address (as ! 0)]]\<rparr>"
      have "wp (createHosts_loop L (Suc i) k (hosts @ [node]))
        (\<lambda>(hs, err) w'. \<exists>new es. hs = hosts @ new \<and> length new \<le> Suc k \<and> (err = None \<longrightarrow> length new = Suc k) \<and>
           w_trace w' = w_trace w @ es \<and> opened es = map h_ID new \<and> w_nodes w' = w_nodes w \<and> all_fine L new err)
        (no_address L w) ?w1"
      proof (rule wp_mono [OF Suc.IH], clarify)
        fix hs new :: "host list" and err w' es
        assume "length new \<le> k" "err = None \<longrightarrow> length new = k" "w_trace w' = w_trace ?w1 @ es"
          "opened es = map h_ID new" "w_nodes w' = w_nodes ?w1" "all_fine L new err"
        then show "\<exists>new' es'. (hosts @ [node]) @ new = hosts @ new' \<and> length new' \<le> Suc k \<and>
            (err = None \<longrightarrow> length new' = Suc k) \<and> w_trace w' = w_trace w @ es' \<and> opened es' = map h_ID new' \<and>
            w_nodes w' = w_nodes w \<and> all_fine L new' err"
          using fine by (intro exI [of _ "node # new"]) auto
      qed (simp add: no_address_def)
      then show ?thesis using addrs
      proof (cases "as = []")
        case True
        with addrs have "no_address L w Panicking (w\<lparr>w_trace := tr\<rparr>)" for tr by (auto simp: no_address_def)
        with True addrs show ?thesis by (simp add: newHost_def addrInfo_def wp_simps Inr)
      qed (simp add: newHost_def addrInfo_def wp_simps Inr)
    qed
  next
    case (Inl err)
    then have "\<not> lib_ok L" unfolding lib_ok_def by (metis sum.simps(4))
    with Inl show ?thesis by (simp add: newHost_def wp_simps all_fine_def)
  qed
qed (simp add: wp_simps all_fine_def)

lemma createHosts_spec:
  "wp (createHosts L n)
    (\<lambda>(hs, err) w'. \<exists>es. length hs \<le> n \<and> (err = None \<longrightarrow> length hs = n) \<and>
       w_trace w' = w_trace w @ es \<and> opened es = map h_ID hs \<and> list_all (in_phase 0) es \<and> w_nodes w' = w_nodes w \<and>
       all_fine L hs err)
    (no_address L w) w"
proof -
  have "wp (createHosts L n)
    (\<lambda>(hs, err) w'. \<exists>es. length hs \<le> n \<and> (err = None \<longrightarrow> length hs = n) \<and>
       w_trace w' = w_trace w @ es \<and> opened es = map h_ID hs \<and> w_nodes w' = w_nodes w \<and> all_fine L hs err)
    (no_address L w) w"
    unfolding createHosts_def wp_then wp_emit
    by (rule wp_mono [OF createHosts_loop_spec]) (fastforce simp: no_address_def)+
  from wp_conj [OF this emits_wp [OF createHosts_phase]] show ?thesis
    by (rule wp_mono) (auto simp: adds_def)
qed

text \<open>Hosts \<open>i\<close> and \<open>i - 1\<close> are connected, up to the first error.\<close>

definition links :: "effect list \<Rightarrow> (peer \<times> peer) list" where
  "links = List.map_filter (\<lambda>e. case e of ConnectHost h ai \<Rightarrow> Some (h, ai_ID ai) | _ \<Rightarrow> None)"

lemma links_simps [simp]:
  "links [] = []" "links (e # es) = (case e of ConnectHost h ai \<Rightarrow> [(h, ai_ID ai)] | _ \<Rightarrow> []) @ links es"
  "links (xs @ ys) = links xs @ links ys"
  by (simp_all add: links_def List.map_filter_simps split: effect.split)

definition chain :: "peer list \<Rightarrow> (peer \<times> peer) list" where
  "chain hs = zip (tl hs) hs"

lemma connectHosts_loop_spec:
  assumes "1 \<le> i" "i + k = length hosts"
  shows "wp (connectHosts_loop L hosts i k)
    (\<lambda>err w'. \<exists>es n. w_trace w' = w_trace w @ es \<and> links es = take n (drop (i - 1) (chain (map h_ID hosts))) \<and>
       (err = None \<longrightarrow> k \<le> n) \<and> w_nodes w' = w_nodes w \<and> (lib_ok L \<longrightarrow> err = None))
    (\<lambda>_ _. False) w"
  using assms
proof (induction k arbitrary: i w)
  case (Suc k)
  have next_link: "drop (i - 1) (chain (map h_ID hosts)) =
      (h_ID (hosts ! i), h_ID (hosts ! (i - 1))) # drop i (chain (map h_ID hosts))"
    using Suc.prems by (subst Cons_nth_drop_Suc [symmetric]) (auto simp: chain_def nth_tl)
  let ?ai = "\<lparr>ai_ID = h_ID (hosts ! (i - 1)), ai_Addrs = lp_Addrs L w (h_ID (hosts ! (i - 1)))\<rparr>"
  let ?w = "w\<lparr>w_trace := w_trace w @ [ConnectHost (h_ID (hosts ! i)) ?ai]\<rparr>"
  have "wp (connectHosts_loop L hosts (Suc i) k)
    (\<lambda>err w'. \<exists>es n. w_trace w' = w_trace w @ es \<and> links es = take n (drop (i - 1) (chain (map h_ID hosts))) \<and>
       (err = None \<longrightarrow> Suc k \<le> n) \<and> w_nodes w' = w_nodes w \<and> (lib_ok L \<longrightarrow> err = None)) (\<lambda>_ _. False) ?w"
  proof (rule wp_mono [OF Suc.IH], goal_cases)
    case (3 err w')
    then obtain es n where "w_trace w' = w_trace ?w @ es" "links es = take n (drop i (chain (map h_ID hosts)))"
      "err = None \<longrightarrow> k \<le> n" "w_nodes w' = w_nodes ?w" "lib_ok L \<longrightarrow> err = None" by auto
    then show ?case unfolding next_link
      by (intro exI [of _ "ConnectHost (h_ID (hosts ! i)) ?ai # es"] exI [of _ "Suc n"]) simp
  qed (use Suc.prems in auto)
  moreover have "\<exists>n. [(h_ID (hosts ! i), h_ID (hosts ! (i - 1)))] = take n (drop (i - 1) (chain (map h_ID hosts)))"
    unfolding next_link by (rule exI [of _ 1]) simp
  ultimately show ?case using Suc.prems
    by (auto simp: addrInfo_def connect_def wp_simps lib_ok_def split: option.split)
qed (simp add: wp_simps exI [of _ 0] exI [of _ "[]"])

lemma connectHosts_spec:
  "wp (connectHosts L hosts)
    (\<lambda>err w'. \<exists>es n. w_trace w' = w_trace w @ es \<and> links es = take n (chain (map h_ID hosts)) \<and>
       (err = None \<longrightarrow> length hosts \<le> Suc n) \<and> list_all (in_phase 2) es \<and> w_nodes w' = w_nodes w \<and>
       (lib_ok L \<longrightarrow> err = None))
    (\<lambda>_ _. False) w"
proof (cases hosts)
  case (Cons h hs)
  have "wp (connectHosts L hosts)
    (\<lambda>err w'. \<exists>es n. w_trace w' = w_trace w @ es \<and> links es = take n (chain (map h_ID hosts)) \<and>
       (err = None \<longrightarrow> length hosts \<le> Suc n) \<and> w_nodes w' = w_nodes w \<and> (lib_ok L \<longrightarrow> err = None)) (\<lambda>_ _. False) w"
    unfolding connectHosts_def wp_then wp_emit
    by (rule wp_mono [OF connectHosts_loop_spec]) (fastforce simp: Cons)+
  from wp_conj [OF this emits_wp [OF connectHosts_phase]] show ?thesis by (rule wp_mono) (auto simp: adds_def)
qed (simp add: connectHosts_def wp_simps exI [of _ "[Log [Text ''Connecting hosts'']]"])

lemma shutdown_spec:
  "wp (shutdown L hosts)
    (\<lambda>_ w'. \<exists>es. w_trace w' = w_trace w @ es \<and> closed es = map h_ID hosts \<and> list_all (in_phase 5) es \<and>
       w_nodes w' = w_nodes w)
    (\<lambda>_ _. False) w"
proof -
  have each: "wp (io_each (closeHost L) hosts)
    (\<lambda>_ w'. \<exists>es. w_trace w' = w_trace w @ es \<and> closed es = map h_ID hosts \<and> w_nodes w' = w_nodes w)
    (\<lambda>_ _. False) w" for w
  proof (induction hosts arbitrary: w)
    case (Cons h hosts)
    have more: "wp (io_each (closeHost L) hosts)
      (\<lambda>_ w'. \<exists>es. w_trace w' = w_trace w @ es \<and> closed es = h_ID h # map h_ID hosts \<and> w_nodes w' = w_nodes w)
      (\<lambda>_ _. False) w1" if "w_trace w1 = w_trace w @ es" "closed es = [h_ID h]" "w_nodes w1 = w_nodes w" for w1 es
      by (rule wp_mono [OF Cons.IH]) (use that in auto)
    have "wp (closeHost L h)
      (\<lambda>_ w'. \<exists>es. w_trace w' = w_trace w @ es \<and> closed es = [h_ID h] \<and> w_nodes w' = w_nodes w) (\<lambda>_ _. False) w"
      by (auto simp: closeHost_def wp_simps split: option.split)
    then show ?case unfolding io_each.simps wp_then
      by (rule wp_mono) (use more in auto)
  qed (simp add: wp_simps)
  have "wp (shutdown L hosts)
    (\<lambda>_ w'. \<exists>es. w_trace w' = w_trace w @ es \<and> closed es = map h_ID hosts \<and> w_nodes w' = w_nodes w)
    (\<lambda>_ _. False) w"
    unfolding shutdown_def wp_then wp_emit by (rule wp_mono [OF each]) fastforce+
  from wp_conj [OF this emits_wp [OF shutdown_phase]] show ?thesis by (rule wp_mono) (auto simp: adds_def)
qed

section \<open>A concrete library\<close>

text \<open>Every call succeeds; hosts are numbered by what was done before, and nothing else happens.\<close>

definition sample_lib :: "unit libp2p" where
  "sample_lib =
     \<lparr>lp_Args = [''demo'', ''client'', ''addr''],
      lp_New = (\<lambda>w cfg. Inr \<lparr>h_ID = [of_nat (length (w_trace w))], h_PrivKey = h_PrivKey (e_host sample_env)\<rparr>),
      lp_Addrs = (\<lambda>w p. [''addr'']), lp_Connect = (\<lambda>w p ai. None), lp_Close = (\<lambda>w p. None),
      lp_Connectedness = (\<lambda>w p q. IsConnected), lp_MuxProtocols = (\<lambda>w p. []), lp_NewMultiaddr = Inr,
      lp_AddrInfoToP2pAddrs = (\<lambda>ai. Inr [''addr'']),
      lp_AddrInfoFromP2pAddr = (\<lambda>a. Inr \<lparr>ai_ID = [9], ai_Addrs = [a]\<rparr>), lp_IP4Value = (\<lambda>a. (''127.0.0.1'', None)),
      lp_GenerateKeyPair = (\<lambda>w. Some 1), lp_MarshalPrivateKey = (\<lambda>k. Some []), lp_ConfigEncodeKey = (\<lambda>b. []),
      lp_ConfigDecodeKey = (\<lambda>s. []), lp_UnmarshalPrivateKey = (\<lambda>b. Some 1), lp_PingID = str ''ping'',
      lp_PingReply = (\<lambda>w p. Some 1), lp_Signal = (\<lambda>w. True), lp_NewStream = (\<lambda>w p proto. Inr 0),
      lp_Write = (\<lambda>w s b. None), lp_CloseStreamConn = (\<lambda>w s. None), lp_Dial = (\<lambda>w p. Inr (length (w_trace w))),
      lp_SayHello = (\<lambda>w c name. Inr (''Hello '' @ name)), lp_IDB58Encode = map (\<lambda>b. char_of (unat b)),
      lp_IDB58Decode = (\<lambda>s. (str s, None)), lp_ListenAndServe = (\<lambda>w a. LibError ''closed''),
      lp_UnixNano = (\<lambda>w. 1000), lp_numCPU = 4, lp_choices = (\<lambda>w. []), lp_timecache = (), lp_seen = \<lparr>tc_Has = (\<lambda>s m. False), tc_Add = (\<lambda>m s. s)\<rparr>,
      lp_crypto = sample_crypto, lp_others = w_nodes\<rparr>"

definition start_world :: "unit world" where
  "start_world = \<lparr>w_trace = [], w_nodes = []\<rparr>"

lemma sample_lib_fine:
  "addrs_ok sample_lib" "lib_ok sample_lib" "lp_MarshalPrivateKey sample_lib key \<noteq> None"
proof -
  have "length p = 1 \<Longrightarrow> h_PrivKey (e_host sample_env) p \<noteq> None" for p by (simp add: sample_env_def)
  then show "lib_ok sample_lib" by (auto simp: lib_ok_def sample_lib_def)
qed (simp_all add: addrs_ok_def sample_lib_def)

end
