(* ===== verification/PubSubDemo.thy ===== *)
theory PubSubDemo
  imports Hosts
begin

text \<open>
  \<open>pubsub.go\<close> and \<open>disconnected.go\<close>: the programs that run floodsub nodes. The nodes are those of the model of
  the package: \<open>createPubSubs\<close> runs its \<open>NewFloodSub\<close>, a call of \<open>Subscribe\<close> or \<open>Publish\<close> runs the package's
  function and the turn of the node's loop that takes the request. Before such a call the goroutines of the
  nodes have done what \<open>lp_others\<close> says.
\<close>

section \<open>Calls of the package\<close>

definition run_others :: "'s libp2p \<Rightarrow> ('s, unit) io" where
  "run_others L w = (Done (), w\<lparr>w_nodes := lp_others L w\<rparr>)"

definition get_node :: "nat \<Rightarrow> ('s, 's demo_node) io" where
  "get_node p w = io_nth (w_nodes w) p w"

definition set_node :: "nat \<Rightarrow> 's demo_node \<Rightarrow> ('s, unit) io" where
  "set_node p st w = (Done (), w\<lparr>w_nodes := (w_nodes w)[p := st]\<rparr>)"

text \<open>A turn of the loop of node \<open>p\<close>; its panic ends the whole process.\<close>

definition node_turn :: "'s libp2p \<Rightarrow> nat \<Rightarrow> loop_event \<Rightarrow> ('s, unit) io" where
  "node_turn L p ev =
     io_bind (get_node p) (\<lambda>st.
       case loop_turn floodsub_router map_blacklist (lp_seen L) Some ev st of
         None \<Rightarrow> io_stop Panicking
       | Some st' \<Rightarrow> set_node p st')"

definition node_env :: "'s libp2p \<Rightarrow> host \<Rightarrow> 's world \<Rightarrow> ('s, MapBlacklist) env" where
  "node_env L h w =
     \<lparr>e_host = h, e_timecache = lp_timecache L, e_blacklist = NewMapBlacklist, e_numCPU = lp_numCPU L,
      e_UnixNano = lp_UnixNano L w, e_choices = lp_choices L w\<rparr>"

definition add_node :: "'s demo_node \<Rightarrow> ('s, nat) io" where
  "add_node st w = (Done (length (w_nodes w)), w\<lparr>w_nodes := w_nodes w @ [st]\<rparr>)"

definition newFloodSub :: "'s libp2p \<Rightarrow> host \<Rightarrow> ('s, goerror + nat) io" where
  "newFloodSub L h =
     io_bind (ask (\<lambda>w. NewFloodSub (node_env L h w) [])) (\<lambda>r.
       case r of
         None \<Rightarrow> io_stop Panicking
       | Some (Inl err) \<Rightarrow> io_return (Inl (OptionError err))
       | Some (Inr (st, protos, workers)) \<Rightarrow>
           io_then (io_each (\<lambda>proto. emit (SetStreamHandler (h_ID h) proto)) protos)
           (io_then (emit (NotifyHost (h_ID h)))
           (io_then (emit (StartNode (h_ID h)))
           (io_bind (add_node st) (\<lambda>p. io_return (Inr p))))))"

text \<open>The new subscription's index in the node's heap is the answer of the loop.\<close>

definition nodeSubscribe :: "'s libp2p \<Rightarrow> nat \<Rightarrow> topic \<Rightarrow> ('s, goerror + nat) io" where
  "nodeSubscribe L p topic =
     io_then (run_others L)
     (io_then (emit (SubscribeNode p topic))
     (case Subscribe topic of
        Inl err \<Rightarrow> io_return (Inl (SubscribeError err))
      | Inr ev \<Rightarrow>
          io_bind (get_node p) (\<lambda>st.
          io_then (node_turn L p ev) (io_return (Inr (mlen (n_subs st)))))))"

definition nodePublish :: "'s libp2p \<Rightarrow> nat \<Rightarrow> topic \<Rightarrow> gostring \<Rightarrow> ('s, goerror option) io" where
  "nodePublish L p topic data =
     io_then (run_others L)
     (io_then (emit (PublishOn p topic data))
     (io_bind (get_node p) (\<lambda>st.
        case Publish (lp_crypto L) topic (Some data) st of
          (None, st') \<Rightarrow> io_stop Panicking
        | (Some (Inl err), st') \<Rightarrow> io_then (set_node p st') (io_return (Some (SignError err)))
        | (Some (Inr m), st') \<Rightarrow>
            io_then (set_node p st') (io_then (node_turn L p (PublishMsg m)) (io_return None)))))"

section \<open>\<open>pubsub.go\<close>\<close>

fun createPubSubs_loop :: "'s libp2p \<Rightarrow> host list \<Rightarrow> nat list \<Rightarrow> ('s, goerror + nat list) io" where
  "createPubSubs_loop L [] ps = io_return (Inr ps)"
| "createPubSubs_loop L (h # hosts) ps =
     io_bind (newFloodSub L h) (\<lambda>r.
       case r of
         Inl err \<Rightarrow> io_return (Inl err)
       | Inr p \<Rightarrow> createPubSubs_loop L hosts (ps @ [p]))"

definition createPubSubs :: "'s libp2p \<Rightarrow> host list \<Rightarrow> ('s, goerror + nat list) io" where
  "createPubSubs L hosts = createPubSubs_loop L hosts []"

text \<open>\<open>go processSubscriptionMessage(i, sub)\<close> is the effect \<open>ReadSubscription\<close>.\<close>

fun subscribe_loop :: "'s libp2p \<Rightarrow> int \<Rightarrow> nat list \<Rightarrow> ('s, goerror option) io" where
  "subscribe_loop L i [] = io_return None"
| "subscribe_loop L i (p # ps) =
     io_bind (nodeSubscribe L p (str ''art'')) (\<lambda>r.
       case r of
         Inl err \<Rightarrow> io_return (Some err)
       | Inr sub \<Rightarrow> io_then (emit (ReadSubscription i p sub)) (subscribe_loop L (i + 1) ps))"

definition subscribe :: "'s libp2p \<Rightarrow> nat list \<Rightarrow> ('s, goerror option) io" where
  "subscribe L ps = io_then (emit (Log [Text ''Subscribing hosts''])) (subscribe_loop L 0 ps)"

text \<open>
  The loop of a subscription's reader, one list element per turn: what the node did to the subscription before
  the turn. A turn in which \<open>Next\<close> has nothing to return yet prints nothing.
\<close>

fun reader_loop ::
  "int \<Rightarrow> (Subscription \<Rightarrow> Subscription) list \<Rightarrow> Subscription \<Rightarrow> printed list list \<times> Subscription" where
  "reader_loop i [] sub = ([], sub)"
| "reader_loop i (f # fs) sub =
     (case Next (f sub) of
        None \<Rightarrow> reader_loop i fs (f sub)
      | Some (NextCancelled, sub') \<Rightarrow>
          (let (out, s) = reader_loop i fs sub'
           in ([Err (LibError ''subscription cancelled by calling sub.Cancel()'')] # out, s))
      | Some (NextMsg msg, sub') \<Rightarrow>
          (let (out, s) = reader_loop i fs sub'
           in ([Text ''host'', Num i, Text ''received msg'', Topics (m_TopicIDs msg), PeerID (GetFrom msg),
                Bytes (bytes_of (m_Seqno msg))] # out, s)))"

definition processSubscriptionMessage ::
  "int \<Rightarrow> (Subscription \<Rightarrow> Subscription) list \<Rightarrow> Subscription \<Rightarrow> printed list list \<times> Subscription" where
  "processSubscriptionMessage i fs sub =
     (let (out, s) = reader_loop i fs sub in ([Text ''host'', Num i, Text ''processing message''] # out, s))"

text \<open>
  \<open>data[0] = byte(i % 255)\<close> changes the caller's slice: its bytes are a second result. A message holds the
  bytes its slice had when it was published.
\<close>

fun publish_loop :: "'s libp2p \<Rightarrow> nat list \<Rightarrow> int \<Rightarrow> nat \<Rightarrow> nat \<Rightarrow> gostring \<Rightarrow> ('s, gostring) io" where
  "publish_loop L ps delay i 0 data = io_return data"
| "publish_loop L ps delay i (Suc k) data =
     io_then (emit (Log [Text ''Publish ...'']))
     (if data = [] then io_stop Panicking
      else let data = data[0 := of_nat (i mod 255)]
           in io_bind (io_nth ps 0) (\<lambda>p.
              io_bind (nodePublish L p (str ''art'') data) (\<lambda>r.
              io_then (case r of None \<Rightarrow> io_return () | Some err \<Rightarrow> emit (Log [Err err]))
              (io_then (emit (Sleep delay)) (publish_loop L ps delay (Suc i) k data)))))"

definition publish :: "'s libp2p \<Rightarrow> nat list \<Rightarrow> gostring \<Rightarrow> nat \<Rightarrow> int \<Rightarrow> ('s, gostring \<times> goerror option) io" where
  "publish L ps data cnt delay =
     io_then (emit (Sleep 1000000000))
     (io_then (emit (Log [Text ''Publishing hosts'']))
     (io_bind (publish_loop L ps delay 0 cnt data) (\<lambda>data. io_return (data, None))))"

definition log_error :: "goerror option \<Rightarrow> ('s, unit) io" where
  "log_error r = (case r of None \<Rightarrow> io_return () | Some err \<Rightarrow> emit (Log [Err err]))"

definition pubsub_body :: "'s libp2p \<Rightarrow> host list \<Rightarrow> ('s, unit) io" where
  "pubsub_body L hosts =
     io_bind (createPubSubs L hosts) (\<lambda>r.
       case r of
         Inl err \<Rightarrow> emit (Log [Err err])
       | Inr ps \<Rightarrow>
           io_bind (connectHosts L hosts) (\<lambda>r.
             case r of
               Some err \<Rightarrow> emit (Log [Err err])
             | None \<Rightarrow>
                 io_bind (subscribe L ps) (\<lambda>r.
                   case r of
                     Some err \<Rightarrow> emit (Log [Err err])
                   | None \<Rightarrow>
                       io_bind (publish L ps (str ''xabc'') 3 1000000000) (\<lambda>(data, r). log_error r))))"

definition testPubSub :: "'s libp2p \<Rightarrow> ('s, unit) io" where
  "testPubSub L =
     io_bind (createHosts L 3) (\<lambda>(hosts, err).
       case err of
         Some err \<Rightarrow> emit (Log [Err err])
       | None \<Rightarrow> io_defer (shutdown L hosts) (pubsub_body L hosts))"

section \<open>\<open>disconnected.go\<close>\<close>

definition publisherKey :: string where
  "publisherKey =
     ''CAMSeTB3AgEBBCBOKmqCVHP98tkPVrlS/OESNKg6eJp2iPgQ5Zuf9rm/j6AKBggqhkjOPQMBB6FEA0IABABisRYCDewo66C1TdfPdF6I3Ag9FTEvcOU+Zk/ghLvd03bQ8BOt8AVro1TKCa59IGlP/A1Rav1J1Ci8ah+nL5Y=''"

text \<open>The endless loop, for \<open>n\<close> turns.\<close>

fun publish_forever :: "'s libp2p \<Rightarrow> nat list \<Rightarrow> nat \<Rightarrow> gostring \<Rightarrow> ('s, unit) io" where
  "publish_forever L ps 0 data = io_stop Unfinished"
| "publish_forever L ps (Suc n) data =
     io_bind (publish L ps data 1000 5000000) (\<lambda>(data, r).
     io_then (log_error r) (publish_forever L ps n data))"

definition runPublisher :: "'s libp2p \<Rightarrow> nat \<Rightarrow> ('s, unit) io" where
  "runPublisher L n =
     io_bind (setupHost L publisherKey 51234) (\<lambda>h.
     io_defer (shutdown L [h])
       (io_bind (createPubSubs L [h]) (\<lambda>r.
          case r of
            Inl err \<Rightarrow> emit (Log [Err err])
          | Inr ps \<Rightarrow>
              io_then (emit (Sleep 10000000000)) (publish_forever L ps n (replicate 10000 0)))))"

definition runSubscriber :: "'s libp2p \<Rightarrow> string \<Rightarrow> ('s, unit) io" where
  "runSubscriber L maddr =
     io_bind (setupHost L [] 0) (\<lambda>h.
     io_bind (parse_addr L maddr) (\<lambda>ai.
     io_bind (createPubSubs L [h]) (\<lambda>r.
       case r of
         Inl err \<Rightarrow> emit (Log [Err err])
       | Inr ps \<Rightarrow>
           io_then (connect_or_die L h ai)
           (io_bind (subscribe L ps) (\<lambda>r.
              case r of
                Some err \<Rightarrow> emit (Log [Err err])
              | None \<Rightarrow> io_stop Blocked)))))"

definition testDisconnected :: "'s libp2p \<Rightarrow> nat \<Rightarrow> ('s, unit) io" where
  "testDisconnected L n = by_mode L ''publisher'' (runPublisher L n) (runSubscriber L)"

end
