(* ===== verification/PubSubRuns.thy ===== *)
theory PubSubRuns
  imports PubSubDemo
begin

text \<open>
  What the programs of \<open>PubSubDemo\<close> do. The nodes they create stay reachable states of floodsub nodes, so no
  turn of a loop panics and no call of the programs does; each part adds effects of its own phase to the trace.
\<close>

section \<open>The nodes stay nodes\<close>

text \<open>
  The nodes of the world are reachable states of floodsub nodes, and what the goroutines do between two
  calls of the program are steps of these nodes.
\<close>

definition demo_node :: "'s libp2p \<Rightarrow> ('s \<Rightarrow> 's \<Rightarrow> bool) \<Rightarrow> 's demo_node \<Rightarrow> bool" where
  "demo_node L forget st \<longleftrightarrow>
     (\<exists>ev st0 protos workers. NewFloodSub ev [] = Some (Inr (st0, protos, workers)) \<and>
        reach floodsub_router map_blacklist (lp_seen L) Some (lp_crypto L) forget st0 st)"

definition nodes_ok :: "'s libp2p \<Rightarrow> ('s \<Rightarrow> 's \<Rightarrow> bool) \<Rightarrow> 's world \<Rightarrow> bool" where
  "nodes_ok L forget w \<longleftrightarrow> (\<forall>st \<in> set (w_nodes w). demo_node L forget st)"

abbreviation demo_steps where
  "demo_steps L forget \<equiv> (node_step floodsub_router map_blacklist (lp_seen L) Some (lp_crypto L) forget)\<^sup>*\<^sup>*"

definition others_ok :: "'s libp2p \<Rightarrow> ('s \<Rightarrow> 's \<Rightarrow> bool) \<Rightarrow> bool" where
  "others_ok L forget \<longleftrightarrow> (\<forall>w. list_all2 (demo_steps L forget) (w_nodes w) (lp_others L w))"

lemma demo_node_step:
  assumes "demo_node L forget st"
    "node_step floodsub_router map_blacklist (lp_seen L) Some (lp_crypto L) forget st st'"
  shows "demo_node L forget st'"
  using assms reach.more unfolding demo_node_def by metis

lemma demo_node_steps: "demo_steps L forget st st' \<Longrightarrow> demo_node L forget st \<Longrightarrow> demo_node L forget st'"
  by (induction rule: rtranclp_induct) (auto intro: demo_node_step)

lemma demo_node_turn:
  assumes "demo_node L forget st" "valid_event st e"
  shows "\<exists>st'. loop_turn floodsub_router map_blacklist (lp_seen L) Some e st = Some st' \<and> demo_node L forget st'"
proof -
  obtain ev st0 protos workers where st0: "NewFloodSub ev [] = Some (Inr (st0, protos, workers))"
    and r: "reach floodsub_router map_blacklist (lp_seen L) Some (lp_crypto L) forget st0 st"
    using assms(1) unfolding demo_node_def by blast
  have "node_inv map_blacklist pipe_ok st0"
    using st0 unfolding NewFloodSub_def NewFloodsubWithProtocols_def by (rule created_good)
  then have "good map_blacklist pipe_ok (\<lambda>_. True) st0" by (simp add: good_def)
  from flood_node.reach_total [OF r this assms(2)] obtain st' where
    "loop_turn floodsub_router map_blacklist (lp_seen L) Some e st = Some st'" by blast
  with assms node_step.turn demo_node_step show ?thesis by metis
qed

lemma nodes_ok_others:
  fixes L :: "'s libp2p"
  assumes "others_ok L forget" "nodes_ok L forget w"
  shows "nodes_ok L forget (w\<lparr>w_nodes := lp_others L w\<rparr>) \<and> length (lp_others L w) = length (w_nodes w)"
proof -
  have all2: "list_all2 (demo_steps L forget) (w_nodes w) (lp_others L w)" using assms(1) by (simp add: others_ok_def)
  have "demo_node L forget st'" if st': "st' \<in> set (lp_others L w)" for st' :: "'s demo_node"
  proof -
    obtain i where "i < length (lp_others L w)" "st' = lp_others L w ! i" using st' by (auto simp: in_set_conv_nth)
    with all2 have "demo_steps L forget (w_nodes w ! i) st'" "w_nodes w ! i \<in> set (w_nodes w)"
      by (auto simp: list_all2_conv_all_nth)
    with assms(2) demo_node_steps show ?thesis unfolding nodes_ok_def by blast
  qed
  with list_all2_lengthD [OF all2] show ?thesis by (simp add: nodes_ok_def)
qed

lemma nodes_ok_trace [simp]: "nodes_ok L forget (w\<lparr>w_trace := tr\<rparr>) = nodes_ok L forget w"
  by (simp add: nodes_ok_def)

lemma nodes_ok_set:
  assumes "nodes_ok L forget w" "demo_node L forget st"
  shows "nodes_ok L forget (w\<lparr>w_nodes := (w_nodes w)[p := st]\<rparr>)"
  using assms set_update_subset_insert by (fastforce simp: nodes_ok_def)

lemma wp_others [wp_simps]: "wp (run_others L) Q R w = Q () (w\<lparr>w_nodes := lp_others L w\<rparr>)"
  by (simp add: wp_def run_others_def)

lemma wp_get_node [wp_simps]:
  "wp (get_node p) Q R w = (if p < length (w_nodes w) then Q (w_nodes w ! p) w else R Panicking w)"
  using fun_cong [OF wp_nth [of "w_nodes w" p Q R], of w] by (simp add: wp_def get_node_def)

lemma wp_set_node [wp_simps]: "wp (set_node p st) Q R w = Q () (w\<lparr>w_nodes := (w_nodes w)[p := st]\<rparr>)"
  by (simp add: wp_def set_node_def)

lemma wp_add_node [wp_simps]: "wp (add_node st) Q R w = Q (length (w_nodes w)) (w\<lparr>w_nodes := w_nodes w @ [st]\<rparr>)"
  by (simp add: wp_def add_node_def)

lemma node_turn_spec:
  assumes "nodes_ok L forget w" "p < length (w_nodes w)" "\<And>i. e \<noteq> CancelSub i"
  shows "wp (node_turn L p e)
    (\<lambda>_ w'. nodes_ok L forget w' \<and> length (w_nodes w') = length (w_nodes w) \<and> w_trace w' = w_trace w) (\<lambda>_ _. False) w"
proof -
  have "demo_node L forget (w_nodes w ! p)" "valid_event (w_nodes w ! p) e"
    using assms by (simp_all add: nodes_ok_def valid_event_def)
  from demo_node_turn [OF this] obtain st' where
    "loop_turn floodsub_router map_blacklist (lp_seen L) Some e (w_nodes w ! p) = Some st'" "demo_node L forget st'" by blast
  with assms(2) nodes_ok_set [OF assms(1)] show ?thesis by (simp add: node_turn_def wp_simps)
qed

section \<open>The parts of the programs\<close>

text \<open>What a part keeps of the world: the nodes, with \<open>k\<close> new ones, and one phase of effects.\<close>

definition part :: "'s libp2p \<Rightarrow> ('s \<Rightarrow> 's \<Rightarrow> bool) \<Rightarrow> nat \<Rightarrow> nat \<Rightarrow> 's world \<Rightarrow> 's world \<Rightarrow> effect list \<Rightarrow> bool" where
  "part L forget ph k w w' es \<longleftrightarrow>
     nodes_ok L forget w' \<and> length (w_nodes w') = length (w_nodes w) + k \<and> w_trace w' = w_trace w @ es \<and>
     list_all (in_phase ph) es"

lemma part_trans:
  "part L forget ph k w w' es \<Longrightarrow> part L forget ph k' w' w'' es' \<Longrightarrow> part L forget ph (k + k') w w'' (es @ es')"
  by (simp add: part_def)

lemma nodeSubscribe_spec:
  assumes "others_ok L forget" "nodes_ok L forget w" "p < length (w_nodes w)"
  shows "wp (nodeSubscribe L p topic)
    (\<lambda>r w'. (\<exists>sub. r = Inr sub) \<and> part L forget 3 0 w w' [SubscribeNode p topic]) (\<lambda>_ _. False) w"
proof -
  let ?w = "w\<lparr>w_nodes := lp_others L w, w_trace := w_trace w @ [SubscribeNode p topic]\<rparr>"
  note others = nodes_ok_others [OF assms(1,2)]
  have "nodes_ok L forget ?w" "p < length (w_nodes ?w)" using others assms(3) by simp_all
  from node_turn_spec [OF this] have "wp (node_turn L p (AddSub topic))
    (\<lambda>_ w'. nodes_ok L forget w' \<and> length (w_nodes w') = length (w_nodes w) \<and> w_trace w' = w_trace ?w) (\<lambda>_ _. False) ?w"
    using others by simp
  then have "wp (node_turn L p (AddSub topic)) (\<lambda>_ w'. part L forget 3 0 w w' [SubscribeNode p topic]) (\<lambda>_ _. False) ?w"
    by (rule wp_mono) (simp_all add: part_def)
  with others assms(3) show ?thesis
    by (simp add: nodeSubscribe_def wp_simps Subscribe_def SubscribeByTopicDescriptor_def GetMode_def bytes_of_def)
qed

lemma nodePublish_spec:
  assumes "others_ok L forget" "nodes_ok L forget w" "p < length (w_nodes w)"
  shows "wp (nodePublish L p topic data)
    (\<lambda>_ w'. part L forget 4 0 w w' [PublishOn p topic data]) (\<lambda>_ _. False) w"
proof -
  let ?st = "lp_others L w ! p"
  let ?w = "w\<lparr>w_nodes := lp_others L w, w_trace := w_trace w @ [PublishOn p topic data]\<rparr>"
  note others = nodes_ok_others [OF assms(1,2)]
  have ok: "nodes_ok L forget ?w" and p: "p < length (lp_others L w)" using others assms(3) by simp_all
  obtain r st' where r: "Publish (lp_crypto L) topic (Some data) ?st = (r, st')" by fastforce
  have "demo_node L forget ?st" using others p by (simp add: nodes_ok_def)
  from demo_node_step [OF this step_published [OF r]] nodes_ok_set [OF ok]
  have ok1: "nodes_ok L forget (?w\<lparr>w_nodes := (w_nodes ?w)[p := st']\<rparr>)" by blast
  have turn: "wp (node_turn L p (PublishMsg m)) (\<lambda>_ w'. part L forget 4 0 w w' [PublishOn p topic data]) (\<lambda>_ _. False)
      (?w\<lparr>w_nodes := (w_nodes ?w)[p := st']\<rparr>)" for m
    by (rule wp_mono [OF node_turn_spec [OF ok1]])
      (use p others in \<open>auto simp: part_def\<close>)
  have "r \<noteq> None" using r sign_total by (auto simp: Publish_def Let_def nextSeqno_def split: option.splits)
  then show ?thesis
    using p ok1 turn others
    by (auto simp: nodePublish_def wp_simps r wp_then wp_return part_def split: sum.split)
qed

lemma part_start: "nodes_ok L forget w \<Longrightarrow> part L forget ph 0 w w []"
  by (simp add: part_def)

lemma newFloodSub_spec:
  assumes "nodes_ok L forget w"
  shows "wp (newFloodSub L h)
    (\<lambda>r w'. \<exists>es. (\<exists>err. r = Inl err \<and> h_PrivKey h (h_ID h) = None \<and> part L forget 1 0 w w' es) \<or>
       r = Inr (length (w_nodes w)) \<and> part L forget 1 1 w w' es) (\<lambda>_ _. False) w"
proof (cases "h_PrivKey h (h_ID h)")
  case None
  then have "NewFloodSub (node_env L h w) [] = Some (Inl StrictWithoutKey)"
    by (simp add: NewFloodSub_def NewFloodsubWithProtocols_def NewPubSub_def newPS_def node_env_def)
  with None part_start [OF assms, of 1] show ?thesis by (simp add: newFloodSub_def wp_simps exI [of _ "[]"])
next
  case (Some key)
  then obtain st workers where st: "NewFloodSub (node_env L h w) [] = Some (Inr (st, [FloodSubID], workers))"
    by (simp add: NewFloodSub_def NewFloodsubWithProtocols_def NewPubSub_def newPS_def node_env_def floodsub_router_def
        floodsub.defs)
  then have "demo_node L forget st" unfolding demo_node_def using reach.start by metis
  with assms Some st show ?thesis
    by (simp add: newFloodSub_def wp_simps part_def nodes_ok_def)
qed

lemma createPubSubs_spec:
  assumes "nodes_ok L forget w"
  shows "wp (createPubSubs L hosts)
    (\<lambda>r w'. \<exists>es k. part L forget 1 k w w' es \<and>
       (case r of Inl err \<Rightarrow> \<exists>h \<in> set hosts. h_PrivKey h (h_ID h) = None
        | Inr ps \<Rightarrow> k = length hosts \<and> ps = [length (w_nodes w) ..< length (w_nodes w) + k])) (\<lambda>_ _. False) w"
proof -
  have "wp (createPubSubs_loop L hosts ps)
    (\<lambda>r w'. \<exists>es k. part L forget 1 k w w' es \<and>
       (case r of Inl err \<Rightarrow> \<exists>h \<in> set hosts. h_PrivKey h (h_ID h) = None
        | Inr qs \<Rightarrow> k = length hosts \<and> qs = ps @ [length (w_nodes w) ..< length (w_nodes w) + k])) (\<lambda>_ _. False) w"
    for ps using assms
  proof (induction hosts arbitrary: ps w)
    case (Cons h hosts)
    define Q where "Q = (\<lambda>r w'. \<exists>es k. part L forget 1 k w w' es \<and>
         (case r of Inl (err :: goerror) \<Rightarrow> \<exists>h \<in> set (h # hosts). h_PrivKey h (h_ID h) = None
          | Inr qs \<Rightarrow> k = length (h # hosts) \<and> qs = ps @ [length (w_nodes w) ..< length (w_nodes w) + k]))"
    have more: "wp (createPubSubs_loop L hosts (ps @ [length (w_nodes w)])) Q (\<lambda>_ _. False) w1"
      if w1: "part L forget 1 1 w w1 es" for w1 es
    proof (rule wp_mono [OF Cons.IH], goal_cases)
      case (2 r w')
      then obtain es' k where p: "part L forget 1 k w1 w' es'" and r: "case r of
          Inl err \<Rightarrow> \<exists>h \<in> set hosts. h_PrivKey h (h_ID h) = None
        | Inr qs \<Rightarrow> k = length hosts \<and> qs = (ps @ [length (w_nodes w)]) @ [length (w_nodes w1) ..< length (w_nodes w1) + k]"
        by blast
      have "length (w_nodes w1) = Suc (length (w_nodes w))" using w1 by (simp add: part_def)
      with r have "case r of Inl err \<Rightarrow> \<exists>h \<in> set (h # hosts). h_PrivKey h (h_ID h) = None
          | Inr qs \<Rightarrow> 1 + k = length (h # hosts) \<and> qs = ps @ [length (w_nodes w) ..< length (w_nodes w) + (1 + k)]"
        by (auto simp: upt_conv_Cons simp del: upt_Suc split: sum.splits)
      with part_trans [OF w1 p] show ?case unfolding Q_def by blast
    qed (use w1 in \<open>simp_all add: part_def\<close>)
    have failed: "Q (Inl err) w1" if "part L forget 1 0 w w1 es" "h_PrivKey h (h_ID h) = None" for w1 es err
      using that by (auto simp: Q_def)
    have "wp (createPubSubs_loop L (h # hosts) ps) Q (\<lambda>_ _. False) w"
      unfolding createPubSubs_loop.simps wp_simps
      by (rule wp_mono [OF newFloodSub_spec [OF Cons.prems]]) (auto simp: wp_simps simp del: One_nat_def intro: more failed)
    then show ?case by (simp only: Q_def)
  qed (auto simp: wp_simps intro: part_start)
  from this [of "[]", unfolded append_Nil] show ?thesis by (simp only: createPubSubs_def)
qed

lemma subscribe_spec:
  assumes "others_ok L forget" "nodes_ok L forget w" "\<forall>p \<in> set ps. p < length (w_nodes w)"
  shows "wp (subscribe L ps) (\<lambda>err w'. err = None \<and> (\<exists>es. part L forget 3 0 w w' es)) (\<lambda>_ _. False) w"
proof -
  have loop: "wp (subscribe_loop L i ps) (\<lambda>err w'. err = None \<and> (\<exists>es. part L forget 3 0 w w' es)) (\<lambda>_ _. False) w"
    if "nodes_ok L forget w" "\<forall>p \<in> set ps. p < length (w_nodes w)" for i w
    using that
  proof (induction ps arbitrary: i w)
    case (Cons p ps)
    define Q where "Q = (\<lambda>err w'. err = (None :: goerror option) \<and> (\<exists>es. part L forget 3 0 w w' es))"
    have more: "wp (subscribe_loop L (i + 1) ps) Q (\<lambda>_ _. False) w1" if w1: "part L forget 3 0 w w1 es" for w1 es
    proof (rule wp_mono [OF Cons.IH], goal_cases)
      case (3 err w')
      with w1 part_trans [OF w1] show ?case unfolding Q_def by fastforce
    qed (use w1 Cons.prems in \<open>simp_all add: part_def\<close>)
    have more': "wp (subscribe_loop L (i + 1) ps) Q (\<lambda>_ _. False) (w1\<lparr>w_trace := w_trace w1 @ [ReadSubscription i p sub]\<rparr>)"
      if "part L forget 3 0 w w1 [SubscribeNode p (str ''art'')]" for w1 sub
      using that by (intro more [of _ "[SubscribeNode p (str ''art''), ReadSubscription i p sub]"]) (simp add: part_def)
    have "p < length (w_nodes w)" using Cons.prems by simp
    from nodeSubscribe_spec [OF assms(1) Cons.prems(1) this]
    have "wp (subscribe_loop L i (p # ps)) Q (\<lambda>_ _. False) w"
      unfolding subscribe_loop.simps wp_simps by (rule wp_mono) (auto simp: wp_simps intro: more')
    then show ?case by (simp only: Q_def)
  qed (auto simp: wp_simps intro: part_start)
  show ?thesis unfolding subscribe_def wp_then wp_emit
    by (rule wp_mono [OF loop]) (use assms in \<open>auto simp: part_def [abs_def]\<close>)
qed

text \<open>What was published on which node.\<close>

definition published :: "effect list \<Rightarrow> (nat \<times> topic \<times> gostring) list" where
  "published = List.map_filter (\<lambda>e. case e of PublishOn p t d \<Rightarrow> Some (p, t, d) | _ \<Rightarrow> None)"

lemma published_simps [simp]:
  "published [] = []" "published (e # es) = (case e of PublishOn p t d \<Rightarrow> [(p, t, d)] | _ \<Rightarrow> []) @ published es"
  "published (xs @ ys) = published xs @ published ys"
  by (simp_all add: published_def List.map_filter_simps split: effect.split)

definition payloads :: "nat \<Rightarrow> gostring \<Rightarrow> nat list \<Rightarrow> (nat \<times> topic \<times> gostring) list" where
  "payloads p data is = map (\<lambda>i. (p, str ''art'', data[0 := of_nat (i mod 255)])) is"

lemma publish_loop_spec:
  assumes "others_ok L forget" "nodes_ok L forget w" "data \<noteq> []" "ps \<noteq> []" "hd ps < length (w_nodes w)"
  shows "wp (publish_loop L ps delay i k data)
    (\<lambda>data' w'. \<exists>es. part L forget 4 0 w w' es \<and> published es = payloads (hd ps) data [i ..< i + k] \<and>
       tl data' = tl data \<and> data' \<noteq> []) (\<lambda>_ _. False) w"
  using assms(2,3,5)
proof (induction k arbitrary: i w data)
  case (Suc k)
  let ?data = "data[0 := of_nat (i mod 255)]"
  have data: "payloads (hd ps) ?data js = payloads (hd ps) data js" "tl ?data = tl data" "?data \<noteq> []" for js
    using Suc.prems(2) by (cases data; simp add: payloads_def)+
  define Q where "Q = (\<lambda>data' w'. \<exists>es. part L forget 4 0 w w' es \<and>
    published es = payloads (hd ps) data [i ..< i + Suc k] \<and> tl data' = tl data \<and> data' \<noteq> [])"
  have more: "wp (publish_loop L ps delay (Suc i) k ?data) Q (\<lambda>_ _. False) w1"
    if w1: "part L forget 4 0 w w1 es" "published es = [(hd ps, str ''art'', ?data)]" for w1 es
  proof (rule wp_mono [OF Suc.IH], goal_cases)
    case (4 data' w')
    then obtain es' where es': "part L forget 4 0 w1 w' es'" "published es' = payloads (hd ps) data [Suc i ..< Suc i + k]"
      "tl data' = tl data" "data' \<noteq> []" by (auto simp: data)
    have "published (es @ es') = payloads (hd ps) data [i ..< i + Suc k]"
      using w1(2) es'(2) by (simp add: payloads_def upt_conv_Cons del: upt_Suc)
    with part_trans [OF w1(1) es'(1)] es'(3,4) show ?case unfolding Q_def by auto
  qed (use w1 Suc.prems data in \<open>simp_all add: part_def\<close>)
  let ?w = "w\<lparr>w_trace := w_trace w @ [Log [Text ''Publish ...'']]\<rparr>"
  have "nodes_ok L forget ?w" "hd ps < length (w_nodes ?w)" using Suc.prems by simp_all
  from nodePublish_spec [OF assms(1) this, of "str ''art''" ?data]
  have "wp (nodePublish L (hd ps) (str ''art'') ?data)
    (\<lambda>_ w'. part L forget 4 0 w w' [Log [Text ''Publish ...''], PublishOn (hd ps) (str ''art'') ?data]) (\<lambda>_ _. False) ?w"
    by (rule wp_mono) (auto simp: part_def)
  then have "wp (nodePublish L (hd ps) (str ''art'') ?data)
    (\<lambda>r. wp (case r of None \<Rightarrow> io_return () | Some err \<Rightarrow> emit (Log [Err err]))
      (\<lambda>_. wp (emit (Sleep delay)) (\<lambda>_. wp (publish_loop L ps delay (Suc i) k ?data) Q (\<lambda>_ _. False)) (\<lambda>_ _. False)) (\<lambda>_ _. False))
    (\<lambda>_ _. False) ?w"
  proof (rule wp_mono)
    fix r w'
    assume p: "part L forget 4 0 w w' [Log [Text ''Publish ...''], PublishOn (hd ps) (str ''art'') ?data]"
    have "wp (publish_loop L ps delay (Suc i) k ?data) Q (\<lambda>_ _. False) (w'\<lparr>w_trace := w_trace w' @ ls @ [Sleep delay]\<rparr>)"
      if "ls = [] \<or> (\<exists>err. ls = [Log [Err err]])" for ls
      using p that
      by (intro more [of _ "[Log [Text ''Publish ...''], PublishOn (hd ps) (str ''art'') ?data] @ ls @ [Sleep delay]"])
        (auto simp: part_def)
    from this [of "[]"] this [of "[Log [Err err]]" for err]
    show "wp (case r of None \<Rightarrow> io_return () | Some err \<Rightarrow> emit (Log [Err err]))
      (\<lambda>_. wp (emit (Sleep delay)) (\<lambda>_. wp (publish_loop L ps delay (Suc i) k ?data) Q (\<lambda>_ _. False)) (\<lambda>_ _. False))
      (\<lambda>_ _. False) w'" by (auto simp: wp_simps split: option.split)
  qed simp
  with Suc.prems assms(4) have "wp (publish_loop L ps delay i (Suc k) data) Q (\<lambda>_ _. False) w"
    by (simp add: wp_then wp_bind wp_emit wp_if wp_let wp_nth hd_conv_nth)
  then show ?case by (simp only: Q_def)
qed (auto simp: wp_simps payloads_def intro: part_start)

lemma publish_spec:
  assumes "others_ok L forget" "nodes_ok L forget w" "data \<noteq> []" "ps \<noteq> []" "hd ps < length (w_nodes w)"
  shows "wp (publish L ps data cnt delay)
    (\<lambda>(data', err) w'. err = None \<and> tl data' = tl data \<and> data' \<noteq> [] \<and>
       (\<exists>es. part L forget 4 0 w w' es \<and> published es = payloads (hd ps) data [0 ..< cnt])) (\<lambda>_ _. False) w"
  unfolding publish_def wp_simps
  by (rule wp_mono [OF publish_loop_spec [OF assms(1) _ assms(3,4)]]) (use assms in \<open>auto simp: part_def\<close>)

section \<open>The whole program\<close>

definition phases :: "effect list \<Rightarrow> nat list" where
  "phases = List.map_filter phase"

lemma phases_append [simp]: "phases (xs @ ys) = phases xs @ phases ys"
  by (simp add: phases_def)

lemma phases_log [simp]: "phases [] = []" "phases (Log vs # es) = phases es"
  by (simp_all add: phases_def List.map_filter_simps)

lemma phases_of: "list_all (in_phase k) es \<Longrightarrow> set (phases es) \<subseteq> {k} \<and> sorted (phases es)"
  by (induction es) (auto simp: phases_def List.map_filter_simps split: option.split)

lemma phases_only:
  "k \<notin> set (phases es) \<Longrightarrow> (k = 0 \<longrightarrow> opened es = []) \<and> (k = 2 \<longrightarrow> links es = []) \<and> (k = 4 \<longrightarrow> published es = []) \<and>
     (k = 5 \<longrightarrow> closed es = [])"
proof (induction es)
  case (Cons e es)
  then show ?case by (cases e) (auto simp: phases_def List.map_filter_simps)
qed simp

text \<open>
  A run of the rest of the body from phase \<open>ph\<close> on: the phases come in order, and what is published and which
  links are made is \<open>P\<close>.
\<close>

definition rest ::
  "'s libp2p \<Rightarrow> ('s \<Rightarrow> 's \<Rightarrow> bool) \<Rightarrow> nat \<Rightarrow> 's world \<Rightarrow> 's world \<Rightarrow> effect list \<Rightarrow> bool" where
  "rest L forget ph w w' es \<longleftrightarrow>
     nodes_ok L forget w' \<and> w_trace w' = w_trace w @ es \<and> sorted (phases es) \<and> set (phases es) \<subseteq> {ph..4}"

lemma rest_part:
  assumes "part L forget ph k w w1 es" "rest L forget (Suc ph) w1 w' es'" "ph \<le> 4"
  shows "rest L forget ph w w' (es @ es')"
proof -
  have "set (phases es) \<subseteq> {ph} \<and> sorted (phases es)" using assms(1) phases_of [of ph es] by (simp add: part_def)
  with assms show ?thesis by (fastforce simp: rest_def part_def sorted_append)
qed

lemma rest_log:
  assumes "part L forget ph k w w1 es" "ph \<le> 4"
  shows "rest L forget ph w (w1\<lparr>w_trace := w_trace w1 @ [Log vs]\<rparr>) (es @ [Log vs])"
  by (rule rest_part [OF assms(1) _ assms(2)]) (use assms(1) in \<open>simp add: rest_def part_def\<close>)

lemma part_other:
  "part L forget ph k w w' es \<Longrightarrow> (ph \<noteq> 2 \<longrightarrow> links es = []) \<and> (ph \<noteq> 4 \<longrightarrow> published es = []) \<and>
     (ph \<noteq> 0 \<longrightarrow> opened es = []) \<and> (ph \<noteq> 5 \<longrightarrow> closed es = [])"
  using phases_of [of ph es] phases_only [of _ es] by (fastforce simp: part_def)

abbreviation publish_rest where
  "publish_rest L ps \<equiv> io_bind (publish L ps (str ''xabc'') 3 1000000000) (\<lambda>(data, r). log_error r)"

abbreviation subscribe_rest where
  "subscribe_rest L ps \<equiv>
     io_bind (subscribe L ps) (\<lambda>r. case r of Some err \<Rightarrow> emit (Log [Err err]) | None \<Rightarrow> publish_rest L ps)"

abbreviation connect_rest where
  "connect_rest L hosts ps \<equiv>
     io_bind (connectHosts L hosts) (\<lambda>r. case r of Some err \<Rightarrow> emit (Log [Err err]) | None \<Rightarrow> subscribe_rest L ps)"

lemma publish_rest_spec:
  assumes "others_ok L forget" "nodes_ok L forget w" "ps \<noteq> []" "hd ps < length (w_nodes w)"
  shows "wp (publish_rest L ps)
    (\<lambda>_ w'. \<exists>es. rest L forget 4 w w' es \<and> links es = [] \<and> published es = payloads (hd ps) (str ''xabc'') [0 ..< 3])
    (\<lambda>_ _. False) w"
  unfolding wp_bind
proof (rule wp_mono [OF publish_spec [OF assms(1,2) _ assms(3,4)]], goal_cases)
  case (2 r w')
  then obtain es where p: "part L forget 4 0 w w' es" "published es = payloads (hd ps) (str ''xabc'') [0 ..< 3]"
    and r: "snd r = None" by auto
  have "rest L forget 4 w w' es" using p phases_of [of 4 es] by (simp add: rest_def part_def)
  with p part_other [OF p(1)] r show ?case by (auto simp: log_error_def wp_simps split: prod.split)
qed (simp_all add: str_def)

lemma subscribe_rest_spec:
  assumes "others_ok L forget" "nodes_ok L forget w" "ps \<noteq> []" "\<forall>p \<in> set ps. p < length (w_nodes w)"
  shows "wp (subscribe_rest L ps)
    (\<lambda>_ w'. \<exists>es. rest L forget 3 w w' es \<and> links es = [] \<and> published es = payloads (hd ps) (str ''xabc'') [0 ..< 3])
    (\<lambda>_ _. False) w"
  unfolding wp_bind [of "subscribe L ps"]
proof (rule wp_mono [OF subscribe_spec [OF assms(1,2,4)]], goal_cases)
  case (1 r w1)
  then obtain es where p: "part L forget 3 0 w w1 es" and r: "r = None" by blast
  have "nodes_ok L forget w1" "hd ps < length (w_nodes w1)" using p assms(3,4) by (simp_all add: part_def)
  from publish_rest_spec [OF assms(1) this(1) assms(3) this(2)] show ?case unfolding r option.case
  proof (rule wp_mono, clarify)
    fix w' es'
    assume r': "rest L forget 4 w1 w' es'" "links es' = []" "published es' = payloads (hd ps) (str ''xabc'') [0 ..< 3]"
    have "rest L forget 3 w w' (es @ es')" using rest_part [OF p] r'(1) by simp
    with r'(2,3) part_other [OF p]
    show "\<exists>es. rest L forget 3 w w' es \<and> links es = [] \<and> published es = payloads (hd ps) (str ''xabc'') [0 ..< 3]"
      by (intro exI [of _ "es @ es'"]) simp
  qed simp
qed simp

lemma connect_rest_spec:
  assumes "others_ok L forget" "nodes_ok L forget w" "ps \<noteq> []" "\<forall>p \<in> set ps. p < length (w_nodes w)"
  shows "wp (connect_rest L hosts ps)
    (\<lambda>_ w'. \<exists>es. rest L forget 2 w w' es \<and>
       (lib_ok L \<longrightarrow> links es = chain (map h_ID hosts) \<and> published es = payloads (hd ps) (str ''xabc'') [0 ..< 3]))
    (\<lambda>_ _. False) w"
  unfolding wp_bind [of "connectHosts L hosts"]
proof (rule wp_mono [OF connectHosts_spec], clarify)
  fix r :: "goerror option" and w1 :: "'a world" and es n
  assume w1: "w_trace w1 = w_trace w @ es" "w_nodes w1 = w_nodes w" and ph: "list_all (in_phase 2) es"
    and links: "links es = take n (chain (map h_ID hosts))" "r = None \<longrightarrow> length hosts \<le> Suc n" "lib_ok L \<longrightarrow> r = None"
  have p: "part L forget 2 0 w w1 es" using w1 ph assms(2) by (simp add: part_def nodes_ok_def)
  show "wp (case r of Some err \<Rightarrow> emit (Log [Err err]) | None \<Rightarrow> subscribe_rest L ps)
    (\<lambda>_ w'. \<exists>es. rest L forget 2 w w' es \<and>
       (lib_ok L \<longrightarrow> links es = chain (map h_ID hosts) \<and> published es = payloads (hd ps) (str ''xabc'') [0 ..< 3]))
    (\<lambda>_ _. False) w1"
  proof (cases r)
    case None
    have n1: "nodes_ok L forget w1" "\<forall>p \<in> set ps. p < length (w_nodes w1)" using w1(2) assms(2,4) by (simp_all add: nodes_ok_def)
    have all_links: "links es = chain (map h_ID hosts)" using links None by (auto simp: chain_def)
    show ?thesis unfolding None option.case
    proof (rule wp_mono [OF subscribe_rest_spec [OF assms(1) n1(1) assms(3) n1(2)]], clarify)
      fix w' es'
      assume r': "rest L forget 3 w1 w' es'" "links es' = []" "published es' = payloads (hd ps) (str ''xabc'') [0 ..< 3]"
      have "rest L forget 2 w w' (es @ es')" using rest_part [OF p] r'(1) by simp
      with r'(2,3) part_other [OF p] all_links show "\<exists>es. rest L forget 2 w w' es \<and>
          (lib_ok L \<longrightarrow> links es = chain (map h_ID hosts) \<and> published es = payloads (hd ps) (str ''xabc'') [0 ..< 3])"
        by (intro exI [of _ "es @ es'"]) simp
    qed simp
  next
    case (Some err)
    with rest_log [OF p, of "[Err err]"] links(3) show ?thesis by (auto simp: wp_simps)
  qed
qed simp

lemma pubsub_body_spec:
  assumes "others_ok L forget" "nodes_ok L forget w" "hosts \<noteq> []"
  shows "wp (pubsub_body L hosts)
    (\<lambda>_ w'. \<exists>es. rest L forget 1 w w' es \<and>
       (lib_ok L \<and> (\<forall>h \<in> set hosts. h_PrivKey h (h_ID h) \<noteq> None) \<longrightarrow>
          links es = chain (map h_ID hosts) \<and> published es = payloads (length (w_nodes w)) (str ''xabc'') [0 ..< 3]))
    (\<lambda>_ _. False) w"
  unfolding pubsub_body_def wp_bind [of "createPubSubs L hosts"]
proof (rule wp_mono [OF createPubSubs_spec [OF assms(2)]], elim exE conjE)
  fix r :: "goerror + nat list" and w1 es k
  assume p: "part L forget 1 k w w1 es"
    and r: "case r of Inl err \<Rightarrow> \<exists>h \<in> set hosts. h_PrivKey h (h_ID h) = None
      | Inr ps \<Rightarrow> k = length hosts \<and> ps = [length (w_nodes w) ..< length (w_nodes w) + k]"
  show "wp (case r of Inl err \<Rightarrow> emit (Log [Err err]) | Inr ps \<Rightarrow> connect_rest L hosts ps)
    (\<lambda>_ w'. \<exists>es. rest L forget 1 w w' es \<and>
       (lib_ok L \<and> (\<forall>h \<in> set hosts. h_PrivKey h (h_ID h) \<noteq> None) \<longrightarrow>
          links es = chain (map h_ID hosts) \<and> published es = payloads (length (w_nodes w)) (str ''xabc'') [0 ..< 3]))
    (\<lambda>_ _. False) w1"
  proof (cases r)
    case (Inl err)
    with r have "\<not> (\<forall>h \<in> set hosts. h_PrivKey h (h_ID h) \<noteq> None)" by simp
    with rest_log [OF p, of "[Err err]"] Inl show ?thesis by (simp add: wp_simps del: One_nat_def) (rule exI [of _ "es @ [Log [Err err]]"], auto)
  next
    case (Inr ps)
    then have ps: "ps = [length (w_nodes w) ..< length (w_nodes w) + length hosts]" "k = length hosts" using r by simp_all
    then have n1: "nodes_ok L forget w1" "\<forall>p \<in> set ps. p < length (w_nodes w1)" "ps \<noteq> []" "hd ps = length (w_nodes w)"
      using p assms(3) by (auto simp: part_def)
    show ?thesis unfolding Inr sum.case
    proof (rule wp_mono [OF connect_rest_spec [OF assms(1) n1(1,3,2)]], elim exE conjE)
      fix w' es'
      assume r': "rest L forget 2 w1 w' es'"
        "lib_ok L \<longrightarrow> links es' = chain (map h_ID hosts) \<and> published es' = payloads (hd ps) (str ''xabc'') [0 ..< 3]"
      have "rest L forget 1 w w' (es @ es')" using rest_part [OF p] r'(1) by (simp add: numeral_2_eq_2)
      with r'(2) part_other [OF p] n1(4) show "\<exists>es. rest L forget 1 w w' es \<and>
          (lib_ok L \<and> (\<forall>h \<in> set hosts. h_PrivKey h (h_ID h) \<noteq> None) \<longrightarrow>
             links es = chain (map h_ID hosts) \<and> published es = payloads (length (w_nodes w)) (str ''xabc'') [0 ..< 3])"
        by (intro exI [of _ "es @ es'"]) simp
    qed simp
  qed
qed simp

text \<open>
  A run of \<open>testPubSub\<close>: its phases come in order, every host is closed again unless creating the hosts failed,
  and if nothing fails three hosts are linked in a chain and three messages are published on the first.
\<close>

definition demo_run :: "'s libp2p \<Rightarrow> nat \<Rightarrow> effect list \<Rightarrow> bool" where
  "demo_run L n es \<longleftrightarrow>
     sorted (phases es) \<and> (closed es = opened es \<or> closed es = [] \<and> set (phases es) \<subseteq> {0} \<and> \<not> lib_ok L) \<and>
     (lib_ok L \<longrightarrow> length (opened es) = 3 \<and> links es = chain (opened es) \<and>
        published es = payloads n (str ''xabc'') [0, 1, 2])"

lemma testPubSub_spec:
  assumes "others_ok L forget" "nodes_ok L forget w"
  shows "wp (testPubSub L)
    (\<lambda>_ w'. nodes_ok L forget w' \<and> (\<exists>es. w_trace w' = w_trace w @ es \<and> demo_run L (length (w_nodes w)) es))
    (no_address L w) w"
  unfolding testPubSub_def wp_bind [of "createHosts L 3"]
proof (rule wp_mono [OF createHosts_spec], clarify)
  fix hs :: "host list" and err :: "goerror option" and w1 :: "'a world" and es1
  assume hs: "length hs \<le> 3" "err = None \<longrightarrow> length hs = 3" "w_trace w1 = w_trace w @ es1" "opened es1 = map h_ID hs"
    "list_all (in_phase 0) es1" "w_nodes w1 = w_nodes w" "all_fine L hs err"
  note ph1 = phases_of [OF hs(5)]
  have n1: "nodes_ok L forget w1" using assms(2) hs(6) by (simp add: nodes_ok_def)
  have "5 \<notin> set (phases es1)" using ph1 by auto
  then have "closed es1 = []" using phases_only [of 5 es1] by simp
  show "wp (case err of Some err \<Rightarrow> emit (Log [Err err]) | None \<Rightarrow> io_defer (shutdown L hs) (pubsub_body L hs))
    (\<lambda>_ w'. nodes_ok L forget w' \<and> (\<exists>es. w_trace w' = w_trace w @ es \<and> demo_run L (length (w_nodes w)) es))
    (no_address L w) w1"
  proof (cases err)
    case (Some e)
    then have "\<not> lib_ok L" using hs(7) by (auto simp: all_fine_def)
    with ph1 hs n1 \<open>closed es1 = []\<close> have "demo_run L (length (w_nodes w)) (es1 @ [Log [Err e]])" by (auto simp: demo_run_def)
    with Some hs(3) n1 show ?thesis by (simp add: wp_simps)
  next
    case None
    then have "hs \<noteq> []" using hs(2) by auto
    show ?thesis unfolding None option.case wp_defer
    proof (rule wp_mono [OF pubsub_body_spec [OF assms(1) n1 \<open>hs \<noteq> []\<close>]], clarify)
      fix w2 es2
      assume r: "rest L forget 1 w1 w2 es2"
        "lib_ok L \<and> (\<forall>h \<in> set hs. h_PrivKey h (h_ID h) \<noteq> None) \<longrightarrow>
           links es2 = chain (map h_ID hs) \<and> published es2 = payloads (length (w_nodes w1)) (str ''xabc'') [0 ..< 3]"
      have ph2: "sorted (phases es2)" "set (phases es2) \<subseteq> {1..4}" using r(1) by (simp_all add: rest_def)
      have "\<exists>es. w_trace w' = w_trace w @ es \<and> demo_run L (length (w_nodes w)) es"
        if es3: "w_trace w' = w_trace w2 @ es3" "closed es3 = map h_ID hs" "list_all (in_phase 5) es3" for w' :: "'a world" and es3
      proof (intro exI conjI)
        show "w_trace w' = w_trace w @ es1 @ es2 @ es3" using es3(1) r(1) hs(3) by (simp add: rest_def)
        note ph3 = phases_of [OF es3(3)]
        have outside: "2 \<notin> set (phases es1)" "4 \<notin> set (phases es1)" "0 \<notin> set (phases es2)" "5 \<notin> set (phases es2)"
          "0 \<notin> set (phases es3)" "2 \<notin> set (phases es3)" "4 \<notin> set (phases es3)"
          using ph1 ph2(2) ph3 by auto
        have "sorted (phases (es1 @ es2 @ es3))" using ph1 ph2 ph3 by (fastforce simp: sorted_append)
        moreover have "opened (es1 @ es2 @ es3) = map h_ID hs"
          using hs(4) phases_only [of 0 es2] phases_only [of 0 es3] outside by simp
        moreover have "closed (es1 @ es2 @ es3) = map h_ID hs"
          using es3(2) phases_only [of 5 es2] outside \<open>closed es1 = []\<close> by simp
        moreover have "links (es1 @ es2 @ es3) = links es2" "published (es1 @ es2 @ es3) = published es2"
          using phases_only [of 2 es1] phases_only [of 2 es3] phases_only [of 4 es1] phases_only [of 4 es3] outside by simp_all
        moreover have "[0 ..< 3] = [0 :: nat, 1, 2]" by (simp add: upt_rec)
        ultimately show "demo_run L (length (w_nodes w)) (es1 @ es2 @ es3)"
          using r(2) hs(2,6,7) None by (auto simp: demo_run_def all_fine_def)
      qed
      moreover have "nodes_ok L forget w2" using r(1) by (simp add: rest_def)
      ultimately show "wp (shutdown L hs)
        (\<lambda>_ w'. nodes_ok L forget w' \<and> (\<exists>es. w_trace w' = w_trace w @ es \<and> demo_run L (length (w_nodes w)) es))
        (no_address L w) w2"
        by (intro wp_mono [OF shutdown_spec]) (auto simp: nodes_ok_def)
    qed simp
  qed
qed simp

section \<open>Properties\<close>

lemma sample_others: "others_ok sample_lib forget"
  by (simp add: others_ok_def sample_lib_def list.rel_refl)

lemma start_nodes: "nodes_ok L forget start_world"
  by (simp add: nodes_ok_def start_world_def)

lemma sample_returns: "\<exists>w'. testPubSub sample_lib start_world = (Done (), w')"
proof (cases "testPubSub sample_lib start_world")
  case (Pair r w')
  have "wp (testPubSub sample_lib) (\<lambda>_ _. True) (no_address sample_lib start_world) start_world"
    by (rule wp_mono [OF testPubSub_spec [OF sample_others start_nodes]]) simp_all
  then show ?thesis
    using Pair no_address_ok [OF sample_lib_fine(1)] by (cases r) (auto simp: wp_def)
qed

text \<open>
  C33: \<open>testPubSub\<close> always comes to its end: whatever libp2p answers to its calls, whichever of them fail, and
  whatever the goroutines of its nodes do in between, it returns after its three rounds of publishing, and its nodes
  are in states that nodes can get into. There is one way in which it panics: \<open>createHosts\<close> prints
  \<open>multiAddrs[0]\<close> of each host, and a host may have no address; this happens before any node is started.
\<close>

theorem testPubSub_returns:
  assumes "others_ok L forget" "nodes_ok L forget w"
  shows "\<exists>w'. nodes_ok L forget w' \<and>
    (testPubSub L w = (Done (), w') \<or>
     testPubSub L w = (Stopped Panicking, w') \<and> (\<exists>ai. lp_AddrInfoToP2pAddrs L ai = Inr []) \<and> w_nodes w' = w_nodes w)"
proof (cases "testPubSub L w")
  case (Pair r w')
  show ?thesis
  proof (cases r)
    case (Done x)
    then show ?thesis using wp_DoneD [OF testPubSub_spec [OF assms]] Pair by auto
  next
    case (Stopped s)
    then have "no_address L w s w'" using wp_StoppedD [OF testPubSub_spec [OF assms]] Pair by blast
    then show ?thesis using Pair Stopped assms(2) by (auto simp: no_address_def nodes_ok_def)
  qed
qed

lemma sample_addresses: "lp_AddrInfoToP2pAddrs sample_lib ai \<noteq> Inr []"
  using sample_lib_fine(1) by (auto simp: addrs_ok_def)

theorem testPubSub_returns_witness:
  "\<exists>w'. testPubSub sample_lib start_world = (Done (), w') \<and> nodes_ok sample_lib (=) w'"
  using testPubSub_returns [OF sample_others start_nodes, where forget = "(=)"] sample_addresses by blast

text \<open>The panic, when the first host has no address.\<close>

lemma no_address_panics:
  assumes "\<And>w cfg. lp_New L w cfg = Inr node" "\<And>ai. lp_AddrInfoToP2pAddrs L ai = Inr []"
  shows "fst (testPubSub L w) = Stopped Panicking"
  by (simp add: testPubSub_def createHosts_def numeral_3_eq_3 newHost_def addrInfo_def assms io_then_def io_bind_def emit_def
      ask_def io_return_def io_nth_def io_stop_def)

text \<open>
  C34: what \<open>testPubSub\<close> does, in this order: it creates hosts, starts a node on each of them before any two are
  connected, connects each host to the one before, subscribes every node, publishes on the first, and closes
  the hosts. It closes every host it opened unless creating them failed. If nothing fails there are three
  hosts in a chain, and the three messages carry the bytes \<open>xabc\<close> with the number of the message in place of
  the first.
\<close>

theorem testPubSub_run:
  assumes "others_ok L forget" "nodes_ok L forget w" "testPubSub L w = (Done (), w')"
  shows "\<exists>es. w_trace w' = w_trace w @ es \<and> sorted (phases es) \<and>
    (closed es = opened es \<or> closed es = [] \<and> set (phases es) \<subseteq> {0} \<and> \<not> lib_ok L) \<and>
    (lib_ok L \<longrightarrow> length (opened es) = 3 \<and> links es = zip (tl (opened es)) (opened es) \<and>
       published es = map (\<lambda>i. (length (w_nodes w), str ''art'', (str ''xabc'')[0 := of_nat (i mod 255)])) [0, 1, 2])"
  using wp_DoneD [OF testPubSub_spec [OF assms(1,2)] assms(3)]
  by (auto simp: demo_run_def chain_def payloads_def)

theorem testPubSub_run_witness:
  "\<exists>w' es. testPubSub sample_lib start_world = (Done (), w') \<and> w_trace w' = es \<and> closed es = opened es \<and>
     length (opened es) = 3 \<and>
     published es = [(0, str ''art'', 0 # str ''abc''), (0, str ''art'', 1 # str ''abc''), (0, str ''art'', 2 # str ''abc'')]"
proof -
  obtain w' where w': "testPubSub sample_lib start_world = (Done (), w')"
    using sample_returns by blast
  from testPubSub_run [OF sample_others start_nodes w'] sample_lib_fine(2) w'
  show ?thesis by (auto simp: start_world_def str_def)
qed

text \<open>
  When creating the hosts fails, the hosts created before stay open: the deferred cleanup is set up only
  after the check of the error.
\<close>

lemma createHosts_leaks:
  assumes "createHosts L 3 w = (Done (hs, Some err), w1)"
  shows "\<exists>es. testPubSub L w = (Done (), w1\<lparr>w_trace := w_trace w @ es\<rparr>) \<and> opened es = map h_ID hs \<and> closed es = []"
proof -
  obtain es where es: "w_trace w1 = w_trace w @ es" "opened es = map h_ID hs" "list_all (in_phase 0) es"
    using wp_DoneD [OF createHosts_spec assms] by auto
  have "5 \<notin> set (phases es)" using phases_of [OF es(3)] by auto
  then have "closed es = []" using phases_only [of 5 es] by simp
  with es assms show ?thesis
    by (intro exI [of _ "es @ [Log [Err err]]"]) (simp add: testPubSub_def io_bind_def emit_def)
qed

text \<open>
  The reader of a cancelled subscription never ends and never waits: every turn of its loop prints the same
  error again.
\<close>

lemma reader_spins:
  assumes "ch_closed (s_ch sub)" "ch_buf (s_ch sub) = []"
  shows "reader_loop i (replicate n (\<lambda>s. s)) sub =
    (replicate n [Err (LibError ''subscription cancelled by calling sub.Cancel()'')], sub)"
  using assms by (induction n) (simp_all add: Next_def)

text \<open>The reader prints the messages that arrive on the channel, in order, and nothing else while it is open.\<close>

definition arrives :: "pb_Message list \<Rightarrow> Subscription \<Rightarrow> Subscription" where
  "arrives ms sub = sub\<lparr>s_ch := (s_ch sub)\<lparr>ch_buf := ch_buf (s_ch sub) @ ms\<rparr>\<rparr>"

definition printed_message :: "int \<Rightarrow> pb_Message \<Rightarrow> printed list" where
  "printed_message i msg =
     [Text ''host'', Num i, Text ''received msg'', Topics (m_TopicIDs msg), PeerID (GetFrom msg), Bytes (bytes_of (m_Seqno msg))]"

lemma reader_prints:
  assumes "\<not> ch_closed (s_ch sub)"
  shows "\<exists>n. fst (reader_loop i (map arrives mss) sub) = map (printed_message i) (take n (ch_buf (s_ch sub) @ concat mss)) \<and>
    ch_buf (s_ch (snd (reader_loop i (map arrives mss) sub))) = drop n (ch_buf (s_ch sub) @ concat mss)"
  using assms
proof (induction mss arbitrary: sub)
  case (Cons ms mss)
  show ?case
  proof (cases "ch_buf (s_ch sub) @ ms")
    case Nil
    have "\<not> ch_closed (s_ch (arrives ms sub))" "ch_buf (s_ch (arrives ms sub)) = []" "ms = []" "ch_buf (s_ch sub) = []"
      using Nil Cons.prems by (simp_all add: arrives_def)
    moreover from this have "Next (arrives ms sub) = None" by (simp add: Next_def)
    ultimately show ?thesis using Cons.IH [of "arrives ms sub"] by simp
  next
    case (Cons m ms')
    let ?sub = "(arrives ms sub)\<lparr>s_ch := (s_ch (arrives ms sub))\<lparr>ch_buf := ms'\<rparr>\<rparr>"
    have "\<not> ch_closed (s_ch ?sub)" using Cons.prems by (simp add: arrives_def)
    from Cons.IH [OF this] obtain n where
      "fst (reader_loop i (map arrives mss) ?sub) = map (printed_message i) (take n (ms' @ concat mss))"
      "ch_buf (s_ch (snd (reader_loop i (map arrives mss) ?sub))) = drop n (ms' @ concat mss)" by auto
    moreover have "Next (arrives ms sub) = Some (NextMsg m, ?sub)" using Cons by (simp add: Next_def arrives_def)
    ultimately show ?thesis using Cons
      by (intro exI [of _ "Suc n"]) (simp add: printed_message_def case_prod_unfold Let_def flip: append_assoc)
  qed
qed (rule exI [of _ 0], simp)

end
