(* ===== verification/HelloDemo.thy ===== *)
theory HelloDemo
  imports Hosts
begin

text \<open>
  \<open>grpc.go\<close>, \<open>close_conn.go\<close> and \<open>main.go\<close>: a greeting service over libp2p streams. The transport (the package
  \<open>p2pgrpc\<close> and gRPC itself) is a parameter; the generated stubs of \<open>hello.pb.go\<close> only pass a request's \<open>Name\<close>
  and a response's \<open>Welcome\<close> on, which are the strings here.
\<close>

section \<open>The servers\<close>

text \<open>
  The response of \<open>HelloServer.SayHello\<close>, and what it leaves to a goroutine to send on its channel \<open>c\<close>;
  \<open>has_c\<close> tells whether \<open>c\<close> is not nil. \<open>HelloServer2\<close> ignores the error and has no channel.
\<close>

definition SayHello :: "'s libp2p \<Rightarrow> bool \<Rightarrow> string \<Rightarrow> ('s, string \<times> peer option) io" where
  "SayHello L has_c name =
     (case lp_IDB58Decode L name of (pid, err) \<Rightarrow>
        io_then (emit (Log [Text ''hello from'', PeerID pid]))
          (io_return (''Hello '' @ name, if err = None \<and> has_c then Some pid else None)))"

definition SayHello2 :: "'s libp2p \<Rightarrow> string \<Rightarrow> ('s, string) io" where
  "SayHello2 L name =
     (case lp_IDB58Decode L name of (pid, _) \<Rightarrow>
        io_then (emit (Log [Text ''hello from'', PeerID pid])) (io_return (''Hello '' @ name)))"

definition setupServer :: "host \<Rightarrow> bool \<Rightarrow> ('s, unit) io" where
  "setupServer h has_c =
     io_then (emit (ServeHello (h_ID h) has_c)) (emit (Print [Text ''Public serving...'']))"

section \<open>The clients\<close>

definition dial :: "'s libp2p \<Rightarrow> peer \<Rightarrow> ('s, goerror + nat) io" where
  "dial L destID =
     io_bind (io_call (DialPeer destID) (\<lambda>w. lp_Dial L w destID)) (\<lambda>r.
       case r of
         Inl err \<Rightarrow> io_return (Inl err)
       | Inr conn \<Rightarrow> io_then (emit (OpenConn conn)) (io_return (Inr conn)))"

text \<open>The part after a connection was dialled, which \<open>call\<close> and \<open>dialAndCall\<close> share.\<close>

definition greet :: "'s libp2p \<Rightarrow> peer \<Rightarrow> goerror + nat \<Rightarrow> ('s, unit) io" where
  "greet L ourID r =
     (case r of
        Inl err \<Rightarrow> Fatal [Text ''A'', Err err]
      | Inr conn \<Rightarrow>
          (let name = lp_IDB58Encode L ourID
           in io_bind (io_call (CallHello conn name) (\<lambda>w. lp_SayHello L w conn name)) (\<lambda>resp.
                case resp of
                  Inl err \<Rightarrow> Fatal [Text ''B'', Err err]
                | Inr welcome \<Rightarrow> emit (Print [Text ''response:'', Text welcome]))))"

definition call :: "'s libp2p \<Rightarrow> peer \<Rightarrow> peer \<Rightarrow> ('s, unit) io" where
  "call L destID ourID =
     io_then (emit (Log [Text ''calling'', PeerID destID])) (io_bind (dial L destID) (greet L ourID))"

text \<open>\<open>conn.Close()\<close>: a method call on the nil connection of a failed \<open>Dial\<close> panics.\<close>

definition closeConn :: "goerror + nat \<Rightarrow> ('s, unit) io" where
  "closeConn r = (case r of Inl err \<Rightarrow> io_stop Panicking | Inr conn \<Rightarrow> emit (CloseConn conn))"

definition dialAndCall :: "'s libp2p \<Rightarrow> peer \<Rightarrow> peer \<Rightarrow> ('s, unit) io" where
  "dialAndCall L destID ourID =
     io_then (emit (Log [Text ''calling'', PeerID destID]))
       (io_bind (dial L destID) (\<lambda>r. io_defer (closeConn r) (greet L ourID r)))"

section \<open>\<open>grpc.go\<close>\<close>

text \<open>The identities the loop receives from its channel; then it waits for the next.\<close>

fun public_loop :: "'s libp2p \<Rightarrow> peer \<Rightarrow> peer list \<Rightarrow> ('s, unit) io" where
  "public_loop L us [] = io_stop Blocked"
| "public_loop L us (pid # ids) = io_then (call L pid us) (public_loop L us ids)"

definition runPublic :: "'s libp2p \<Rightarrow> peer list \<Rightarrow> ('s, unit) io" where
  "runPublic L ids =
     io_bind (setupHost L [] 0) (\<lambda>host.
     io_then (emit (NewGRPC (h_ID host)))
     (io_then (emit (Print [Text ''Sleeping...'']))
     (io_then (setupServer host True) (public_loop L (h_ID host) ids))))"

definition runPrivate :: "'s libp2p \<Rightarrow> string \<Rightarrow> ('s, unit) io" where
  "runPrivate L maddr =
     io_bind (setupHost L [] 0) (\<lambda>host.
     io_then (emit (NewGRPC (h_ID host)))
     (io_then (setupServer host False)
     (io_bind (parse_addr L maddr) (\<lambda>ai.
      io_then (connect_or_die L host ai)
      (io_then (call L (ai_ID ai) (h_ID host)) (io_stop Blocked))))))"

definition testGRPC :: "'s libp2p \<Rightarrow> peer list \<Rightarrow> ('s, unit) io" where
  "testGRPC L ids = by_mode L ''public'' (runPublic L ids) (runPrivate L)"

section \<open>\<open>close_conn.go\<close> and \<open>main.go\<close>\<close>

definition runServer :: "'s libp2p \<Rightarrow> ('s, unit) io" where
  "runServer L =
     io_bind (setupHost L [] 0) (\<lambda>host.
     io_then (emit (NewGRPC (h_ID host)))
     (io_then (emit (Print [Text ''Sleeping...'']))
     (io_then (emit (ServeHello (h_ID host) False))
     (io_bind (ask (\<lambda>w. lp_ListenAndServe L w ''0.0.0.0:6060'')) (\<lambda>err. emit (Print [Err err]))))))"

text \<open>The endless loop, for \<open>n\<close> turns.\<close>

fun client_loop :: "'s libp2p \<Rightarrow> peer \<Rightarrow> peer \<Rightarrow> nat \<Rightarrow> ('s, unit) io" where
  "client_loop L destID ourID 0 = io_stop Unfinished"
| "client_loop L destID ourID (Suc n) =
     io_then (dialAndCall L destID ourID) (io_then (emit (Sleep 3000000)) (client_loop L destID ourID n))"

definition runClient :: "'s libp2p \<Rightarrow> nat \<Rightarrow> string \<Rightarrow> ('s, unit) io" where
  "runClient L n maddr =
     io_bind (setupHost L [] 0) (\<lambda>host.
     io_then (emit (NewGRPC (h_ID host)))
     (io_bind (parse_addr L maddr) (\<lambda>ai.
      io_then (connect_or_die L host ai) (client_loop L (ai_ID ai) (h_ID host) n))))"

definition testCloseConn :: "'s libp2p \<Rightarrow> nat \<Rightarrow> ('s, unit) io" where
  "testCloseConn L n = by_mode L ''server'' (runServer L) (runClient L n)"

definition main_program :: "'s libp2p \<Rightarrow> nat \<Rightarrow> ('s, unit) io" where
  "main_program L n = testCloseConn L n"

section \<open>Connections\<close>

definition dialled :: "effect list \<Rightarrow> peer list" where
  "dialled = List.map_filter (\<lambda>e. case e of DialPeer p \<Rightarrow> Some p | _ \<Rightarrow> None)"

lemma dialled_simps [simp]:
  "dialled [] = []" "dialled (e # es) = (case e of DialPeer p \<Rightarrow> [p] | _ \<Rightarrow> []) @ dialled es"
  "dialled (xs @ ys) = dialled xs @ dialled ys"
  by (simp_all add: dialled_def List.map_filter_simps split: effect.split)

text \<open>
  The connection that is open after the effects \<open>es\<close>, if at most one ever was; \<open>None\<close> if a second one was opened
  beside it, or another one closed.
\<close>

fun open_after :: "nat option \<Rightarrow> effect list \<Rightarrow> nat option option" where
  "open_after cur [] = Some cur"
| "open_after cur (e # es) =
     (case e of
        OpenConn c \<Rightarrow> if cur = None then open_after (Some c) es else None
      | CloseConn c \<Rightarrow> if cur = Some c then open_after None es else None
      | _ \<Rightarrow> open_after cur es)"

lemma open_after_append: "open_after cur (xs @ ys) = Option.bind (open_after cur xs) (\<lambda>cur. open_after cur ys)"
  by (induction xs arbitrary: cur) (auto split: effect.split)

text \<open>What a run adds to the trace.\<close>

definition added :: "'s world \<Rightarrow> 's world \<Rightarrow> (effect list \<Rightarrow> bool) \<Rightarrow> bool" where
  "added w w' P \<longleftrightarrow> (\<exists>es. w_trace w' = w_trace w @ es \<and> P es)"

lemma addedI: "w_trace w' = w_trace w @ es \<Longrightarrow> P es \<Longrightarrow> added w w' P"
  by (auto simp: added_def)

lemma added_trans:
  "added w w1 P \<Longrightarrow> added w1 w2 P' \<Longrightarrow> (\<And>es es'. P es \<Longrightarrow> P' es' \<Longrightarrow> Q (es @ es')) \<Longrightarrow> added w w2 Q"
  by (fastforce simp: added_def)

text \<open>
  \<open>dialAndCall\<close> closes the connection it opened when it returns; if it gives up, the process exits with the
  connection open (\<open>log.Fatal\<close> skips the deferred call), and the nil connection of a failed \<open>Dial\<close> is never
  closed.
\<close>

lemma dialAndCall_spec:
  "wp (dialAndCall L destID ourID)
    (\<lambda>_ w'. added w w' (\<lambda>es. dialled es = [destID] \<and> conns_closed es = conns_opened es \<and>
       length (conns_opened es) = 1 \<and> open_after None es = Some None))
    (\<lambda>s w'. s = Exited \<and> added w w' (\<lambda>es. open_after None es \<noteq> None)) w"
  by (auto simp: dialAndCall_def dial_def greet_def closeConn_def wp_simps split: sum.split intro!: addedI)

lemma call_spec:
  "wp (call L destID ourID)
    (\<lambda>_ w'. added w w' (\<lambda>es. dialled es = [destID] \<and> conns_closed es = [] \<and> length (conns_opened es) = 1))
    (\<lambda>s w'. s = Exited \<and>
       added w w' (\<lambda>es. dialled es = [destID] \<and> conns_closed es = [] \<and> length (conns_opened es) \<le> 1)) w"
  by (auto simp: call_def dial_def greet_def wp_simps split: sum.split intro!: addedI)

text \<open>
  What the endless loop does until it ends in \<open>s\<close>: at most one connection is open at a time; none after a turn;
  and if there was a panic, nothing had been dialled.
\<close>

definition client_ok :: "nat \<Rightarrow> stop \<Rightarrow> effect list \<Rightarrow> bool" where
  "client_ok n s es \<longleftrightarrow> s \<in> {Exited, Unfinished, Panicking} \<and> open_after None es \<noteq> None \<and>
     (s = Unfinished \<longrightarrow> conns_closed es = conns_opened es \<and> length (conns_opened es) = n) \<and>
     (s = Panicking \<longrightarrow> dialled es = [])"

lemma client_loop_spec:
  "wp (client_loop L destID ourID n) (\<lambda>_ _. False)
    (\<lambda>s w'. s \<in> {Exited, Unfinished} \<and> added w w' (client_ok n s)) w"
proof (induction n arbitrary: w)
  case (Suc n)
  show ?case unfolding client_loop.simps wp_then
  proof (rule wp_mono [OF dialAndCall_spec], goal_cases)
    case (1 _ w1)
    let ?w1 = "w1\<lparr>w_trace := w_trace w1 @ [Sleep 3000000]\<rparr>"
    have w1: "added w ?w1 (\<lambda>es. conns_closed es = conns_opened es \<and> length (conns_opened es) = 1 \<and> open_after None es = Some None)"
      by (rule added_trans [OF 1, of _ "\<lambda>es. es = [Sleep 3000000]"]) (auto simp: added_def open_after_append)
    show ?case unfolding wp_emit
      by (rule wp_mono [OF Suc.IH]) (auto simp: client_ok_def open_after_append elim!: added_trans [OF w1])
  next
    case (2 s w1)
    then show ?case by (auto simp: added_def client_ok_def)
  qed
qed (simp add: wp_simps added_def client_ok_def)

lemma public_loop_spec:
  "wp (public_loop L us ids) (\<lambda>_ _. False)
    (\<lambda>s w'. (s = Blocked \<and>
         added w w' (\<lambda>es. dialled es = ids \<and> conns_closed es = [] \<and> length (conns_opened es) = length ids)) \<or>
       (s = Exited \<and> added w w' (\<lambda>es. \<exists>more. ids = dialled es @ more))) w"
proof (induction ids arbitrary: w)
  case (Cons pid ids)
  show ?case unfolding public_loop.simps wp_then
  proof (rule wp_mono [OF call_spec], goal_cases)
    case (1 _ w1)
    have blocked: "added w w' (\<lambda>es. dialled es = pid # ids \<and> conns_closed es = [] \<and>
        length (conns_opened es) = length (pid # ids))"
      if "added w1 w' (\<lambda>es. dialled es = ids \<and> conns_closed es = [] \<and> length (conns_opened es) = length ids)" for w'
      by (rule added_trans [OF 1 that]) auto
    have exited: "added w w' (\<lambda>es. \<exists>more. pid # ids = dialled es @ more)"
      if "added w1 w' (\<lambda>es. \<exists>more. ids = dialled es @ more)" for w'
      by (rule added_trans [OF 1 that]) auto
    show ?case
      by (rule wp_mono [OF Cons.IH]) (use blocked exited in blast)+
  next
    case (2 s w1)
    then show ?case by (auto simp: added_def)
  qed
qed (simp add: wp_simps added_def)

section \<open>Arguments\<close>

lemma setupHost_spec:
  assumes "addrs_ok L" "\<And>key. lp_MarshalPrivateKey L key \<noteq> None"
  shows "wp (setupHost L key port) (\<lambda>_ _. True) (\<lambda>s _. s = Exited) w"
proof -
  obtain m where "lp_MarshalPrivateKey L (lp_GenerateKeyPair L w) = Some m" using assms(2) by blast
  with assms(1) show ?thesis
    by (auto simp: setupHost_def hostKey_def newHost_def addrInfo_def addrs_ok_def wp_simps split: sum.split)
qed

lemma main_program_no_panic:
  assumes "addrs_ok L" "\<And>key. lp_MarshalPrivateKey L key \<noteq> None"
  shows "wp (runServer L) (\<lambda>_ _. True) (\<lambda>s _. s = Exited) w"
    "wp (runClient L n maddr) (\<lambda>_ _. False) (\<lambda>s _. s = Exited \<or> s = Unfinished) w"
proof -
  show "wp (runServer L) (\<lambda>_ _. True) (\<lambda>s _. s = Exited) w"
    unfolding runServer_def wp_bind [of "setupHost L [] 0"]
    by (rule wp_mono [OF setupHost_spec [OF assms]]) (simp_all add: wp_simps)
  have "wp (client_loop L d u n) (\<lambda>_ _. False) (\<lambda>s _. s = Exited \<or> s = Unfinished) w" for d u w
    by (rule wp_mono [OF client_loop_spec]) auto
  then show "wp (runClient L n maddr) (\<lambda>_ _. False) (\<lambda>s _. s = Exited \<or> s = Unfinished) w"
    unfolding runClient_def wp_bind [of "setupHost L [] 0"]
    by (intro wp_mono [OF setupHost_spec [OF assms]])
      (auto simp: wp_simps parse_addr_def io_fatal_on_def connect_or_die_def connect_def split: sum.split option.split)
qed

section \<open>Properties\<close>

definition no_conn :: "effect \<Rightarrow> bool" where
  "no_conn e \<longleftrightarrow> (case e of OpenConn c \<Rightarrow> False | CloseConn c \<Rightarrow> False | DialPeer p \<Rightarrow> False | _ \<Rightarrow> True)"

lemma no_conn_quiet:
  "list_all no_conn es \<Longrightarrow> conns_opened es = [] \<and> conns_closed es = [] \<and> dialled es = [] \<and> open_after cur es = Some cur"
  by (induction es arbitrary: cur) (auto simp: no_conn_def split: effect.splits)

text \<open>What comes before the first connection does not count.\<close>

definition counts_conns :: "(effect list \<Rightarrow> bool) \<Rightarrow> bool" where
  "counts_conns P \<longleftrightarrow> (\<forall>es es'. list_all no_conn es \<longrightarrow> P es' \<longrightarrow> P (es @ es'))"

lemma client_ok_counts: "counts_conns (client_ok n s)"
  using no_conn_quiet by (auto simp: counts_conns_def client_ok_def open_after_append)

lemma added_quiet: "counts_conns P \<Longrightarrow> adds no_conn w w1 \<Longrightarrow> added w1 w' P \<Longrightarrow> added w w' P"
  by (fastforce simp: counts_conns_def added_def adds_def)

lemma quiet_added: "counts_conns P \<Longrightarrow> adds no_conn w w' \<Longrightarrow> P [] \<Longrightarrow> added w w' P"
  by (rule added_quiet) (auto simp: added_def)

definition quiet :: "('s, 'a) io \<Rightarrow> bool" where
  "quiet m \<longleftrightarrow> (\<forall>w. wp m (\<lambda>_. adds no_conn w) (\<lambda>s w'. s \<in> {Exited, Panicking} \<and> adds no_conn w w') w)"

lemma quiet_emit: "no_conn e \<Longrightarrow> quiet (emit e)"
  by (simp add: quiet_def wp_simps adds_def)

lemma quiet_setupHost: "quiet (setupHost L key port)"
  by (auto simp: quiet_def setupHost_def hostKey_def newHost_def addrInfo_def wp_simps adds_def no_conn_def
      split: sum.split option.split)

lemma quiet_parse_addr: "quiet (parse_addr L maddr)"
  by (auto simp: quiet_def parse_addr_def io_fatal_on_def wp_simps adds_def no_conn_def split: sum.split)

lemma quiet_connect: "quiet (connect_or_die L h ai)"
  by (auto simp: quiet_def connect_or_die_def connect_def wp_simps adds_def no_conn_def split: option.split)

text \<open>A property of the connections of the endless loop is one of the program that starts with it.\<close>

lemma quiet_bind:
  assumes "quiet m" "\<And>x w. wp (k x) (\<lambda>_ _. False) (\<lambda>s w'. added w w' (P s)) w"
    "\<And>s. counts_conns (P s)" "P Exited []" "P Panicking []"
  shows "wp (io_bind m k) (\<lambda>_ _. False) (\<lambda>s w'. added w w' (P s)) w"
  unfolding wp_bind
proof (rule wp_mono)
  show "wp m (\<lambda>_. adds no_conn w) (\<lambda>s w'. s \<in> {Exited, Panicking} \<and> adds no_conn w w') w"
    using assms(1) by (simp add: quiet_def)
  show "wp (k x) (\<lambda>_ _. False) (\<lambda>s w'. added w w' (P s)) w1" if "adds no_conn w w1" for x w1
    by (rule wp_mono [OF assms(2)]) (auto intro: added_quiet [OF assms(3) that])
  show "added w w' (P s)" if "s \<in> {Exited, Panicking} \<and> adds no_conn w w'" for s w'
    using that assms(4,5) by (auto intro: quiet_added [OF assms(3)])
qed

lemmas quiet_intros = quiet_emit quiet_setupHost quiet_parse_addr quiet_connect

lemma runClient_counts: "wp (runClient L n maddr) (\<lambda>_ _. False) (\<lambda>s w'. added w w' (client_ok n s)) w"
proof -
  have loop: "wp (client_loop L d u n) (\<lambda>_ _. False) (\<lambda>s w'. added w w' (client_ok n s)) w" for d u w
    by (rule wp_mono [OF client_loop_spec]) auto
  show ?thesis unfolding runClient_def io_then_def
    by (intro quiet_bind quiet_intros loop client_ok_counts) (simp_all add: no_conn_def client_ok_def)
qed

lemma runPublic_counts:
  "wp (runPublic L ids) (\<lambda>_ _. False)
    (\<lambda>s w'. added w w' (\<lambda>es. s = Blocked \<longrightarrow> dialled es = ids \<and> conns_closed es = [] \<and> length (conns_opened es) = length ids)) w"
proof -
  have loop: "wp (public_loop L u ids) (\<lambda>_ _. False)
    (\<lambda>s w'. added w w' (\<lambda>es. s = Blocked \<longrightarrow> dialled es = ids \<and> conns_closed es = [] \<and> length (conns_opened es) = length ids)) w" for u w
    by (rule wp_mono [OF public_loop_spec]) (auto simp: added_def)
  have counts: "counts_conns (\<lambda>es. s = Blocked \<longrightarrow> dialled es = ids \<and> conns_closed es = [] \<and> length (conns_opened es) = length ids)" for s
    using no_conn_quiet by (auto simp: counts_conns_def)
  have server: "io_then (setupServer h c) m = io_then (emit (ServeHello (h_ID h) c)) (io_then (emit (Print [Text ''Public serving...''])) m)"
    for h c and m :: "('a, unit) io"
    by (simp add: setupServer_def io_then_def io_bind_def fun_eq_iff split: prod.split outcome.split)
  show ?thesis unfolding runPublic_def server unfolding io_then_def
    by (intro quiet_bind quiet_intros loop counts) (simp_all add: no_conn_def)
qed

text \<open>
  C35: the client of \<open>close_conn.go\<close> has at most one connection open at a time and closes it before the next turn,
  whatever the network answers: after \<open>n\<close> turns of its endless loop it has opened and closed \<open>n\<close> connections. It
  leaves one open only when it gives up, because \<open>log.Fatal\<close> after a failed greeting skips the deferred \<open>Close\<close>.
  It defers the \<open>Close\<close> of a connection that may be nil, but never calls it: it panics, if at all, while it sets
  up its host and before it dials anybody.
\<close>

theorem client_closes_connections:
  assumes "runClient L n maddr w = (r, w')"
  shows "\<exists>s es. r = Stopped s \<and> s \<in> {Exited, Unfinished, Panicking} \<and> w_trace w' = w_trace w @ es \<and>
    open_after None es \<noteq> None \<and>
    (s = Unfinished \<longrightarrow> conns_closed es = conns_opened es \<and> length (conns_opened es) = n) \<and>
    (s = Panicking \<longrightarrow> dialled es = [])"
  using runClient_counts [of L n maddr w] assms
  by (cases r) (auto simp: wp_def client_ok_def added_def)

theorem client_closes_connections_witness:
  "\<exists>es w'. runClient sample_lib 2 ''addr'' start_world = (Stopped Unfinished, w') \<and>
     w_trace w' = w_trace start_world @ es \<and> conns_closed es = conns_opened es \<and> length (conns_opened es) = 2"
proof -
  obtain r w' where r: "runClient sample_lib 2 ''addr'' start_world = (r, w')" by fastforce
  have "wp (runClient sample_lib 2 ''addr'') (\<lambda>_ _. False) (\<lambda>s _. s = Unfinished) start_world"
    by (simp add: runClient_def numeral_2_eq_2 setupHost_def hostKey_def newHost_def addrInfo_def parse_addr_def
        io_fatal_on_def connect_or_die_def connect_def dialAndCall_def dial_def greet_def closeConn_def wp_simps sample_lib_def)
  with r have "r = Stopped Unfinished" by (cases r) (simp_all add: wp_def)
  with client_closes_connections [OF r] r show ?thesis by auto
qed

text \<open>
  The server of \<open>grpc.go\<close> calls back everyone who said hello, in the order it hears of them, and never closes
  a connection.
\<close>

lemma public_keeps_connections:
  assumes "runPublic L ids w = (Stopped Blocked, w')"
  shows "\<exists>es. w_trace w' = w_trace w @ es \<and> dialled es = ids \<and> conns_closed es = [] \<and>
    length (conns_opened es) = length ids"
  using wp_StoppedD [OF runPublic_counts assms] by (auto simp: added_def)

text \<open>Who says hello with its own identity is called back, if decoding undoes encoding.\<close>

lemma hello_calls_back:
  assumes "\<And>p. lp_IDB58Decode L (lp_IDB58Encode L p) = (p, None)"
  shows "fst (SayHello L True (lp_IDB58Encode L p) w) = Done (''Hello '' @ lp_IDB58Encode L p, Some p)"
  using assms by (simp add: SayHello_def io_then_def io_bind_def emit_def io_return_def)

text \<open>
  \<open>main\<close> needs its arguments: it panics exactly if the mode, or the peer's address in the client's mode,
  is missing on the command line.
\<close>

lemma main_needs_arguments:
  assumes "addrs_ok L" "\<And>key. lp_MarshalPrivateKey L key \<noteq> None"
  shows "(\<exists>w'. main_program L n w = (Stopped Panicking, w')) \<longleftrightarrow>
    length (lp_Args L) < 2 \<or> lp_Args L ! 1 \<noteq> ''server'' \<and> length (lp_Args L) < 3"
proof -
  have server: "runServer L w \<noteq> (Stopped Panicking, w')" for w'
    using main_program_no_panic(1) [OF assms, of w] by (auto simp: wp_def)
  have client: "runClient L n maddr w \<noteq> (Stopped Panicking, w')" for maddr w'
    using main_program_no_panic(2) [OF assms, of n maddr w] by (auto simp: wp_def)
  show ?thesis using server client
    by (auto simp: main_program_def testCloseConn_def by_mode_def io_bind_def io_nth_def io_stop_def io_return_def)
qed

end
