(* ===== verification/Spec2Isabelle.thy ===== *)
theory Spec2Isabelle
  imports Network PubSubRuns HelloDemo
begin

text \<open>
  This library models \<open>src/go-libp2p-pubsub\<close>, the publish/subscribe library of the repository, and the demo
  programs in \<open>src/*.go\<close> that use it and libp2p, and proves what they promise.

  \<^bold>\<open>The program.\<close> A \<open>PubSub\<close> object is a node. One goroutine, \<open>processLoop\<close>, owns its maps and takes one input
  at a time: new peers and streams, dead peers, incoming RPCs, requests of the user, validated messages, and
  thunks (the router's heartbeat, retried announcements). It sends by putting RPCs into one bounded queue per
  peer, and never blocks: a full queue drops. Around it run the writers of those queues, the readers of the
  streams, the validation workers and the goroutines of asynchronous validators, the timer of the heartbeat,
  and the users of subscriptions. A router (\<open>FloodSubRouter\<close>, \<open>RandomSubRouter\<close>, \<open>GossipSubRouter\<close>) decides where messages go.

  \<^bold>\<open>The theories\<close>, in the order they build on each other:

  \<^item> \<open>Prelude\<close>: Go maps, channels, panics as \<open>None\<close>, and the runtime's choices.
  \<^item> \<open>Wire\<close>: the structs of \<open>pb/rpc.pb.go\<close>, the RPC constructors of \<open>comm.go\<close>, \<open>msgID\<close>, big-endian numbers.
  \<^item> \<open>Codec\<close>: \<open>Marshal\<close>, \<open>Size\<close> and \<open>Unmarshal\<close> of \<open>Message\<close>, with a check at every index and slice expression
    and sums that wrap around: the round trip, and that neither \<open>Marshal\<close> nor \<open>Unmarshal\<close> on any bytes panics.
  \<^item> \<open>Signing\<close>: \<open>sign.go\<close>: what is signed verifies, what verifies was signed.
  \<^item> \<open>MessageCache\<close>: \<open>mcache.go\<close>: the lifetime of a cached message in heartbeats.
  \<^item> \<open>Subscription\<close>: \<open>subscription.go\<close>: the event log as a state machine with its users.
  \<^item> \<open>Blacklist\<close>: \<open>blacklist.go\<close>; the locale \<open>blacklist\<close> is what the loop relies on.
  \<^item> \<open>Validation\<close>: \<open>validation.go\<close>, the registry, the queue and the options.
  \<^item> \<open>Node\<close>: the fields of \<open>PubSub\<close> and the send on a peer's queue; \<open>Peers\<close>: peer lists and their shuffling.
  \<^item> \<open>Router\<close>: the interface \<open>PubSubRouter\<close>; the locale \<open>router\<close> is its contract: a method returns, changes
    nothing of the node but the queues, and keeps the router's own invariant.
  \<^item> \<open>FloodSub\<close>, \<open>RandomSub\<close>, \<open>GossipSub\<close>: the routers, each an interpretation of \<open>router\<close>. \<open>GossipSpec\<close> has the
    lemmas of gossipsub's operations, \<open>Heartbeat\<close> the heartbeat, \<open>GossipProps\<close> the properties of both.
  \<^item> \<open>PubSub\<close>: every case of \<open>processLoop\<close> and every function it calls.
  \<^item> \<open>Pipeline\<close>: the workers and goroutines of \<open>validation.go\<close>; the locale \<open>pipeline\<close> is what the loop and an
    invariant of the pipeline demand of each other. \<open>PipelineInv\<close> has the invariant of the throttle
    tokens (\<open>pipe_ok\<close>) and says what a step does to the messages under way.
  \<^item> \<open>Broadcast\<close>: an abstract specification of a node, which knows messages that are under way and messages that
    are published; \<open>Refinement\<close>: every step of the pipeline is a run of it. With the locales, so is every step
    of every node, whatever its router; at-most-once publication and the admissibility of what is published
    (signed and verified) are proved of the specification and hold of the node by refinement.
  \<^item> \<open>PubSubSafety\<close>: the locale \<open>pubsub_offered\<close> joins router, blacklist and pipeline; in it every turn of the loop
    returns and keeps the node's invariant. An invariant of the pipeline may depend on the messages the loop is
    given (\<open>adm\<close>); the locale \<open>pubsub\<close> is the case in which it does not.
  \<^item> \<open>Api\<close>: \<open>NewPubSub\<close>, its options, the routers' constructors, \<open>Publish\<close> and the requests to the loop.
  \<^item> \<open>Comm\<close>: \<open>comm.go\<close>, \<open>notify.go\<close> and the heartbeat's timer: the goroutines between network, clock and loop.
  \<^item> \<open>System\<close>: the inductive relation \<open>goroutine_step\<close> has the steps beside the loop, and \<open>node_step\<close> interleaves
    them with the loop's; the locales \<open>node_offered\<close> and \<open>node_system\<close> extend those of \<open>PubSubSafety\<close> by the
    goroutines, and \<open>node_system\<close> is interpreted on the gossipsub, the floodsub and the randomsub node.
  \<^item> \<open>Effects\<close>: what each case of the loop does, in every reachable state.
  \<^item> \<open>Forwarding\<close>: the locale \<open>forwarding\<close>: every message a node holds for somebody else (in a peer's queue, a
    subscription's channel or the cache) is one it published; \<open>RouterForwarding\<close> interprets it for the routers.
  \<^item> \<open>Progress\<close>: a signed message for which there are no validators is not lost in the pipeline (\<open>kept\<close>, another
    interpretation of \<open>pipeline\<close>), and can get to the loop from everywhere in it.
  \<^item> \<open>Delivery\<close>: nothing leaves a node unverified, and what the user publishes gets through.
  \<^item> \<open>Network\<close>: several nodes, the streams between them and their users, as the relation \<open>net_step\<close>; the locale
    \<open>networked\<close> joins \<open>node_system\<close> and \<open>forwarding\<close> and is interpreted on the three kinds of node. Whatever any
    node holds or publishes, the user of some node published; and what one node's user publishes
    crosses paths of floodsub nodes that are ready for it.
  \<^item> \<open>Program\<close>: the language of the demo programs: a program is a function of a world (a trace of the calls it
    made, and its pubsub nodes) to how it ended and the new world, with \<open>defer\<close>, panics and \<open>log.Fatal\<close>, and a
    weakest-precondition calculus for it. What libraries answer is the record \<open>libp2p\<close>, over which the theorems
    quantify. \<open>Hosts\<close>: the programs about hosts and connections; \<open>PubSubDemo\<close>: the programs that run nodes,
    on the model of the package, and \<open>PubSubRuns\<close> what they do; \<open>HelloDemo\<close>: the greeting service and \<open>main\<close>.
  \<^item> This theory: the properties of the whole node.

  \<^bold>\<open>How the state corresponds.\<close> \<open>node\<close> has a field per field of \<open>PubSub\<close>; the request channels are the inputs
  \<open>loop_event\<close> instead. A router's struct extends the record. A pointer that is shared (\<open>*Subscription\<close>,
  \<open>*topicVal\<close>) is an index into a heap. A Go map is an association list with unique keys; where the order of
  \<open>range\<close> or a random number can be observed it is read from \<open>n_choices\<close>, over which all theorems
  quantify. A panic is \<open>None\<close> (in \<open>Codec\<close> an error \<open>Panic\<close>, which tells what went wrong). Time is an unbounded
  integer of nanoseconds (the code's is 64 bits wide); the counter of sequence numbers is a 64-bit word.

  \<^bold>\<open>What is abstracted.\<close> A turn of the loop is atomic: what a queue's writer takes out while the turn runs is
  taken before or after it. Asynchronous validators read and return the throttles of one message in one
  step each. A message's data is copied where the code shares the caller's slice. The blacklist is part of the
  node: one given with \<open>WithBlacklist\<close> whose owner changes it outside the loop occurs in
  \<open>blacklisted_stream_panics\<close> only. The nil and the empty slice are the same, except for the byte fields of
  messages, where the code tells them apart. User validators, the blacklist's methods, the time cache's methods, the packages
  \<open>crypto\<close> and \<open>peer\<close>, and what network, host and runtime answer are parameters; the time cache may forget
  anything at any time, unless a property says otherwise. Between the nodes of a \<open>network\<close> an RPC arrives
  as it was written, if it arrives: the streams hold RPCs, not bytes. \<open>n_published\<close> is a history variable.

  \<^bold>\<open>Termination and fuel.\<close> Every loop of the code is a structural recursion, a fold over the keys it ranges
  over, or has a measure (\<open>NextPeerEvent\<close>, the varint loops, \<open>skipRpc\<close>); only the decoder's main loop counts
  its turns, and the number of bytes is enough, as each turn consumes one. Where the loops of the decoder and of
  \<open>skipRpc\<close> would not move forward the model gives \<open>NoProgress\<close>, which \<open>Unmarshal_total\<close> excludes. A goroutine's
  stack is unbounded here: \<open>skipRpc\<close> calls itself once per level of nested groups.

  The endless loops of the demo programs are run for a number of turns, over which the theorems quantify.

  \<^bold>\<open>Not modelled.\<close> The shutdown of goroutines through the context beyond what ends them, the logging of the
  package, the codecs of the other message types and the stubs of \<open>hello.pb.go\<close> (generated code), and calls of
  the demo programs into libraries that never return. The heartbeat of a running node (\<open>node_step\<close>) may come at
  any time, not only at the ticks of its timer.
\<close>

section \<open>No panic\<close>

text \<open>
  C1: a gossipsub node never panics, with two provisos. Whatever it went through since it was created with any of
  the package's options, and whatever the runtime, the peers, the users and the time cache did, the next input the
  loop takes is handled to its end. The provisos: no subscription is cancelled a second time (\<open>valid_event\<close>; C38 shows
  the panic that can follow), and the blacklist, the default one or one given with \<open>WithBlacklist\<close>, contains what was
  added last and nothing that was not added (\<open>blacklist\<close>), and only the loop adds to it (C39 shows the panics that
  follow when its owner blacklists a connected peer behind the loop's back).
\<close>

theorem gossipsub_never_panics:
  assumes "blacklist bl" and "NewGossipSub tc ev opts = Some (Inr (st0, protos, workers))"
    and "reach (gossipsub_router tc) bl tc heartbeat cr forget st0 st" "valid_event st e"
  shows "\<exists>st'. loop_turn (gossipsub_router tc) bl tc heartbeat e st = Some st'"
  by (rule node_system.reach_total [OF gossip_system [OF assms(1)] assms(3) gossip_created_any [OF assms(2)] assms(4)])

theorem gossipsub_never_panics_witness:
  "\<exists>st0 st1 st2. NewGossipSub sample_tc sample_env [] = Some (Inr (st0, [GossipSubID, FloodSubID], 4)) \<and>
     gossip_turn sample_tc (NewPeer [8]) st0 = Some st1 \<and> gossip_turn sample_tc (AddSub (str ''art'')) st1 = Some st2"
proof -
  note st0 = sample_created
  have r0: "gossip_reach sample_tc sample_crypto (=) sample_state sample_state" by (rule reach.start)
  have v: "valid_event st (NewPeer [8])" "valid_event st (AddSub (str ''art''))" for st :: "(unit, MapBlacklist) gossipsub"
    by (simp_all add: valid_event_def)
  obtain st1 where st1: "gossip_turn sample_tc (NewPeer [8]) sample_state = Some st1"
    using gossipsub_never_panics [OF map_bl.blacklist_axioms st0 r0 v(1)] by blast
  have r1: "gossip_reach sample_tc sample_crypto (=) sample_state st1"
    by (rule reach.more [OF r0 node_step.turn [OF v(1) st1]])
  from gossipsub_never_panics [OF map_bl.blacklist_axioms st0 r1 v(2)] st0 st1 show ?thesis by blast
qed

text \<open>A floodsub node never panics, either, whatever protocols it was created for.\<close>

lemma floodsub_never_panics:
  assumes "NewFloodsubWithProtocols ev ps opts = Some (Inr (st0, protos, workers))"
    and "reach floodsub_router map_blacklist tc Some cr forget st0 st" "valid_event st e"
  shows "\<exists>st'. loop_turn floodsub_router map_blacklist tc Some e st = Some st'"
proof -
  have "node_inv map_blacklist pipe_ok st0"
    using assms(1) unfolding NewFloodsubWithProtocols_def by (rule created_good)
  then have "good map_blacklist pipe_ok (\<lambda>_. True) st0" by (simp add: good_def)
  from flood_node.reach_total [OF assms(2) this assms(3)] show ?thesis .
qed

text \<open>The same for a randomsub node.\<close>

lemma randomsub_never_panics:
  assumes "NewRandomSub ev opts = Some (Inr (st0, protos, workers))"
    and "reach randomsub_router map_blacklist tc Some cr forget st0 st" "valid_event st e"
  shows "\<exists>st'. loop_turn randomsub_router map_blacklist tc Some e st = Some st'"
proof -
  have "node_inv map_blacklist pipe_ok st0"
    using assms(1) unfolding NewRandomSub_def by (rule created_good)
  then have "good map_blacklist pipe_ok (\<lambda>_. True) st0" by (simp add: good_def)
  from random_node.reach_total [OF assms(2) this assms(3)] show ?thesis .
qed

section \<open>Invariants of a running node\<close>

text \<open>
  C14: in every state of a gossipsub node: the queue of every peer is open and within its capacity and the peer
  is not blacklisted; a subscription is open exactly as long as it is registered under its topic, and its
  channel never overflows; a topic is registered exactly as long as it has an open subscription.
\<close>

theorem gossipsub_invariant:
  assumes "gossip_state tc cr forget st"
  shows "(\<forall>p ch. mget (n_peers st) p = Some ch \<longrightarrow>
      \<not> ch_closed ch \<and> length (ch_buf ch) \<le> ch_cap ch \<and> \<not> MapBlacklist_Contains (n_blacklist st) p) \<and>
    (\<forall>i sub. mget (n_subs st) i = Some sub \<longrightarrow>
      (ch_closed (s_ch sub) \<longleftrightarrow> i \<notin> mdom (mget0 (n_myTopics st) (s_topic sub))) \<and>
      length (ch_buf (s_ch sub)) \<le> ch_cap (s_ch sub)) \<and>
    (\<forall>t. t \<in> mdom (n_myTopics st) \<longleftrightarrow>
      (\<exists>i sub. mget (n_subs st) i = Some sub \<and> s_topic sub = t \<and> \<not> ch_closed (s_ch sub)))"
proof -
  have inv: "node_inv map_blacklist pipe_ok st" using gossip_state_good [OF assms] by (simp add: good_def)
  then have ok: "subs_ok (n_subs st) (n_myTopics st)" by (simp add: node_inv_def)
  have "t \<in> mdom (n_myTopics st) \<longleftrightarrow>
      (\<exists>i sub. mget (n_subs st) i = Some sub \<and> s_topic sub = t \<and> \<not> ch_closed (s_ch sub))" for t
  proof
    assume "t \<in> mdom (n_myTopics st)"
    then obtain ss i where "mget (n_myTopics st) t = Some ss" "i \<in> mdom ss"
      using subs_okD(3) [OF ok] by (fastforce simp: mem_mdom)
    then have "i \<in> mdom (mget0 (n_myTopics st) t)" by (simp add: mget0_def)
    from subs_ok_live [OF ok this] show "\<exists>i sub. mget (n_subs st) i = Some sub \<and> s_topic sub = t \<and> \<not> ch_closed (s_ch sub)"
      by (auto simp: sub_ok_def)
  next
    assume "\<exists>i sub. mget (n_subs st) i = Some sub \<and> s_topic sub = t \<and> \<not> ch_closed (s_ch sub)"
    then obtain i where "i \<in> mdom (mget0 (n_myTopics st) t)" using subs_okD(2) [OF ok] by (auto simp: sub_ok_def)
    then show "t \<in> mdom (n_myTopics st)" by (auto simp: mget0_def mem_mdom split: option.splits)
  qed
  moreover have "(ch_closed (s_ch sub) \<longleftrightarrow> i \<notin> mdom (mget0 (n_myTopics st) (s_topic sub))) \<and>
      length (ch_buf (s_ch sub)) \<le> ch_cap (s_ch sub)" if "mget (n_subs st) i = Some sub" for i sub
    using subs_okD(2) [OF ok that] by (simp add: sub_ok_def)
  moreover have "\<not> ch_closed ch \<and> length (ch_buf ch) \<le> ch_cap ch \<and> \<not> MapBlacklist_Contains (n_blacklist st) p"
    if "mget (n_peers st) p = Some ch" for p ch
    using inv that by (auto simp: node_inv_def peers_ok_def chan_ok_def no_blacklisted_def map_blacklist_def)
  ultimately show ?thesis by blast
qed

theorem gossipsub_invariant_witness:
  "\<exists>st. gossip_state sample_tc sample_crypto (=) st \<and> [8] \<in> mdom (n_peers st) \<and>
     \<not> MapBlacklist_Contains (n_blacklist st) [8]"
proof -
  obtain st where s: "gossip_state sample_tc sample_crypto (=) st" "[8] \<in> mdom (n_peers st)"
    using sample_connected by blast
  then obtain ch where "mget (n_peers st) [8] = Some ch" by (auto simp: mem_mdom)
  with gossipsub_invariant [OF s(1)] s show ?thesis by blast
qed



section \<open>Authentic delivery, at most once\<close>

text \<open>
  C3: a gossipsub node refines the specification \<open>Broadcast\<close>: every single step of a running node (a turn of
  the loop with all the messages it handles, a step of a worker, of a validating goroutine, of a user, of the
  time cache) is a run of the specification, which accepts only admissible messages with fresh identifiers,
  and publishes only what it accepted, once.
\<close>

theorem node_refines_broadcast:
  assumes "gossip_state tc cr forget st" "node_step (gossipsub_router tc) map_blacklist tc heartbeat cr forget st st'"
  shows "broadcast_steps tc (msg_verified (verified cr) (n_signStrict st)) forget
    (broadcast_of (pipe_of st)) (broadcast_of (pipe_of st'))"
  using assms gossip_step_refines unfolding gossip_state_def by blast

theorem node_refines_broadcast_witness:
  "broadcast_steps sample_tc (msg_verified (verified sample_crypto) (n_signStrict sample_state)) (=)
     (broadcast_of (pipe_of sample_state)) (broadcast_of (pipe_of (spawn_writer [8] sample_state)))"
  by (rule node_refines_broadcast [OF sample_gossip_state node_step.turn [where ev = "NewPeer [8]"]])
    (simp_all add: valid_event_def loop_turn_def onNewPeers_def map_blacklist_def MapBlacklist_Contains_def NewMapBlacklist_def)

text \<open>
  C2: no message is published twice. \<open>publishMessage\<close> is the one function that hands a message to the subscriptions
  and to the router, and \<open>n_published\<close> records its calls; as long as the time cache forgets nothing, the messages of
  these calls have pairwise different identifiers, whether they came from peers or from the user and whichever way
  they took through the validation pipeline, and those on their way through it have other identifiers again. (One
  call puts a message that names a topic twice into the topic's subscriptions twice, and what peers ask for with
  IWANT is sent to them again.)
\<close>

theorem published_once:
  assumes tc: "seen_ok tc" and new: "NewGossipSub tc ev opts = Some (Inr (st0, protos, workers))"
    and reached: "gossip_reach tc cr (\<lambda>s s'. s' = s) st0 st"
  shows "distinct (map msgID (n_published st)) \<and>
    (\<forall>req \<in> set (ch_buf (n_sendMsg st)). msgID (sr_msg req) \<notin> msgID ` set (n_published st)) \<and>
    (\<forall>a \<in> set (n_async st). msgID (as_msg a) \<notin> msgID ` set (n_published st))"
  using b_once_distinct [OF gossip_reach_once [OF assms]] by (auto simp: broadcast_of_def under_way_def)

text \<open>A time cache that remembers everything.\<close>

definition list_tc :: "gostring list seen_methods" where
  "list_tc = \<lparr>tc_Has = \<lambda>s x. x \<in> set s, tc_Add = \<lambda>x s. x # s\<rparr>"

definition list_env :: "(gostring list, MapBlacklist) env" where
  "list_env = \<lparr>e_host = e_host sample_env, e_timecache = [], e_blacklist = NewMapBlacklist, e_numCPU = 4,
     e_UnixNano = 1000, e_choices = []\<rparr>"

definition list_state :: "(gostring list, MapBlacklist) gossipsub" where
  "list_state = newPS list_env gs_new"

lemma list_created: "NewGossipSub list_tc list_env [] = Some (Inr (list_state, [GossipSubID, FloodSubID], 4))"
  by (simp add: NewGossipSub_def NewPubSub_def newPS_def newValidation_def list_state_def
      list_env_def sample_env_def gossipsub_router_def gs_Protocols_def)

lemma list_idle: "pipe_idle list_state" "n_val list_state = newValidation 4" "n_published list_state = []"
  "n_seen list_state = []" "n_blacklist list_state = NewMapBlacklist"
  by (simp_all add: pipe_idle_def list_state_def newPS_def newValidation_def make_chan_def list_env_def sample_env_def)

text \<open>A message was published; when it comes again, nothing happens.\<close>

theorem published_once_witness:
  "\<exists>st m. gossip_reach list_tc one_signature (\<lambda>s s'. s' = s) list_state st \<and> n_published st = [m] \<and>
     distinct (map msgID (n_published st)) \<and> gossip_turn list_tc (PublishMsg m) st = Some st"
proof -
  let ?m = "(text_msg [7] (PutUint64 5) [[3], []])\<lparr>m_Signature := Some [1]\<rparr>"
  have "\<not> rejected map_blacklist list_tc (n_host list_state) ?m list_state"
    by (simp add: rejected_def map_blacklist_def MapBlacklist_Contains_def NewMapBlacklist_def list_tc_def list_idle)
  from gossip_through [where forget = "\<lambda>s s'. s' = s", OF list_created reach.start list_idle(1) this sample_signed(3,1)]
  obtain st where r: "gossip_reach list_tc one_signature (\<lambda>s s'. s' = s) list_state st"
    and fw: "forwards (gossipsub_router list_tc) list_tc (n_host list_state) ?m list_state st"
    using newValidation_plain by (auto simp: list_idle(2))
  have "n_published st = [?m]" using forwards_published [OF fw] list_idle(3) by simp
  moreover have "tc_Has list_tc (n_seen st) (msgID ?m)"
    using fw by (auto simp: forwards_def Let_def router_frame_def list_tc_def)
  then have "gossip_turn list_tc (PublishMsg ?m) st = Some st"
    by (simp add: loop_turn_def pushMsg_def seenMessage_def)
  moreover have "seen_ok list_tc" by (simp add: seen_ok_def list_tc_def)
  note published_once [OF this list_created r]
  ultimately show ?thesis using r by blast
qed

section \<open>Panics\<close>

text \<open>
  C38: cancelling a subscription twice crashes the node when its topic has another subscription: the handler
  only notices that the subscription is gone when the topic is gone with it, and closes the channel a second
  time. Without another subscription the second cancel is ignored.
\<close>

theorem double_cancel_panics:
  assumes "gossip_state tc cr forget st" "mget (n_subs st) i = Some sub" "s_cancelled sub"
  shows "handleRemoveSubscription (gossipsub_router tc) i st =
    (if s_topic sub \<in> mdom (n_myTopics st) then None else Some st)"
proof -
  have ok: "subs_ok (n_subs st) (n_myTopics st)"
    using gossip_state_good [OF assms(1)] by (simp add: good_def node_inv_def)
  have "ch_closed (s_ch sub)" using subs_okD(2) [OF ok assms(2)] assms(3) by (simp add: sub_ok_def)
  then show ?thesis
    using assms(2)
    by (auto simp: handleRemoveSubscription_def Let_def close_sub_def chan_close_def mem_mdom split: option.split)
qed

theorem double_cancel_panics_witness:
  "\<exists>st. gossip_state sample_tc sample_crypto (=) st \<and> handleRemoveSubscription (gossipsub_router sample_tc) 0 st = None"
proof -
  obtain st sub where s: "gossip_state sample_tc sample_crypto (=) st" "mget (n_subs st) 0 = Some sub" "s_cancelled sub"
    "s_topic sub \<in> mdom (n_myTopics st)" using sample_half_cancelled by blast
  from double_cancel_panics [OF s(1-3)] s(1,4) show ?thesis by auto
qed

text \<open>
  C39: a stream to a peer that is blacklisted already (by a blacklist that also changes outside the loop)
  leaves the node with a closed queue among the open ones: closing it again when the peer goes away, or
  announcing a topic to it, crashes the node.
\<close>

theorem blacklisted_stream_panics:
  assumes "mget (n_peers st) p = Some ch" "\<not> ch_closed ch" "bl_Contains bl (n_blacklist st) p"
  shows "\<exists>st'. onNewPeerStream rt bl p proto st = Some st' \<and>
    (\<forall>connected. onPeerDead rt p connected st' = None) \<and> (\<forall>t sub. doAnnounceRetry p t sub st' = None)"
  using assms
  by (auto simp: onNewPeerStream_def chan_close_def onPeerDead_def doAnnounceRetry_def try_send_def chan_send_def lookup_update)

theorem blacklisted_stream_panics_witness:
  "\<exists>st'. onNewPeerStream (gossipsub_router sample_tc) map_blacklist [1] GossipSubID
      (sample_gossip () (MapBlacklist_Add [1] NewMapBlacklist)) = Some st' \<and>
    onPeerDead (gossipsub_router sample_tc) [1] False st' = None"
proof -
  let ?st = "sample_gossip () (MapBlacklist_Add [1] NewMapBlacklist)"
  have peers: "n_peers ?st = sample_peers" "n_blacklist ?st = MapBlacklist_Add [1] NewMapBlacklist"
    by (simp_all add: sample_gossip_def)
  have "mget (n_peers ?st) [1] = Some (make_chan 32)"
    by (simp add: peers sample_peers_def lookup_update)
  moreover have "\<not> ch_closed (make_chan 32 :: RPC chan)" by (simp add: make_chan_def)
  moreover have "bl_Contains map_blacklist (n_blacklist ?st) [1]"
    unfolding peers by (simp add: map_blacklist_def MapBlacklist_Contains_def MapBlacklist_Add_def)
  ultimately show ?thesis using blacklisted_stream_panics by blast
qed

end
